(* ===== verification/FC_Prelude.thy ===== *)
theory FC_Prelude
  imports
    Complex_Main
    "HOL-Library.Word"
    "HOL-Library.AList"
    "HOL-Library.Monad_Syntax"
    "HOL-Library.Multiset"
begin

text \<open>
  Shared vocabulary of the forgechain development: the machine types of
  src/include/crypto/CommonTypes.hpp, the exceptions the C++ code can raise, the byte images of
  integers that the code obtains with \<open>reinterpret_cast\<close>, the cursor idiom
  (\<open>offset\<close> into a payload with a size check before every read) that every
  deserializer of the repository uses, and the contract of a codec as a locale.
\<close>

section \<open>Machine types\<close>

type_synonym u8 = "8 word"
type_synonym u16 = "16 word"
type_synonym u32 = "32 word"
type_synonym u64 = "64 word"
type_synonym bytes = "u8 list"
type_synonym str = string

text \<open>
  \<open>HashBytes\<close> is \<open>std::array<uint8_t, 32>\<close>. It is a byte list here; the
  fixed length is a well-formedness condition wherever a statement needs it.
\<close>

type_synonym HashBytes = "u8 list"

definition zero_hash :: HashBytes where
  "zero_hash = replicate 32 0"

text \<open>
  Exceptions. \<open>Undefined_behaviour\<close> marks a read the C++ standard gives no meaning to
  (an element of an empty container, bytes past the end of a buffer).
\<close>

datatype exn =
    Runtime_error string
  | Out_of_range
  | Length_error
  | Bad_alloc
  | Invalid_argument string
  | Undefined_behaviour

type_synonym 'a result = "exn + 'a"

definition bindE :: "'e + 'a \<Rightarrow> ('a \<Rightarrow> 'e + 'b) \<Rightarrow> 'e + 'b" where
  "bindE m f = (case m of Inl e \<Rightarrow> Inl e | Inr x \<Rightarrow> f x)"

definition require :: "bool \<Rightarrow> string \<Rightarrow> 'a result \<Rightarrow> 'a result" where
  "require ok msg k = (if ok then k else Inl (Runtime_error msg))"

lemma bindE_simps [simp]:
  "bindE (Inl e) f = Inl e"
  "bindE (Inr x) f = f x"
  by (simp_all add: bindE_def)

lemma bindE_eq_Inr: "bindE m f = Inr y \<longleftrightarrow> (\<exists>x. m = Inr x \<and> f x = Inr y)"
  by (cases m) auto

lemma bindE_cong [fundef_cong]:
  "m = m' \<Longrightarrow> (\<And>x. m' = Inr x \<Longrightarrow> f x = f' x) \<Longrightarrow> bindE m f = bindE m' f'"
  by (cases m') auto

lemma require_simps [simp]:
  "require True msg k = k"
  "require False msg k = Inl (Runtime_error msg)"
  by (simp_all add: require_def)

lemma require_eq_Inr: "require ok msg k = Inr y \<longleftrightarrow> ok \<and> k = Inr y"
  by (simp add: require_def)

section \<open>Collections\<close>

text \<open>
  \<open>codec_simps\<close> holds the layout of encoded integers, \<open>umap_simps\<close> the reading
  of a \<open>std::unordered_map\<close> (an association list with distinct keys) as a partial map.
\<close>

named_theorems codec_simps \<open>lengths and shapes of encoded values\<close>
named_theorems umap_simps \<open>unordered_map operations as map updates\<close>

declare update_conv' [umap_simps] delete_conv' [umap_simps]

lemma umap_keys_update [umap_simps]: "fst ` set (AList.update k v m) = insert k (fst ` set m)"
  by (induct m) auto

lemma umap_distinct_update: "distinct (map fst m) \<Longrightarrow> distinct (map fst (AList.update k v m))"
  by (rule distinct_update)

lemma umap_distinct_delete: "distinct (map fst m) \<Longrightarrow> distinct (map fst (AList.delete k m))"
  by (simp add: distinct_delete)

lemma umap_update_new: "k \<notin> fst ` set m \<Longrightarrow> AList.update k v m = m @ [(k, v)]"
  by (induct m) auto

section \<open>Characters and bytes\<close>

text \<open>A \<open>std::string\<close> is copied to and from a byte vector one \<open>char\<close> at a time.\<close>

definition char_byte :: "char \<Rightarrow> u8" where
  "char_byte c = word_of_nat (of_char c)"

definition byte_char :: "u8 \<Rightarrow> char" where
  "byte_char b = char_of (unat b)"

definition str_bytes :: "str \<Rightarrow> bytes" where
  "str_bytes s = map char_byte s"

definition bytes_str :: "bytes \<Rightarrow> str" where
  "bytes_str bs = map byte_char bs"

lemma unat_lt: "unat (w :: 'a::len word) < 2 ^ LENGTH('a)"
  by (rule unsigned_less)

lemma of_char_less_256: "(of_char c :: nat) < 256"
  by (metis char_of_char mod_less_divisor of_char_of zero_less_numeral)

lemma byte_char_byte [simp]: "byte_char (char_byte c) = c"
  using of_char_less_256 [of c] by (simp add: byte_char_def char_byte_def unat_of_nat)

lemma char_byte_char [simp]: "char_byte (byte_char b) = b"
  using unat_lt [of b] by (simp add: byte_char_def char_byte_def)

lemma bytes_str_bytes [simp]: "bytes_str (str_bytes s) = s"
  by (induction s) (simp_all add: bytes_str_def str_bytes_def)

lemma str_bytes_str [simp]: "str_bytes (bytes_str bs) = bs"
  by (induction bs) (simp_all add: bytes_str_def str_bytes_def)

lemma length_str_bytes [simp, codec_simps]: "length (str_bytes s) = length s"
  by (simp add: str_bytes_def)

lemma length_bytes_str [simp, codec_simps]: "length (bytes_str bs) = length bs"
  by (simp add: bytes_str_def)

lemma inj_str_bytes: "str_bytes s = str_bytes t \<Longrightarrow> s = t"
  by (metis bytes_str_bytes)

text \<open>A C string ends at the first zero character.\<close>

definition c_str :: "str \<Rightarrow> str" where
  "c_str s = takeWhile (\<lambda>c. c \<noteq> CHR 0x00) s"

text \<open>\<open>std::vector::at\<close> checks its index.\<close>

definition vec_at :: "'a list \<Rightarrow> nat \<Rightarrow> 'a result" where
  "vec_at xs i = (if i < length xs then Inr (xs ! i) else Inl Out_of_range)"

section \<open>Little-endian images of integers\<close>

text \<open>
  \<open>reinterpret_cast\<close> of an integer to its bytes and back, on the little-endian targets the
  protocol document fixes.
\<close>

primrec nat_le :: "nat \<Rightarrow> nat \<Rightarrow> bytes" where
  "nat_le 0 x = []"
| "nat_le (Suc n) x = word_of_nat (x mod 256) # nat_le n (x div 256)"

primrec le_nat :: "bytes \<Rightarrow> nat" where
  "le_nat [] = 0"
| "le_nat (b # bs) = unat b + 256 * le_nat bs"

definition u16_le :: "u16 \<Rightarrow> bytes" where "u16_le w = nat_le 2 (unat w)"
definition u32_le :: "u32 \<Rightarrow> bytes" where "u32_le w = nat_le 4 (unat w)"
definition u64_le :: "u64 \<Rightarrow> bytes" where "u64_le w = nat_le 8 (unat w)"

text \<open>\<open>static_cast<uint32_t>(v.size())\<close>, written as four bytes.\<close>

definition size_le :: "nat \<Rightarrow> bytes" where "size_le n = u32_le (word_of_nat n)"

lemma length_nat_le [simp]: "length (nat_le n x) = n"
  by (induction n arbitrary: x) auto

lemma length_ints_le [simp, codec_simps]:
  "length (u16_le w) = 2" "length (u32_le x) = 4" "length (u64_le y) = 8" "length (size_le n) = 4"
  by (simp_all add: u16_le_def u32_le_def u64_le_def size_le_def)

lemma nat_le_0: "nat_le n 0 = replicate n 0"
  by (induction n) simp_all

lemma u64_le_small: "unat (x :: u64) < 256 \<Longrightarrow> u64_le x = word_of_nat (unat x) # replicate 7 0"
  using nat_le.simps(2) [of 7 "unat x"] by (simp add: u64_le_def nat_le_0)

lemma u32_le_small: "unat (x :: u32) < 256 \<Longrightarrow> u32_le x = word_of_nat (unat x) # replicate 3 0"
  using nat_le.simps(2) [of 3 "unat x"] by (simp add: u32_le_def nat_le_0)

lemma le_nat_nat_le: "le_nat (nat_le n x) = x mod 256 ^ n"
proof (induction n arbitrary: x)
  case 0
  then show ?case by simp
next
  case (Suc n)
  have "unat (word_of_nat (x mod 256) :: u8) = x mod 256"
    by (simp add: unat_of_nat)
  with Suc show ?case
    by (simp add: mod_mult2_eq algebra_simps)
qed

lemma le_nat_less: "le_nat bs < 256 ^ length bs"
proof (induction bs)
  case Nil
  then show ?case by simp
next
  case (Cons b bs)
  have "unat b < 256" using unat_lt [of b] by simp
  with Cons show ?case by simp
qed

lemma nat_le_le_nat: "n = length bs \<Longrightarrow> nat_le n (le_nat bs) = bs"
proof (induction bs arbitrary: n)
  case Nil
  then show ?case by simp
next
  case (Cons b bs)
  have "unat b < 256" using unat_lt [of b] by simp
  with Cons show ?case by simp
qed

lemma le_ints [simp]:
  "word_of_nat (le_nat (u16_le w)) = w"
  "word_of_nat (le_nat (u32_le x)) = x"
  "word_of_nat (le_nat (u64_le y)) = y"
  using unat_lt [of w] unat_lt [of x] unat_lt [of y]
  by (simp_all add: u16_le_def u32_le_def u64_le_def le_nat_nat_le)

lemma ints_le:
  "length bs = 2 \<Longrightarrow> u16_le (word_of_nat (le_nat bs)) = bs"
  "length bs = 4 \<Longrightarrow> u32_le (word_of_nat (le_nat bs)) = bs"
  "length bs = 8 \<Longrightarrow> u64_le (word_of_nat (le_nat bs)) = bs"
  using le_nat_less [of bs]
  by (simp_all add: u16_le_def u32_le_def u64_le_def nat_le_le_nat unat_of_nat)

lemma size_le_unat [simp]: "size_le (unat (w :: u32)) = u32_le w"
  by (simp add: size_le_def)

lemma unat_size [simp]: "n < 2 ^ 32 \<Longrightarrow> unat (word_of_nat n :: u32) = n"
  by (simp add: unat_of_nat)

lemma unat_u32_less: "unat (w :: u32) < 2 ^ 32"
  using unat_lt [of w] by simp

section \<open>Reading a payload at an offset\<close>

text \<open>
  Every deserializer keeps an \<open>offset\<close>, checks \<open>payload.size() < offset + n\<close>
  before reading \<open>n\<close> bytes there, and returns \<open>std::nullopt\<close> otherwise. A read
  returns the value and the advanced offset.
\<close>

definition read_bytes :: "nat \<Rightarrow> bytes \<Rightarrow> nat \<Rightarrow> (bytes \<times> nat) option" where
  "read_bytes n p off =
     (if length p < off + n then None else Some (take n (drop off p), off + n))"

definition read_u16 :: "bytes \<Rightarrow> nat \<Rightarrow> (u16 \<times> nat) option" where
  "read_u16 p off = map_option (\<lambda>(bs, o'). (word_of_nat (le_nat bs), o')) (read_bytes 2 p off)"

definition read_u32 :: "bytes \<Rightarrow> nat \<Rightarrow> (u32 \<times> nat) option" where
  "read_u32 p off = map_option (\<lambda>(bs, o'). (word_of_nat (le_nat bs), o')) (read_bytes 4 p off)"

definition read_u64 :: "bytes \<Rightarrow> nat \<Rightarrow> (u64 \<times> nat) option" where
  "read_u64 p off = map_option (\<lambda>(bs, o'). (word_of_nat (le_nat bs), o')) (read_bytes 8 p off)"

text \<open>
  \<open>at_cursor p off rest\<close>: from offset \<open>off\<close> on, the payload \<open>p\<close> is
  exactly \<open>rest\<close>. Reading an encoded value there succeeds and moves the cursor past it.
\<close>

definition at_cursor :: "bytes \<Rightarrow> nat \<Rightarrow> bytes \<Rightarrow> bool" where
  "at_cursor p off rest \<longleftrightarrow> off \<le> length p \<and> drop off p = rest"

lemma at_cursor_start: "at_cursor p 0 p"
  by (simp add: at_cursor_def)

lemma at_cursor_end: "at_cursor p off [] \<Longrightarrow> off = length p"
  by (simp add: at_cursor_def)

lemma at_cursor_step: "at_cursor p off (xs @ rest) \<Longrightarrow> n = length xs \<Longrightarrow> at_cursor p (off + n) rest"
proof -
  assume h: "at_cursor p off (xs @ rest)" and n: "n = length xs"
  from h have d: "drop off p = xs @ rest" and o: "off \<le> length p"
    by (simp_all add: at_cursor_def)
  have "length xs + length rest = length p - off"
    using arg_cong [OF d, of length] by simp
  moreover have "drop (n + off) p = drop n (drop off p)" by simp
  ultimately show ?thesis
    using d o n by (simp add: at_cursor_def add.commute)
qed

lemma read_bytes_at:
  assumes "at_cursor p off (xs @ rest)" and "n = length xs"
  shows "read_bytes n p off = Some (xs, off + n)"
proof -
  from assms have "drop off p = xs @ rest" and "off \<le> length p"
    by (simp_all add: at_cursor_def)
  moreover from this have "length p - off = length xs + length rest"
    by (metis length_append length_drop)
  ultimately show ?thesis
    using assms(2) by (simp add: read_bytes_def)
qed

lemma read_ints_at:
  "at_cursor p off (u16_le w @ rest) \<Longrightarrow> read_u16 p off = Some (w, off + 2)"
  "at_cursor p off (u32_le x @ rest) \<Longrightarrow> read_u32 p off = Some (x, off + 4)"
  "at_cursor p off (u64_le y @ rest) \<Longrightarrow> read_u64 p off = Some (y, off + 8)"
  by (simp_all add: read_u16_def read_u32_def read_u64_def read_bytes_at)

lemma read_size_at:
  "at_cursor p off (size_le n @ rest) \<Longrightarrow> read_u32 p off = Some (word_of_nat n, off + 4)"
  by (simp add: size_le_def read_ints_at)

lemmas at_cursor_ints =
  at_cursor_step [where n = 2 and xs = "u16_le w" for w, simplified]
  at_cursor_step [where n = 4 and xs = "u32_le w" for w, simplified]
  at_cursor_step [where n = 8 and xs = "u64_le w" for w, simplified]
  at_cursor_step [where n = 4 and xs = "size_le m" for m, simplified]

text \<open>
  Conversely a successful read consumed exactly the bytes that encode its result. Chaining these
  equations over a deserializer gives back the serialized form of what it returned.
\<close>

lemma read_bytes_Some:
  "read_bytes n p off = Some (xs, off') \<Longrightarrow>
     off' = off + n \<and> length xs = n \<and> off' \<le> length p \<and> take off' p = take off p @ xs"
  by (auto simp: read_bytes_def take_add split: if_splits)

lemma read_u16_Some:
  "read_u16 p off = Some (w, off') \<Longrightarrow>
     off' = off + 2 \<and> off' \<le> length p \<and> take off' p = take off p @ u16_le w"
  by (auto simp: read_u16_def ints_le dest!: read_bytes_Some)

lemma read_u32_Some:
  "read_u32 p off = Some (w, off') \<Longrightarrow>
     off' = off + 4 \<and> off' \<le> length p \<and> take off' p = take off p @ u32_le w"
  by (auto simp: read_u32_def ints_le dest!: read_bytes_Some)

lemma read_u64_Some:
  "read_u64 p off = Some (w, off') \<Longrightarrow>
     off' = off + 8 \<and> off' \<le> length p \<and> take off' p = take off p @ u64_le w"
  by (auto simp: read_u64_def ints_le dest!: read_bytes_Some)

lemmas read_Some = read_bytes_Some read_u16_Some read_u32_Some read_u64_Some

text \<open>
  A counted run of length-prefixed items, as a block carries its transactions and a
  \<open>PEERS\<close> payload its addresses: a 32-bit length, then that many bytes for the item's own
  decoder.
\<close>

definition frame :: "bytes \<Rightarrow> bytes" where
  "frame xs = size_le (length xs) @ xs"

fun read_framed :: "(bytes \<Rightarrow> 'a option) \<Rightarrow> nat \<Rightarrow> bytes \<Rightarrow> nat \<Rightarrow> ('a list \<times> nat) option" where
  "read_framed dec 0 p off = Some ([], off)"
| "read_framed dec (Suc n) p off = do {
     (len, off1) \<leftarrow> read_u32 p off;
     (raw, off2) \<leftarrow> read_bytes (unat len) p off1;
     x \<leftarrow> dec raw;
     (xs, off3) \<leftarrow> read_framed dec n p off2;
     Some (x # xs, off3)
   }"

lemma length_frame [simp, codec_simps]: "length (frame xs) = 4 + length xs"
  by (simp add: frame_def)

section \<open>Codecs\<close>

text \<open>
  The contract every wire format of the repository keeps: a well-formed value survives the trip,
  and a payload that decodes is exactly the encoding of what it decodes to, so no two payloads
  decode to the same value.
\<close>

locale codec =
  fixes ser :: "'a \<Rightarrow> bytes"
    and des :: "bytes \<Rightarrow> 'a option"
    and wf :: "'a \<Rightarrow> bool"
  assumes des_ser: "wf x \<Longrightarrow> des (ser x) = Some x"
    and des_sound: "des p = Some x \<Longrightarrow> wf x \<and> ser x = p"
begin

lemma ser_inj: "wf x \<Longrightarrow> wf y \<Longrightarrow> ser x = ser y \<Longrightarrow> x = y"
  by (metis des_ser option.inject)

lemma des_iff: "des p = Some x \<longleftrightarrow> wf x \<and> ser x = p"
  using des_ser des_sound by blast

lemma des_unique: "des p = Some x \<Longrightarrow> des q = Some x \<Longrightarrow> p = q"
  using des_sound by blast

lemma des_None: "des p = None \<longleftrightarrow> (\<nexists>x. wf x \<and> ser x = p)"
  by (metis des_iff not_None_eq)

lemma read_framed_at:
  assumes "\<And>x. x \<in> set xs \<Longrightarrow> wf x \<and> length (ser x) < 2 ^ 32"
    and "at_cursor p off (concat (map (frame \<circ> ser) xs) @ rest)"
  shows "\<exists>off'. read_framed des (length xs) p off = Some (xs, off') \<and> at_cursor p off' rest"
  using assms
proof (induction xs arbitrary: off)
  case Nil
  then show ?case by simp
next
  case (Cons x xs)
  let ?tail = "concat (map (frame \<circ> ser) xs) @ rest"
  from Cons.prems(1) have wfx: "wf x" and len: "length (ser x) < 2 ^ 32" by simp_all
  from Cons.prems(2) have c0: "at_cursor p off (size_le (length (ser x)) @ (ser x @ ?tail))"
    by (simp add: frame_def comp_def)
  then have c1: "at_cursor p (off + 4) (ser x @ ?tail)" by (rule at_cursor_ints)
  then have c2: "at_cursor p (off + 4 + length (ser x)) ?tail" by (rule at_cursor_step) simp
  from Cons.IH [OF Cons.prems(1) c2] obtain off' where
    "read_framed des (length xs) p (off + 4 + length (ser x)) = Some (xs, off')"
    and "at_cursor p off' rest" by auto
  with read_size_at [OF c0] read_bytes_at [OF c1 refl] des_ser [OF wfx] len
  show ?case by simp
qed

lemma read_framed_Some:
  assumes "read_framed des n p off = Some (xs, off')" and "off \<le> length p"
  shows "length xs = n \<and> off' \<le> length p \<and> (\<forall>x \<in> set xs. wf x \<and> length (ser x) < 2 ^ 32) \<and>
    take off' p = take off p @ concat (map (frame \<circ> ser) xs)"
  using assms
proof (induction n arbitrary: off xs)
  case 0
  then show ?case by simp
next
  case (Suc n)
  from Suc.prems(1) obtain len off1 raw off2 x ys where
    len: "read_u32 p off = Some (len, off1)" and
    raw: "read_bytes (unat len) p off1 = Some (raw, off2)" and
    x: "des raw = Some x" and
    ys: "read_framed des n p off2 = Some (ys, off')" and
    xs: "xs = x # ys"
    by (auto simp: bind_eq_Some_conv)
  note len = read_u32_Some [OF len] and raw = read_bytes_Some [OF raw] and x = des_sound [OF x]
  from raw have "off2 \<le> length p" by simp
  from Suc.IH [OF ys this] len raw x xs unat_u32_less [of len]
  show ?case by (auto simp: frame_def)
qed

end

end
