(* ===== verification/FC_Crypto.thy ===== *)
theory FC_Crypto
  imports FC_Prelude
begin

unbundle bit_operations_syntax

text \<open>
  src/src/crypto: hexadecimal text (Hash.cpp), double SHA-256 and address derivation (Hash.cpp,
  Address.cpp), and the ECDSA wrappers (Signature.cpp). OpenSSL is not part of the repository: its
  functions are the fields of the record \<open>openssl\<close>, an argument of every definition that
  reaches them.
\<close>

section \<open>OpenSSL as a parameter\<close>

text \<open>
  \<open>ossl_call name\<close> says whether an allocating or initialising call succeeds.
  \<open>ossl_sha256\<close> is the digest the EVP calls compute; \<open>ossl_oct2point\<close> says whether a
  byte string decodes to a point of secp256k1; \<open>ossl_check_key\<close> whether a private scalar is
  valid; \<open>ossl_sign\<close> and \<open>ossl_verify\<close> are EVP_DigestSign and EVP_DigestVerify.
\<close>

record openssl =
  ossl_call :: "string \<Rightarrow> bool"
  ossl_sha256 :: "bytes \<Rightarrow> HashBytes"
  ossl_oct2point :: "bytes \<Rightarrow> bool"
  ossl_check_key :: "bytes \<Rightarrow> bool"
  ossl_sign :: "bytes \<Rightarrow> bytes \<Rightarrow> bytes option"
  ossl_verify :: "bytes \<Rightarrow> bytes \<Rightarrow> bytes \<Rightarrow> bool"

text \<open>What the code relies on: a SHA-256 digest has 32 bytes.\<close>

definition sha_len :: "openssl \<Rightarrow> bool" where
  "sha_len C \<longleftrightarrow> (\<forall>data. length (ossl_sha256 C data) = 32)"

section \<open>Hashing\<close>

definition sha256 :: "openssl \<Rightarrow> bytes \<Rightarrow> HashBytes result" where
  "sha256 C data =
     require (ossl_call C ''EVP_MD_CTX_new'') ''EVP_MD_CTX_new failed'' (
     require (ossl_call C ''EVP_DigestInit_ex'' \<and> ossl_call C ''EVP_DigestUpdate'' \<and> ossl_call C ''EVP_DigestFinal_ex'')
       ''SHA-256 computation failed'' (
     Inr (ossl_sha256 C data)))"

definition double_sha_256_calls :: "openssl \<Rightarrow> bytes \<Rightarrow> HashBytes result" where
  "double_sha_256_calls C data = bindE (sha256 C data) (\<lambda>first. sha256 C first)"

text \<open>The digest itself; hashing code is modelled with it, for calls that do not fail.\<close>

definition double_sha_256 :: "openssl \<Rightarrow> bytes \<Rightarrow> HashBytes" where
  "double_sha_256 C data = ossl_sha256 C (ossl_sha256 C data)"

lemma double_sha_256_calls:
  "double_sha_256_calls C data = Inr (double_sha_256 C data) \<or>
   double_sha_256_calls C data \<in> {Inl (Runtime_error ''EVP_MD_CTX_new failed''), Inl (Runtime_error ''SHA-256 computation failed'')}"
  by (auto simp: double_sha_256_calls_def sha256_def double_sha_256_def require_def bindE_def)

lemma length_double_sha_256: "sha_len C \<Longrightarrow> length (double_sha_256 C data) = 32"
  by (simp add: sha_len_def double_sha_256_def)

section \<open>Hexadecimal text\<close>

definition hex_chars :: string where
  "hex_chars = ''0123456789abcdef''"

definition to_hex :: "bytes \<Rightarrow> str" where
  "to_hex data =
     concat (map (\<lambda>byte. [hex_chars ! unat (drop_bit 4 byte AND 0x0F),
                         hex_chars ! unat (byte AND 0x0F)]) data)"

definition hex_digit_value :: "char \<Rightarrow> u8 option" where
  "hex_digit_value c = (let n = (of_char c :: nat) in
     if 48 \<le> n \<and> n \<le> 57 then Some (word_of_nat (n - 48))
     else if 97 \<le> n \<and> n \<le> 102 then Some (word_of_nat (n - 97 + 10))
     else if 65 \<le> n \<and> n \<le> 70 then Some (word_of_nat (n - 65 + 10))
     else None)"

fun from_hex_loop :: "str \<Rightarrow> bytes option" where
  "from_hex_loop (h # l # cs) = do {
     high \<leftarrow> hex_digit_value h;
     low \<leftarrow> hex_digit_value l;
     rest \<leftarrow> from_hex_loop cs;
     Some ((push_bit 4 high OR low) # rest)
   }"
| "from_hex_loop cs = Some []"

definition from_hex :: "str \<Rightarrow> bytes option" where
  "from_hex hex = (if length hex mod 2 \<noteq> 0 then None else from_hex_loop hex)"

lemma hex_digit_of_nibble: "n < 16 \<Longrightarrow> hex_digit_value (hex_chars ! n) = Some (word_of_nat n)"
proof -
  assume "n < 16"
  then have "n \<in> set [0..<16]" by simp
  moreover have "\<forall>n \<in> set [0..<16]. hex_digit_value (hex_chars ! n) = Some (word_of_nat n)"
    by (simp add: upt_rec hex_digit_value_def hex_chars_def)
  ultimately show ?thesis by blast
qed

lemma and_15_take_bit: "(b :: u8) AND 15 = take_bit 4 b"
  by (simp add: take_bit_eq_mask mask_eq_exp_minus_1)

lemma nibble_less: "unat ((b :: u8) AND 15) < 16"
proof -
  have "unat (take_bit 4 b) = take_bit 4 (unat b)"
    by (simp add: unsigned_take_bit_eq)
  also have "\<dots> < 16" by (simp add: take_bit_eq_mod)
  finally show ?thesis by (simp add: and_15_take_bit)
qed

lemma nibbles_join: "push_bit 4 (drop_bit 4 b AND 15) OR (b AND 15) = (b :: u8)"
  unfolding and_15_take_bit
  by (rule bit_eqI) (auto simp: bit_simps)

lemma length_to_hex [simp, codec_simps]: "length (to_hex bs) = 2 * length bs"
  by (induction bs) (simp_all add: to_hex_def)

lemma to_hex_Cons: "to_hex (b # bs) =
  hex_chars ! unat (drop_bit 4 b AND 0x0F) # hex_chars ! unat (b AND 0x0F) # to_hex bs"
  by (simp add: to_hex_def)

lemma from_hex_loop_to_hex: "from_hex_loop (to_hex bs) = Some bs"
proof (induction bs)
  case Nil
  then show ?case by (simp add: to_hex_def)
next
  case (Cons b bs)
  with nibbles_join [of b] show ?case
    by (simp add: to_hex_Cons hex_digit_of_nibble nibble_less)
qed

section \<open>Addresses\<close>

definition derive_address :: "openssl \<Rightarrow> bytes \<Rightarrow> str" where
  "derive_address C public_key = to_hex (double_sha_256 C public_key)"

section \<open>Signatures\<close>

definition sign :: "openssl \<Rightarrow> bytes \<Rightarrow> bytes \<Rightarrow> bytes result" where
  "sign C message private_key =
     require (ossl_call C ''EC_KEY_new_by_curve_name'') ''EC_KEY_new_by_curve_name failed'' (
     require (ossl_call C ''BN_bin2bn'') ''BN_bin2bn failed'' (
     require (ossl_call C ''EC_KEY_set_private_key'') ''EC_KEY_set_private_key failed'' (
     require (ossl_call C ''EC_KEY_get0_group'') ''EC_KEY_get0_group failed'' (
     require (ossl_call C ''EC_POINT_new'') ''EC_POINT_new failed'' (
     require (ossl_call C ''EC_POINT_mul'') ''EC_POINT_mul failed'' (
     require (ossl_call C ''EC_KEY_set_public_key'') ''EC_KEY_set_public_key failed'' (
     require (ossl_check_key C private_key) ''invalid private key'' (
     require (ossl_call C ''EVP_PKEY_new'') ''EVP_PKEY_new failed'' (
     require (ossl_call C ''EVP_PKEY_set1_EC_KEY'') ''EVP_PKEY_set1_EC_KEY failed'' (
     require (ossl_call C ''EVP_MD_CTX_new'') ''EVP_MD_CTX_new failed'' (
     require (ossl_call C ''EVP_DigestSignInit'') ''EVP_DigestSignInit failed'' (
     require (ossl_call C ''EVP_DigestSign'') ''EVP_DigestSign (size query) failed'' (
     case ossl_sign C private_key message of
       None \<Rightarrow> Inl (Runtime_error ''EVP_DigestSign failed'')
     | Some signature \<Rightarrow> Inr signature)))))))))))))"

definition verify :: "openssl \<Rightarrow> bytes \<Rightarrow> bytes \<Rightarrow> bytes \<Rightarrow> bool result" where
  "verify C message signature public_key =
     require (ossl_call C ''EC_KEY_new_by_curve_name'') ''EC_KEY_new_by_curve_name failed'' (
     require (ossl_call C ''EC_KEY_get0_group'') ''EC_KEY_get0_group failed'' (
     require (ossl_call C ''EC_POINT_new'') ''EC_POINT_new failed'' (
     require (ossl_oct2point C public_key) ''EC_POINT_oct2point failed'' (
     require (ossl_call C ''EC_KEY_set_public_key'') ''EC_KEY_set_public_key failed'' (
     require (ossl_call C ''EVP_PKEY_new'') ''EVP_PKEY_new failed'' (
     require (ossl_call C ''EVP_PKEY_set1_EC_KEY'') ''EVP_PKEY_set1_EC_KEY failed'' (
     require (ossl_call C ''EVP_MD_CTX_new'') ''EVP_MD_CTX_new failed'' (
     require (ossl_call C ''EVP_DigestVerifyInit'') ''EVP_DigestVerifyInit failed'' (
     Inr (ossl_verify C public_key signature message))))))))))"

lemma verify_Inr: "verify C m s k = Inr r \<Longrightarrow> ossl_oct2point C k \<and> r = ossl_verify C k s m"
  by (simp add: verify_def require_eq_Inr)

text \<open>A public key that is no curve point makes \<open>verify\<close> throw, whatever the signature.\<close>

lemma verify_bad_point: "\<not> ossl_oct2point C k \<Longrightarrow> \<exists>msg. verify C m s k = Inl (Runtime_error msg)"
  by (auto simp: verify_def require_def)

section \<open>A concrete instance of the parameter\<close>

text \<open>
  The witnesses of the development evaluate the model at this instance: a 32-byte checksum for the
  digest, every non-empty key a curve point, and a signature valid when it repeats the key.
\<close>

definition sample_sha :: "bytes \<Rightarrow> HashBytes" where
  "sample_sha data = replicate 31 0 @ [sum_list data]"

definition sample_openssl :: openssl where
  "sample_openssl = \<lparr>ossl_call = (\<lambda>_. True), ossl_sha256 = sample_sha,
     ossl_oct2point = (\<lambda>key. key \<noteq> []), ossl_check_key = (\<lambda>key. key \<noteq> []),
     ossl_sign = (\<lambda>private_key message. Some private_key),
     ossl_verify = (\<lambda>public_key signature message. signature = public_key)\<rparr>"

lemma sample_sha_len [simp]: "sha_len sample_openssl"
  by (simp add: sha_len_def sample_openssl_def sample_sha_def)

lemma sample_double_sha [simp]: "double_sha_256 sample_openssl data = sample_sha data"
  by (simp add: double_sha_256_def sample_openssl_def sample_sha_def sum_list_replicate)

lemma sample_verify [simp]:
  "verify sample_openssl message signature public_key =
     (if public_key = [] then Inl (Runtime_error ''EC_POINT_oct2point failed'')
      else Inr (signature = public_key))"
  by (simp add: verify_def sample_openssl_def)

section \<open>Properties\<close>

text \<open>Decoding the hexadecimal text of any byte string gives the byte string back.\<close>

theorem from_hex_to_hex: "from_hex (to_hex bs) = Some bs"
  by (simp add: from_hex_def from_hex_loop_to_hex)

end
