(* ===== verification/FC_Transaction.thy ===== *)
theory FC_Transaction
  imports FC_Crypto
begin

text \<open>
  src/include/core/Transaction.hpp and src/src/core/Transaction.cpp: the transaction record, the
  bytes that are signed, the wire format, the transaction hash and the signature check.
\<close>

section \<open>The record\<close>

record Transaction =
  tx_sender :: str
  tx_recipient :: str
  tx_pubkey :: bytes
  tx_amount :: u64
  tx_signature :: bytes
  tx_fee :: u64
  tx_nonce :: u64

definition kCoinbaseSender :: str where
  "kCoinbaseSender = ''COINBASE''"

definition mk_Transaction :: "str \<Rightarrow> str \<Rightarrow> u64 \<Rightarrow> bytes \<Rightarrow> u64 \<Rightarrow> u64 \<Rightarrow> Transaction" where
  "mk_Transaction sender recipient amount sender_public_key fee nonce =
     \<lparr>tx_sender = sender, tx_recipient = recipient, tx_pubkey = sender_public_key,
      tx_amount = amount, tx_signature = [], tx_fee = fee, tx_nonce = nonce\<rparr>"

section \<open>Wire format\<close>

definition serialize_for_signing :: "Transaction \<Rightarrow> bytes" where
  "serialize_for_signing tx =
     u64_le (tx_amount tx) @
     size_le (length (tx_sender tx)) @ str_bytes (tx_sender tx) @
     size_le (length (tx_recipient tx)) @ str_bytes (tx_recipient tx) @
     size_le (length (tx_pubkey tx)) @ tx_pubkey tx @
     u64_le (tx_fee tx) @
     u64_le (tx_nonce tx)"

definition tx_serialize :: "Transaction \<Rightarrow> bytes" where
  "tx_serialize tx =
     serialize_for_signing tx @ size_le (length (tx_signature tx)) @ tx_signature tx"

definition tx_deserialize :: "bytes \<Rightarrow> Transaction option" where
  "tx_deserialize payload = do {
     (amount, off) \<leftarrow> read_u64 payload 0;
     (sender_len, off) \<leftarrow> read_u32 payload off;
     (sender, off) \<leftarrow> read_bytes (unat sender_len) payload off;
     (recipient_len, off) \<leftarrow> read_u32 payload off;
     (recipient, off) \<leftarrow> read_bytes (unat recipient_len) payload off;
     (sender_public_key_len, off) \<leftarrow> read_u32 payload off;
     (sender_public_key, off) \<leftarrow> read_bytes (unat sender_public_key_len) payload off;
     (fee, off) \<leftarrow> read_u64 payload off;
     (nonce, off) \<leftarrow> read_u64 payload off;
     (signature_len, off) \<leftarrow> read_u32 payload off;
     (signature, off) \<leftarrow> read_bytes (unat signature_len) payload off;
     if length payload \<noteq> off then None
     else Some ((mk_Transaction (bytes_str sender) (bytes_str recipient) amount
                   sender_public_key fee nonce)\<lparr>tx_signature := signature\<rparr>)
   }"

section \<open>Hash, equality and signature check\<close>

definition tx_hash :: "openssl \<Rightarrow> Transaction \<Rightarrow> HashBytes" where
  "tx_hash C tx = double_sha_256 C (serialize_for_signing tx)"

text \<open>\<open>operator==\<close> compares every field but the public key.\<close>

definition tx_eq :: "Transaction \<Rightarrow> Transaction \<Rightarrow> bool" where
  "tx_eq a b \<longleftrightarrow> tx_sender a = tx_sender b \<and> tx_recipient a = tx_recipient b \<and>
     tx_amount a = tx_amount b \<and> tx_signature a = tx_signature b \<and>
     tx_fee a = tx_fee b \<and> tx_nonce a = tx_nonce b"

definition has_valid_signature :: "openssl \<Rightarrow> Transaction \<Rightarrow> bool result" where
  "has_valid_signature C tx =
     (if tx_sender tx = kCoinbaseSender then Inr False
      else if derive_address C (tx_pubkey tx) \<noteq> tx_sender tx then Inr False
      else verify C (serialize_for_signing tx) (tx_signature tx) (tx_pubkey tx))"

section \<open>Facts\<close>

text \<open>The length fields are 32 bits wide: longer strings have no faithful encoding.\<close>

definition wf_tx :: "Transaction \<Rightarrow> bool" where
  "wf_tx tx \<longleftrightarrow> length (tx_sender tx) < 2 ^ 32 \<and> length (tx_recipient tx) < 2 ^ 32 \<and>
     length (tx_pubkey tx) < 2 ^ 32 \<and> length (tx_signature tx) < 2 ^ 32"

lemma length_tx_serialize [codec_simps]:
  "length (tx_serialize tx) = 40 + length (tx_sender tx) + length (tx_recipient tx) +
     length (tx_pubkey tx) + length (tx_signature tx)"
  by (simp add: tx_serialize_def serialize_for_signing_def)

lemma tx_deserialize_serialize:
  assumes "wf_tx tx"
  shows "tx_deserialize (tx_serialize tx) = Some tx"
proof -
  let ?p = "tx_serialize tx"
  have c: "at_cursor ?p 0 (u64_le (tx_amount tx) @
     size_le (length (tx_sender tx)) @ str_bytes (tx_sender tx) @
     size_le (length (tx_recipient tx)) @ str_bytes (tx_recipient tx) @
     size_le (length (tx_pubkey tx)) @ tx_pubkey tx @
     u64_le (tx_fee tx) @ u64_le (tx_nonce tx) @
     size_le (length (tx_signature tx)) @ tx_signature tx @ [])"
    using at_cursor_start [of ?p] by (simp add: tx_serialize_def serialize_for_signing_def)
  note c1 = at_cursor_ints(3) [OF c]
  note c2 = at_cursor_ints(4) [OF c1]
  note c3 = at_cursor_step [OF c2 refl]
  note c4 = at_cursor_ints(4) [OF c3]
  note c5 = at_cursor_step [OF c4 refl]
  note c6 = at_cursor_ints(4) [OF c5]
  note c7 = at_cursor_step [OF c6 refl]
  note c8 = at_cursor_ints(3) [OF c7]
  note c9 = at_cursor_ints(3) [OF c8]
  note c10 = at_cursor_ints(4) [OF c9]
  note c11 = at_cursor_step [OF c10 refl]
  note reads = read_ints_at(3) [OF c] read_size_at [OF c1] read_bytes_at [OF c2 refl]
    read_size_at [OF c3] read_bytes_at [OF c4 refl] read_size_at [OF c5]
    read_bytes_at [OF c6 refl] read_ints_at(3) [OF c7] read_ints_at(3) [OF c8]
    read_size_at [OF c9] read_bytes_at [OF c10 refl]
  show ?thesis
    using assms reads [simplified] at_cursor_end [OF c11]
    by (simp add: tx_deserialize_def wf_tx_def mk_Transaction_def add.assoc)
qed

lemma tx_deserialize_sound:
  assumes "tx_deserialize p = Some tx"
  shows "wf_tx tx \<and> tx_serialize tx = p"
  using assms unat_u32_less
  by (auto simp: tx_deserialize_def mk_Transaction_def wf_tx_def tx_serialize_def
      serialize_for_signing_def bind_eq_Some_conv split: if_splits dest!: read_Some)

interpretation tx_codec: codec tx_serialize tx_deserialize wf_tx
  by unfold_locales (simp_all add: tx_deserialize_serialize tx_deserialize_sound)

lemma tx_serialize_unsigned:
  "tx_serialize (tx\<lparr>tx_signature := []\<rparr>) = serialize_for_signing tx @ size_le 0"
  by (simp add: tx_serialize_def serialize_for_signing_def)

lemma derive_address_not_coinbase: "sha_len C \<Longrightarrow> derive_address C pk \<noteq> kCoinbaseSender"
proof
  assume "sha_len C" and "derive_address C pk = kCoinbaseSender"
  then have "length (kCoinbaseSender) = 64"
    by (metis derive_address_def length_to_hex length_double_sha_256 mult_2 numeral_Bit0)
  then show False by (simp add: kCoinbaseSender_def)
qed

lemma has_valid_signature_Inr_True:
  "has_valid_signature C tx = Inr True \<longleftrightarrow>
     tx_sender tx \<noteq> kCoinbaseSender \<and> derive_address C (tx_pubkey tx) = tx_sender tx \<and>
     verify C (serialize_for_signing tx) (tx_signature tx) (tx_pubkey tx) = Inr True"
  by (simp add: has_valid_signature_def)

text \<open>A signed payment between two addresses of the sample instance.\<close>

definition sample_tx :: "u8 \<Rightarrow> u8 \<Rightarrow> u64 \<Rightarrow> u64 \<Rightarrow> u64 \<Rightarrow> Transaction" where
  "sample_tx from to amount fee nonce =
     (mk_Transaction (derive_address sample_openssl [from]) (derive_address sample_openssl [to])
        amount [from] fee nonce)\<lparr>tx_signature := [from]\<rparr>"

lemma sample_tx_signed [simp]:
  "has_valid_signature sample_openssl (sample_tx from to amount fee nonce) = Inr True"
  by (simp add: has_valid_signature_Inr_True sample_tx_def mk_Transaction_def
      derive_address_not_coinbase)

lemma sample_address_inj [simp]:
  "derive_address sample_openssl [a] = derive_address sample_openssl [b] \<longleftrightarrow> a = b"
proof -
  have "to_hex x = to_hex y \<Longrightarrow> x = y" for x y
    by (metis from_hex_loop_to_hex option.inject)
  then show ?thesis by (auto simp: derive_address_def sample_sha_def)
qed

lemma sample_tx_sel [simp]:
  "tx_sender (sample_tx f t amt fee n) = derive_address sample_openssl [f]"
  "tx_recipient (sample_tx f t amt fee n) = derive_address sample_openssl [t]"
  "tx_amount (sample_tx f t amt fee n) = amt"
  "tx_fee (sample_tx f t amt fee n) = fee"
  "tx_nonce (sample_tx f t amt fee n) = n"
  by (simp_all add: sample_tx_def mk_Transaction_def)

lemma sample_address_not_coinbase [simp]: "derive_address sample_openssl pk \<noteq> kCoinbaseSender"
  by (simp add: derive_address_not_coinbase)

section \<open>Properties\<close>

text \<open>A payload decodes to a transaction exactly when it is that transaction's own serialized
  form and the transaction's variable-length fields fit their 32-bit length prefixes: the round
  trip holds, and no second payload decodes to the same transaction.\<close>

theorem tx_wire_exact: "tx_deserialize p = Some tx \<longleftrightarrow> wf_tx tx \<and> tx_serialize tx = p"
  by (rule tx_codec.des_iff)

text \<open>The signed bytes determine every field but the signature, so a signature cannot be moved
  to a transaction with another sender, recipient, amount, fee or nonce.\<close>

theorem signing_bytes_injective:
  assumes "wf_tx a" and "wf_tx b" and "serialize_for_signing a = serialize_for_signing b"
  shows "a\<lparr>tx_signature := []\<rparr> = b\<lparr>tx_signature := []\<rparr>"
proof (rule tx_codec.ser_inj)
  show "wf_tx (a\<lparr>tx_signature := []\<rparr>)" and "wf_tx (b\<lparr>tx_signature := []\<rparr>)"
    using assms(1,2) by (simp_all add: wf_tx_def)
  show "tx_serialize (a\<lparr>tx_signature := []\<rparr>) = tx_serialize (b\<lparr>tx_signature := []\<rparr>)"
    using assms(3) by (simp add: tx_serialize_unsigned)
qed

theorem signing_bytes_injective_witness:
  "let a = mk_Transaction ''ab'' ''c'' 5 [1] 2 0; b = a\<lparr>tx_signature := [9]\<rparr> in
     wf_tx a \<and> wf_tx b \<and> serialize_for_signing a = serialize_for_signing b \<and>
     a\<lparr>tx_signature := []\<rparr> = b\<lparr>tx_signature := []\<rparr>"
proof -
  let ?a = "mk_Transaction ''ab'' ''c'' 5 [1] 2 0"
  let ?b = "?a\<lparr>tx_signature := [9]\<rparr>"
  have w: "wf_tx ?a" "wf_tx ?b"
    by (simp_all add: wf_tx_def mk_Transaction_def)
  have e: "serialize_for_signing ?a = serialize_for_signing ?b"
    by (simp add: serialize_for_signing_def)
  show ?thesis
    using w e signing_bytes_injective [OF w e] by (simp add: Let_def)
qed

text \<open>The signature check answers yes only for a transaction that is not a coinbase, whose
  sender is the address of the attached public key, whose key is a curve point and whose signature
  verifies over the signed bytes.\<close>

theorem valid_signature_authentic:
  assumes "has_valid_signature C tx = Inr True"
  shows "tx_sender tx \<noteq> kCoinbaseSender \<and> derive_address C (tx_pubkey tx) = tx_sender tx \<and>
    ossl_oct2point C (tx_pubkey tx) \<and>
    ossl_verify C (tx_pubkey tx) (tx_signature tx) (serialize_for_signing tx)"
  using assms by (auto simp: has_valid_signature_Inr_True dest: verify_Inr)

theorem valid_signature_authentic_witness:
  "has_valid_signature sample_openssl (sample_tx 1 2 30 1 0) = Inr True \<and>
   derive_address sample_openssl (tx_pubkey (sample_tx 1 2 30 1 0)) = tx_sender (sample_tx 1 2 30 1 0)"
  using valid_signature_authentic [OF sample_tx_signed, of 1 2 30 1 0] by simp

text \<open>A transaction that names the address of a public key which is no curve point makes the
  signature check throw instead of answering no.\<close>

theorem malformed_key_throws:
  assumes "tx_sender tx \<noteq> kCoinbaseSender" and "derive_address C (tx_pubkey tx) = tx_sender tx"
    and "\<not> ossl_oct2point C (tx_pubkey tx)"
  shows "\<exists>msg. has_valid_signature C tx = Inl (Runtime_error msg)"
  using assms verify_bad_point by (simp add: has_valid_signature_def)

theorem malformed_key_throws_witness:
  "\<exists>msg. has_valid_signature sample_openssl
     (mk_Transaction (derive_address sample_openssl []) ''x'' 1 [] 0 0) = Inl (Runtime_error msg)"
proof (rule malformed_key_throws)
  let ?tx = "mk_Transaction (derive_address sample_openssl []) ''x'' 1 [] 0 0"
  show "tx_sender ?tx \<noteq> kCoinbaseSender"
    by (simp add: mk_Transaction_def derive_address_not_coinbase)
  show "derive_address sample_openssl (tx_pubkey ?tx) = tx_sender ?tx"
    and "\<not> ossl_oct2point sample_openssl (tx_pubkey ?tx)"
    by (simp_all add: mk_Transaction_def sample_openssl_def)
qed

end
