(* ===== verification/FC_Block.thy ===== *)
theory FC_Block
  imports FC_Transaction
begin

text \<open>
  src/include/core/Block.hpp and src/src/core/Block.cpp: the block record, its constructor, hash,
  wire format and work.
\<close>

section \<open>The record\<close>

record Block =
  b_version :: u32
  b_prev_hash :: HashBytes
  b_merkle_root :: HashBytes
  b_timestamp :: u64
  b_difficulty :: u32
  b_nonce :: u32
  b_cumulative_work :: u64
  b_transactions :: "Transaction list"
  b_hash :: HashBytes

section \<open>Wire format and hash\<close>

definition block_serialize :: "Block \<Rightarrow> bytes" where
  "block_serialize b =
     u32_le (b_version b) @ b_prev_hash b @ b_merkle_root b @ u64_le (b_timestamp b) @
     u32_le (b_difficulty b) @ u32_le (b_nonce b) @
     size_le (length (b_transactions b)) @
     concat (map (frame \<circ> tx_serialize) (b_transactions b))"

definition block_compute_hash :: "openssl \<Rightarrow> Block \<Rightarrow> HashBytes" where
  "block_compute_hash C b = double_sha_256 C (block_serialize b)"

definition mk_Block :: "openssl \<Rightarrow> u32 \<Rightarrow> HashBytes \<Rightarrow> u64 \<Rightarrow> Transaction list \<Rightarrow> Block" where
  "mk_Block C version prev_hash timestamp transactions =
     (let b = \<lparr>b_version = version, b_prev_hash = prev_hash,
               b_merkle_root = double_sha_256 C (concat (map tx_serialize transactions)),
               b_timestamp = timestamp, b_difficulty = 0, b_nonce = 0, b_cumulative_work = 0,
               b_transactions = transactions, b_hash = []\<rparr>
      in b\<lparr>b_hash := block_compute_hash C b\<rparr>)"

definition HASH_BYTES_SIZE :: nat where
  "HASH_BYTES_SIZE = 32"

definition block_deserialize :: "openssl \<Rightarrow> bytes \<Rightarrow> Block option" where
  "block_deserialize C payload = do {
     (version, off) \<leftarrow> read_u32 payload 0;
     (prev_hash, off) \<leftarrow> read_bytes HASH_BYTES_SIZE payload off;
     (merkle_root, off) \<leftarrow> read_bytes HASH_BYTES_SIZE payload off;
     (timestamp, off) \<leftarrow> read_u64 payload off;
     (difficulty, off) \<leftarrow> read_u32 payload off;
     (nonce, off) \<leftarrow> read_u32 payload off;
     (tx_count, off) \<leftarrow> read_u32 payload off;
     (transactions, off) \<leftarrow> read_framed tx_deserialize (unat tx_count) payload off;
     if off \<noteq> length payload then None
     else let block = (mk_Block C version prev_hash timestamp transactions)
                        \<lparr>b_difficulty := difficulty, b_nonce := nonce, b_merkle_root := merkle_root\<rparr>
          in Some (block\<lparr>b_hash := block_compute_hash C block\<rparr>)
   }"

section \<open>Work\<close>

definition block_work :: "Block \<Rightarrow> u64" where
  "block_work b = (if 64 \<le> b_difficulty b then - 1 else push_bit (unat (b_difficulty b)) 1)"

section \<open>Facts\<close>

text \<open>
  What survives the wire: hashes of 32 bytes, counts that fit 32 bits, the hash the receiver will
  recompute, and no cumulative work (it is not transmitted).
\<close>

definition wf_block :: "openssl \<Rightarrow> Block \<Rightarrow> bool" where
  "wf_block C b \<longleftrightarrow> length (b_prev_hash b) = 32 \<and> length (b_merkle_root b) = 32 \<and>
     length (b_transactions b) < 2 ^ 32 \<and>
     (\<forall>tx \<in> set (b_transactions b). wf_tx tx \<and> length (tx_serialize tx) < 2 ^ 32) \<and>
     b_cumulative_work b = 0 \<and> b_hash b = block_compute_hash C b"

lemma block_serialize_frame [simp]:
  "block_serialize (b\<lparr>b_hash := h\<rparr>) = block_serialize b"
  "block_serialize (b\<lparr>b_cumulative_work := w\<rparr>) = block_serialize b"
  by (simp_all add: block_serialize_def)

lemma block_compute_hash_frame [simp]:
  "block_compute_hash C (b\<lparr>b_hash := h\<rparr>) = block_compute_hash C b"
  "block_compute_hash C (b\<lparr>b_cumulative_work := w\<rparr>) = block_compute_hash C b"
  by (simp_all add: block_compute_hash_def)

lemma mk_Block_sel [simp]:
  "b_version (mk_Block C v p t txs) = v"
  "b_prev_hash (mk_Block C v p t txs) = p"
  "b_timestamp (mk_Block C v p t txs) = t"
  "b_difficulty (mk_Block C v p t txs) = 0"
  "b_nonce (mk_Block C v p t txs) = 0"
  "b_cumulative_work (mk_Block C v p t txs) = 0"
  "b_transactions (mk_Block C v p t txs) = txs"
  by (simp_all add: mk_Block_def Let_def)

lemma mk_Block_hash: "b_hash (mk_Block C v p t txs) = block_compute_hash C (mk_Block C v p t txs)"
  by (simp add: mk_Block_def Let_def block_compute_hash_def block_serialize_def)

lemma block_deserialize_serialize:
  assumes "wf_block C b"
  shows "block_deserialize C (block_serialize b) = Some b"
proof -
  let ?p = "block_serialize b" and ?txs = "b_transactions b"
  have c: "at_cursor ?p 0 (u32_le (b_version b) @ b_prev_hash b @ b_merkle_root b @
     u64_le (b_timestamp b) @ u32_le (b_difficulty b) @ u32_le (b_nonce b) @
     size_le (length ?txs) @ concat (map (frame \<circ> tx_serialize) ?txs) @ [])"
    using at_cursor_start [of ?p] by (simp add: block_serialize_def)
  from assms have l: "length (b_prev_hash b) = HASH_BYTES_SIZE"
      "length (b_merkle_root b) = HASH_BYTES_SIZE"
    by (simp_all add: wf_block_def HASH_BYTES_SIZE_def)
  note c1 = at_cursor_ints(2) [OF c]
  note c2 = at_cursor_step [OF c1 l(1) [symmetric]]
  note c3 = at_cursor_step [OF c2 l(2) [symmetric]]
  note c4 = at_cursor_ints(3) [OF c3]
  note c5 = at_cursor_ints(2) [OF c4]
  note c6 = at_cursor_ints(2) [OF c5]
  note c7 = at_cursor_ints(4) [OF c6]
  have "\<And>tx. tx \<in> set ?txs \<Longrightarrow> wf_tx tx \<and> length (tx_serialize tx) < 2 ^ 32"
    using assms by (simp add: wf_block_def)
  from tx_codec.read_framed_at [OF this c7] obtain off where
    txs: "read_framed tx_deserialize (length ?txs) ?p
      (0 + 4 + HASH_BYTES_SIZE + HASH_BYTES_SIZE + 8 + 4 + 4 + 4) = Some (?txs, off)"
    and off: "at_cursor ?p off []" by auto
  note reads = read_ints_at(2) [OF c] read_bytes_at [OF c1 l(1) [symmetric]]
    read_bytes_at [OF c2 l(2) [symmetric]] read_ints_at(3) [OF c3] read_ints_at(2) [OF c4]
    read_ints_at(2) [OF c5] read_size_at [OF c6]
  show ?thesis
    using assms reads txs at_cursor_end [OF off]
    by (simp add: block_deserialize_def wf_block_def Let_def mk_Block_def block_compute_hash_def
        block_serialize_def)
qed

lemma block_deserialize_sound:
  assumes "block_deserialize C p = Some b"
  shows "wf_block C b \<and> block_serialize b = p"
proof -
  from assms obtain v o1 ph o2 mr o3 ts o4 d o5 n o6 k o7 txs o8 where
    r: "read_u32 p 0 = Some (v, o1)" "read_bytes HASH_BYTES_SIZE p o1 = Some (ph, o2)"
      "read_bytes HASH_BYTES_SIZE p o2 = Some (mr, o3)" "read_u64 p o3 = Some (ts, o4)"
      "read_u32 p o4 = Some (d, o5)" "read_u32 p o5 = Some (n, o6)" "read_u32 p o6 = Some (k, o7)"
    and txs: "read_framed tx_deserialize (unat k) p o7 = Some (txs, o8)" and e: "o8 = length p"
    and b: "b = (let c = (mk_Block C v ph ts txs)\<lparr>b_difficulty := d, b_nonce := n, b_merkle_root := mr\<rparr>
                 in c\<lparr>b_hash := block_compute_hash C c\<rparr>)"
    by (auto simp: block_deserialize_def bind_eq_Some_conv Let_def split: if_splits)
  from r have "take o7 p = u32_le v @ ph @ mr @ u64_le ts @ u32_le d @ u32_le n @ u32_le k"
    and len: "length ph = 32" "length mr = 32" and "o7 \<le> length p"
    by (auto dest!: read_Some simp: HASH_BYTES_SIZE_def)
  with tx_codec.read_framed_Some [OF txs] e unat_u32_less [of k]
  show ?thesis
    by (auto simp: b Let_def wf_block_def block_serialize_def simp flip: size_le_unat)
qed

interpretation block_codec: codec block_serialize "block_deserialize C" "wf_block C" for C
  by unfold_locales (simp_all add: block_deserialize_serialize block_deserialize_sound)

lemma unat_block_work: "unat (block_work b) = min (2 ^ unat (b_difficulty b)) (2 ^ 64 - 1)"
proof (cases "64 \<le> b_difficulty b")
  case True
  then have d: "64 \<le> unat (b_difficulty b)" by (simp add: word_le_nat_alt)
  have "(2 :: nat) ^ 64 \<le> 2 ^ unat (b_difficulty b)"
    using d by (rule power_increasing) simp
  then show ?thesis using True by (simp add: block_work_def unsigned_minus_1_eq_mask mask_eq_exp_minus_1)
next
  case False
  then have d: "unat (b_difficulty b) < 64" by (simp add: word_le_nat_alt)
  then have lt: "(2 :: nat) ^ unat (b_difficulty b) < 2 ^ 64"
    by (rule power_strict_increasing) simp
  have "(push_bit (unat (b_difficulty b)) 1 :: u64) = word_of_nat (2 ^ unat (b_difficulty b))"
    by simp
  then have "unat (push_bit (unat (b_difficulty b)) 1 :: u64) = 2 ^ unat (b_difficulty b) mod 2 ^ 64"
    by (simp only: unat_of_nat) simp
  with lt False show ?thesis by (simp add: block_work_def)
qed

section \<open>Properties\<close>

text \<open>C32: a payload decodes to a block exactly when it is the serialized form of a well-formed block:
  the block's hash is the one recomputed from its own bytes, and no second payload decodes to the
  same block.\<close>

theorem block_wire_exact:
  "block_deserialize C p = Some b \<longleftrightarrow> wf_block C b \<and> block_serialize b = p"
  by (rule block_codec.des_iff)

text \<open>The work of a block is two to its difficulty, capped at the largest 64-bit value.\<close>

theorem block_work_value: "unat (block_work b) = min (2 ^ unat (b_difficulty b)) (2 ^ 64 - 1)"
  by (rule unat_block_work)

end
