(* ===== verification/FC_OrphanPool.thy ===== *)
theory FC_OrphanPool
  imports FC_Block "HOL-Library.Multiset"
begin

text \<open>
  src/include/core/OrphanPool.hpp and src/src/core/OrphanPool.cpp: blocks whose branch is not the
  main chain, keyed by hash, with first-in first-out eviction. The \<open>std::unordered_map\<close> is an
  association list; the order in which the code iterates over it is a parameter \<open>iter\<close>, a
  permutation. An entry's \<open>pos\<close> is the position of its hash in \<open>order_\<close>, which the invariant shows
  to be unique.
\<close>

section \<open>State and operations\<close>

record OrphanPool =
  op_order :: "HashBytes list"
  op_pool :: "(HashBytes \<times> Block) list"
  op_max_size :: nat

type_synonym iteration = "(HashBytes \<times> Block) list \<Rightarrow> (HashBytes \<times> Block) list"

definition kDefaultMaxOrphans :: nat where "kDefaultMaxOrphans = 1000"

definition mk_OrphanPool :: "nat \<Rightarrow> OrphanPool" where
  "mk_OrphanPool max_size = \<lparr>op_order = [], op_pool = [], op_max_size = max_size\<rparr>"

definition has_orphan :: "OrphanPool \<Rightarrow> HashBytes \<Rightarrow> bool" where
  "has_orphan p hash \<longleftrightarrow> map_of (op_pool p) hash \<noteq> None"

definition find_orphan :: "OrphanPool \<Rightarrow> HashBytes \<Rightarrow> Block option" where
  "find_orphan p hash = map_of (op_pool p) hash"

definition orphan_count :: "OrphanPool \<Rightarrow> nat" where
  "orphan_count p = length (op_pool p)"

text \<open>A pool without room evicts the oldest block; with \<open>max_size_ = 0\<close> that is \<open>front()\<close> of an empty list.\<close>

definition add_orphan :: "OrphanPool \<Rightarrow> Block \<Rightarrow> OrphanPool result" where
  "add_orphan p block =
     (let hash = b_hash block;
          push = (\<lambda>p. p\<lparr>op_order := op_order p @ [hash], op_pool := AList.update hash block (op_pool p)\<rparr>)
      in if has_orphan p hash then Inr (p\<lparr>op_pool := AList.update hash block (op_pool p)\<rparr>)
         else if orphan_count p \<ge> op_max_size p then
           case op_order p of
             [] \<Rightarrow> Inl Undefined_behaviour
           | oldest # order \<Rightarrow>
               Inr (push (p\<lparr>op_order := order, op_pool := AList.delete oldest (op_pool p)\<rparr>))
         else Inr (push p))"

definition remove_orphan :: "OrphanPool \<Rightarrow> HashBytes \<Rightarrow> OrphanPool" where
  "remove_orphan p hash =
     (if map_of (op_pool p) hash = None then p
      else p\<lparr>op_order := remove1 hash (op_order p), op_pool := AList.delete hash (op_pool p)\<rparr>)"

definition find_orphan_by_prev_hash :: "iteration \<Rightarrow> OrphanPool \<Rightarrow> HashBytes \<Rightarrow> Block option" where
  "find_orphan_by_prev_hash iter p prev_hash =
     map_option snd (List.find (\<lambda>entry. b_prev_hash (snd entry) = prev_hash) (iter (op_pool p)))"

definition children_of :: "iteration \<Rightarrow> OrphanPool \<Rightarrow> HashBytes \<Rightarrow> Block list" where
  "children_of iter p hash =
     map snd (filter (\<lambda>entry. b_prev_hash (snd entry) = hash) (iter (op_pool p)))"

section \<open>The invariant\<close>

definition orphan_inv :: "OrphanPool \<Rightarrow> bool" where
  "orphan_inv p \<longleftrightarrow> distinct (map fst (op_pool p)) \<and> distinct (op_order p) \<and>
     set (op_order p) = fst ` set (op_pool p) \<and> length (op_pool p) \<le> op_max_size p \<and>
     (\<forall>(h, b)\<in>set (op_pool p). b_hash b = h)"

definition iteration_ok :: "iteration \<Rightarrow> bool" where
  "iteration_ok iter \<longleftrightarrow> (\<forall>xs. mset (iter xs) = mset xs)"

lemma iteration_set [simp]: "iteration_ok iter \<Longrightarrow> set (iter xs) = set xs"
  unfolding iteration_ok_def by (metis set_mset_mset)

lemma orphan_inv_new [simp]: "orphan_inv (mk_OrphanPool n)"
  by (simp add: orphan_inv_def mk_OrphanPool_def)

lemma orphan_lengths: "orphan_inv p \<Longrightarrow> length (op_order p) = length (op_pool p)"
  unfolding orphan_inv_def by (metis distinct_card length_map set_map)

lemma orphan_pool_in: "orphan_inv p \<Longrightarrow> map_of (op_pool p) h = Some b \<longleftrightarrow> (h, b) \<in> set (op_pool p)"
  by (simp add: orphan_inv_def)

lemma find_orphan_hash: "orphan_inv p \<Longrightarrow> find_orphan p h = Some b \<Longrightarrow> b_hash b = h"
  by (auto simp: orphan_inv_def find_orphan_def)

lemma has_orphan_iff: "orphan_inv p \<Longrightarrow> has_orphan p h \<longleftrightarrow> h \<in> set (op_order p)"
  by (auto simp: has_orphan_def orphan_inv_def map_of_eq_None_iff)

lemma set_update: "set (AList.update k v m) \<subseteq> insert (k, v) (set m)"
  by (induction m) auto

lemma set_delete: "set (AList.delete k m) = {p \<in> set m. fst p \<noteq> k}"
  by (auto simp: AList.delete_eq)

lemma length_delete_mem: "distinct (map fst m) \<Longrightarrow> k \<in> fst ` set m \<Longrightarrow> Suc (length (AList.delete k m)) = length m"
proof (induction m)
  case (Cons x m)
  show ?case
  proof (cases "fst x = k")
    case True
    with Cons.prems have "k \<notin> fst ` set m" by auto
    then have "AList.delete k m = m" by (simp add: delete_id)
    with True show ?thesis by (cases x) (simp add: AList.delete_eq)
  next
    case False
    with Cons show ?thesis by (auto simp: AList.delete_eq)
  qed
qed simp

lemma umap_delete_order:
  assumes "orphan_inv p" and "h \<in> set (op_order p)"
  shows "orphan_inv (p\<lparr>op_order := remove1 h (op_order p), op_pool := AList.delete h (op_pool p)\<rparr>)"
    and "Suc (length (AList.delete h (op_pool p))) = length (op_pool p)"
proof -
  show l: "Suc (length (AList.delete h (op_pool p))) = length (op_pool p)"
    using assms by (intro length_delete_mem) (auto simp: orphan_inv_def)
  show "orphan_inv (p\<lparr>op_order := remove1 h (op_order p), op_pool := AList.delete h (op_pool p)\<rparr>)"
    using assms l by (auto simp: orphan_inv_def set_delete distinct_delete set_remove1_eq)
qed

lemma orphan_inv_replace:
  assumes "orphan_inv p" and "b_hash b \<in> set (op_order p)"
  shows "orphan_inv (p\<lparr>op_pool := AList.update (b_hash b) b (op_pool p)\<rparr>)"
proof -
  have k: "map fst (AList.update (b_hash b) b (op_pool p)) = map fst (op_pool p)"
    using assms by (simp add: update_keys orphan_inv_def)
  then have "fst ` set (AList.update (b_hash b) b (op_pool p)) = fst ` set (op_pool p)"
    and "length (AList.update (b_hash b) b (op_pool p)) = length (op_pool p)"
    by (metis set_map, metis length_map)
  with k assms set_update [of "b_hash b" b "op_pool p"] show ?thesis
    by (auto simp: orphan_inv_def)
qed

lemma orphan_inv_push:
  assumes "orphan_inv p" and "b_hash b \<notin> set (op_order p)" and "length (op_pool p) < op_max_size p"
  shows "orphan_inv (p\<lparr>op_order := op_order p @ [b_hash b], op_pool := AList.update (b_hash b) b (op_pool p)\<rparr>)"
proof -
  have "AList.update (b_hash b) b (op_pool p) = op_pool p @ [(b_hash b, b)]"
    using assms(1,2) by (intro umap_update_new) (simp add: orphan_inv_def)
  with assms show ?thesis by (auto simp: orphan_inv_def)
qed

lemma add_orphan_cases:
  assumes "add_orphan p b = Inr p'"
  obtains (known) "has_orphan p (b_hash b)"
      "p' = p\<lparr>op_pool := AList.update (b_hash b) b (op_pool p)\<rparr>"
    | (evict) oldest order where "\<not> has_orphan p (b_hash b)" "op_order p = oldest # order"
      "p' = p\<lparr>op_order := order @ [b_hash b],
         op_pool := AList.update (b_hash b) b (AList.delete oldest (op_pool p))\<rparr>"
    | (room) "\<not> has_orphan p (b_hash b)" "orphan_count p < op_max_size p"
      "p' = p\<lparr>op_order := op_order p @ [b_hash b], op_pool := AList.update (b_hash b) b (op_pool p)\<rparr>"
proof (cases "has_orphan p (b_hash b)")
  case True
  then show ?thesis using assms by (intro known) (simp_all add: add_orphan_def Let_def)
next
  case new: False
  show ?thesis
  proof (cases "orphan_count p < op_max_size p")
    case True
    then show ?thesis using new assms by (intro room) (simp_all add: add_orphan_def Let_def)
  next
    case False
    then show ?thesis using new assms
      by (cases "op_order p") (auto simp: add_orphan_def Let_def intro: evict)
  qed
qed

lemma add_orphan_inv:
  assumes "orphan_inv p" and "add_orphan p b = Inr p'"
  shows "orphan_inv p'"
  using assms(2)
proof (cases rule: add_orphan_cases)
  case known
  then show ?thesis using assms(1) orphan_inv_replace has_orphan_iff by blast
next
  case (evict oldest order)
  let ?q = "p\<lparr>op_order := order, op_pool := AList.delete oldest (op_pool p)\<rparr>"
  have "orphan_inv ?q" and "length (op_pool ?q) < op_max_size p"
    using umap_delete_order [OF assms(1), of oldest] evict(2) assms(1)
    by (auto simp: orphan_inv_def)
  then show ?thesis using orphan_inv_push [of ?q b] evict has_orphan_iff [OF assms(1)] by simp
next
  case room
  then show ?thesis
    using assms(1) orphan_inv_push [of p b] has_orphan_iff [OF assms(1)] by (simp add: orphan_count_def)
qed

lemma add_orphan_max_size [simp]: "add_orphan p b = Inr p' \<Longrightarrow> op_max_size p' = op_max_size p"
  by (erule add_orphan_cases) simp_all

lemma add_orphan_pool:
  assumes "add_orphan p b = Inr p'"
  shows "set (op_pool p') \<subseteq> insert (b_hash b, b) (set (op_pool p))"
  using assms
proof (cases rule: add_orphan_cases)
  case (evict oldest order)
  have "set (op_pool p') \<subseteq> insert (b_hash b, b) (set (AList.delete oldest (op_pool p)))"
    unfolding evict(3) using set_update [of "b_hash b" b] by simp
  then show ?thesis by (auto simp: set_delete)
qed (use set_update [of "b_hash b" b "op_pool p"] in simp_all)

lemma add_orphan_ok:
  assumes "orphan_inv p" and "0 < op_max_size p"
  shows "\<exists>p'. add_orphan p b = Inr p'"
proof (cases "has_orphan p (b_hash b) \<or> orphan_count p < op_max_size p")
  case True
  then show ?thesis unfolding add_orphan_def Let_def by (metis not_le)
next
  case False
  with orphan_lengths [OF assms(1)] assms(2) obtain oldest order where "op_order p = oldest # order"
    unfolding orphan_count_def by (cases "op_order p") auto
  with False show ?thesis unfolding add_orphan_def Let_def by simp
qed

lemma remove_orphan_inv: "orphan_inv p \<Longrightarrow> orphan_inv (remove_orphan p h)"
  using umap_delete_order(1) [of p h] has_orphan_iff [of p h]
  by (simp add: remove_orphan_def has_orphan_def)

lemma remove_orphan_pool: "set (op_pool (remove_orphan p h)) \<subseteq> set (op_pool p)"
  by (auto simp: remove_orphan_def set_delete)

lemma remove_orphan_max_size [simp]: "op_max_size (remove_orphan p h) = op_max_size p"
  by (simp add: remove_orphan_def)

lemma children_of_set:
  assumes "iteration_ok iter" and "orphan_inv p"
  shows "set (children_of iter p h) = {b. find_orphan p (b_hash b) = Some b \<and> b_prev_hash b = h}"
proof (rule set_eqI)
  fix b
  have "b \<in> set (children_of iter p h) \<longleftrightarrow> (\<exists>k. (k, b) \<in> set (op_pool p)) \<and> b_prev_hash b = h"
    using assms(1) by (auto simp: children_of_def image_iff)
  also have "(\<exists>k. (k, b) \<in> set (op_pool p)) \<longleftrightarrow> (b_hash b, b) \<in> set (op_pool p)"
    using assms(2) by (auto simp: orphan_inv_def)
  also have "\<dots> \<longleftrightarrow> find_orphan p (b_hash b) = Some b"
    unfolding find_orphan_def using orphan_pool_in [OF assms(2)] by simp
  finally show "b \<in> set (children_of iter p h) \<longleftrightarrow>
      b \<in> {b. find_orphan p (b_hash b) = Some b \<and> b_prev_hash b = h}" by simp
qed

lemma children_of_length: "iteration_ok iter \<Longrightarrow> length (children_of iter p h) \<le> orphan_count p"
  unfolding children_of_def orphan_count_def iteration_ok_def
  by (metis length_filter_le length_map size_mset)

section \<open>Properties\<close>

text \<open>The pool that retains the blocks of a list, oldest first.\<close>

definition pool_of :: "nat \<Rightarrow> Block list \<Rightarrow> OrphanPool" where
  "pool_of n bs = \<lparr>op_order = map b_hash bs, op_pool = map (\<lambda>b. (b_hash b, b)) bs, op_max_size = n\<rparr>"

fun add_orphans :: "OrphanPool \<Rightarrow> Block list \<Rightarrow> OrphanPool result" where
  "add_orphans p [] = Inr p"
| "add_orphans p (b # bs) = bindE (add_orphan p b) (\<lambda>p. add_orphans p bs)"

lemma add_orphans_snoc: "add_orphans p (bs @ [b]) = bindE (add_orphans p bs) (\<lambda>p. add_orphan p b)"
  by (induction bs arbitrary: p) (auto simp: bindE_def split: sum.splits)

lemma add_orphan_pool_of:
  assumes "0 < n" and "distinct (map b_hash (bs @ [b]))"
  shows "add_orphan (pool_of n bs) b = Inr (pool_of n ((if n \<le> length bs then tl bs else bs) @ [b]))"
proof -
  let ?e = "\<lambda>b. (b_hash b, b)"
  have new: "map_of (map ?e bs) (b_hash b) = None"
    using assms(2) by (auto simp: map_of_eq_None_iff)
  have upd: "AList.update (b_hash b) b (map ?e xs) = map ?e xs @ [?e b]" if "set xs \<subseteq> set bs" for xs
    using assms(2) that by (intro umap_update_new) auto
  have del: "AList.delete (b_hash x) (map ?e (x # xs)) = map ?e xs" if "bs = x # xs" for x xs
    using assms(2) that by (auto simp: AList.delete_eq filter_id_conv)
  show ?thesis
    using assms(1) new upd [of bs] upd [of "tl bs"] del
    by (cases bs) (auto simp: add_orphan_def Let_def has_orphan_def orphan_count_def pool_of_def)
qed

text \<open>A pool with room for \<open>n > 0\<close> blocks that received any sequence of blocks with distinct hashes
  never fails and holds exactly the \<open>n\<close> most recent of them, each under its own hash.\<close>

theorem orphan_pool_fifo:
  assumes "0 < n" and "distinct (map b_hash bs)"
  shows "add_orphans (mk_OrphanPool n) bs = Inr (pool_of n (drop (length bs - n) bs)) \<and>
    (\<forall>b. find_orphan (pool_of n (drop (length bs - n) bs)) (b_hash b) = Some b \<longleftrightarrow>
         b \<in> set (drop (length bs - n) bs))"
proof
  show "add_orphans (mk_OrphanPool n) bs = Inr (pool_of n (drop (length bs - n) bs))"
    using assms(2)
  proof (induction bs rule: rev_induct)
    case Nil
    then show ?case by (simp add: mk_OrphanPool_def pool_of_def)
  next
    case (snoc b bs)
    let ?r = "drop (length bs - n) bs"
    have "distinct (map b_hash (?r @ [b]))"
      using snoc.prems by (auto simp: distinct_drop dest: in_set_dropD simp flip: drop_map)
    from add_orphan_pool_of [OF assms(1) this]
    have "add_orphan (pool_of n ?r) b = Inr (pool_of n (drop (length (bs @ [b]) - n) (bs @ [b])))"
      using assms(1) by (auto simp: Suc_diff_le drop_Suc tl_drop)
    with snoc show ?case by (simp add: add_orphans_snoc)
  qed
  have "distinct (map b_hash (drop (length bs - n) bs))"
    using assms(2) by (simp add: distinct_drop flip: drop_map)
  then show "\<forall>b. find_orphan (pool_of n (drop (length bs - n) bs)) (b_hash b) = Some b \<longleftrightarrow>
      b \<in> set (drop (length bs - n) bs)"
    by (auto simp: find_orphan_def pool_of_def comp_def map_of_eq_Some_iff)
qed

text \<open>Blocks that differ in their hash only.\<close>

definition tagged_block :: "u8 \<Rightarrow> Block" where
  "tagged_block k = (mk_Block sample_openssl 1 zero_hash 0 [])\<lparr>b_hash := [k]\<rparr>"

theorem orphan_pool_fifo_witness:
  "add_orphans (mk_OrphanPool 2) [tagged_block 1, tagged_block 2, tagged_block 3] =
     Inr (pool_of 2 [tagged_block 2, tagged_block 3]) \<and>
   find_orphan (pool_of 2 [tagged_block 2, tagged_block 3]) [3] = Some (tagged_block 3)"
proof -
  let ?bs = "[tagged_block 1, tagged_block 2, tagged_block 3]"
  have h: "b_hash (tagged_block k) = [k]" for k by (simp add: tagged_block_def)
  have "distinct (map b_hash ?bs)" by (simp add: h)
  note f = orphan_pool_fifo [of 2 ?bs, OF _ this]
  have "add_orphans (mk_OrphanPool 2) ?bs = Inr (pool_of 2 [tagged_block 2, tagged_block 3])"
    using f [THEN conjunct1] by (simp del: add_orphans.simps)
  moreover have "find_orphan (pool_of 2 [tagged_block 2, tagged_block 3]) (b_hash (tagged_block 3)) =
      Some (tagged_block 3)"
    using f [THEN conjunct2, THEN spec, of "tagged_block 3"] by simp
  ultimately show ?thesis by (simp only: h)
qed

end
