(* ===== verification/FC_Blockchain.thy ===== *)
theory FC_Blockchain
  imports FC_OrphanPool
begin

text \<open>
  src/include/core/Blockchain.hpp, src/src/core/Blockchain.cpp, src/src/core/BlockLocator.cpp and
  src/src/core/ForkResolution.cpp: the main chain with its index by hash, the classification of a new
  block, the replacement of a suffix by a fork, the work of a fork, and block locators. Heights and
  locator steps are sizes of vectors, far below \<open>2 ^ 63\<close>, and are natural numbers.
\<close>

section \<open>The chain\<close>

record Blockchain =
  bc_blocks :: "Block list"
  bc_index :: "(HashBytes \<times> nat) list"

datatype BlockValidation = Valid | Invalid | ForkCandidate

definition genesis_block :: "openssl \<Rightarrow> Block" where
  "genesis_block C =
     (let genesis = mk_Block C 1 zero_hash 0 [] in genesis\<lparr>b_hash := block_compute_hash C genesis\<rparr>)"

definition new_Blockchain :: "openssl \<Rightarrow> Blockchain" where
  "new_Blockchain C =
     \<lparr>bc_blocks = [genesis_block C], bc_index = AList.update (b_hash (genesis_block C)) 0 []\<rparr>"

definition bc_size :: "Blockchain \<Rightarrow> nat" where
  "bc_size bc = length (bc_blocks bc)"

definition bc_empty :: "Blockchain \<Rightarrow> bool" where
  "bc_empty bc \<longleftrightarrow> length (bc_blocks bc) = 0"

definition add_block :: "Blockchain \<Rightarrow> Block \<Rightarrow> Blockchain" where
  "add_block bc block =
     (let prev_cumulative_work = (if bc_size bc > 0 then b_cumulative_work (last (bc_blocks bc)) else 0);
          current_cumulative_work = block_work block + prev_cumulative_work;
          block = block\<lparr>b_cumulative_work := current_cumulative_work\<rparr>
      in \<lparr>bc_blocks = bc_blocks bc @ [block],
          bc_index = AList.update (b_hash block) (length (bc_blocks bc)) (bc_index bc)\<rparr>)"

definition bc_has_block :: "Blockchain \<Rightarrow> HashBytes \<Rightarrow> bool" where
  "bc_has_block bc hash \<longleftrightarrow> map_of (bc_index bc) hash \<noteq> None"

definition find_height :: "Blockchain \<Rightarrow> HashBytes \<Rightarrow> nat option" where
  "find_height bc hash = (if \<not> bc_has_block bc hash then None else map_of (bc_index bc) hash)"

definition bc_find :: "Blockchain \<Rightarrow> HashBytes \<Rightarrow> Block option" where
  "bc_find bc hash = (case find_height bc hash of None \<Rightarrow> None | Some i \<Rightarrow> Some (bc_blocks bc ! i))"

definition bc_at :: "Blockchain \<Rightarrow> nat \<Rightarrow> Block result" where
  "bc_at bc height = vec_at (bc_blocks bc) height"

definition latest :: "Blockchain \<Rightarrow> Block" where
  "latest bc = last (bc_blocks bc)"

definition bc_is_valid :: "openssl \<Rightarrow> Blockchain \<Rightarrow> bool" where
  "bc_is_valid C bc =
     list_all (\<lambda>height.
       let prev_block = bc_blocks bc ! (height - 1); current_block = bc_blocks bc ! height in
       \<not> block_compute_hash C current_block \<noteq> b_hash current_block \<and>
       \<not> b_hash prev_block \<noteq> b_prev_hash current_block) [1..<length (bc_blocks bc)]"

definition classify_new_block :: "openssl \<Rightarrow> Blockchain \<Rightarrow> Block \<Rightarrow> BlockValidation" where
  "classify_new_block C bc block =
     (if b_hash block \<noteq> block_compute_hash C block then Invalid
      else if list_ex (\<lambda>i. tx_sender (b_transactions block ! i) = kCoinbaseSender \<and> i \<noteq> 0)
                [0..<length (b_transactions block)] then Invalid
      else if b_prev_hash block \<noteq> b_hash (latest bc) then ForkCandidate
      else Valid)"

section \<open>Forks\<close>

record ForkChain =
  fc_blocks :: "Block list"
  fc_common_ancestor :: Block

definition kMaxForkDepth :: nat where "kMaxForkDepth = 100"

definition reorganize_to :: "Blockchain \<Rightarrow> ForkChain \<Rightarrow> Blockchain \<times> Block list option" where
  "reorganize_to bc fork =
     (case find_height bc (b_hash (fc_common_ancestor fork)) of
        None \<Rightarrow> (bc, None)
      | Some height \<Rightarrow>
          let discarded = drop (height + 1) (bc_blocks bc);
              bc = bc\<lparr>bc_index := foldl (\<lambda>m block. AList.delete (b_hash block) m) (bc_index bc) discarded\<rparr>;
              bc = bc\<lparr>bc_blocks := take (height + 1) (bc_blocks bc)\<rparr>
          in (foldl add_block bc (fc_blocks fork), Some discarded))"

function build_fork_loop ::
  "Blockchain \<Rightarrow> OrphanPool \<Rightarrow> Block list \<Rightarrow> HashBytes \<Rightarrow> nat \<Rightarrow> ForkChain option" where
  "build_fork_loop chain pool fork_chain current_hash depth =
     (if depth \<ge> kMaxForkDepth then None
      else case bc_find chain current_hash of
        Some found_in_chain \<Rightarrow>
          Some \<lparr>fc_blocks = rev fork_chain, fc_common_ancestor = found_in_chain\<rparr>
      | None \<Rightarrow>
          (case find_orphan pool current_hash of
             None \<Rightarrow> None
           | Some found_in_pool \<Rightarrow>
               build_fork_loop chain pool (fork_chain @ [found_in_pool]) (b_prev_hash found_in_pool)
                 (depth + 1)))"
  by pat_completeness auto
termination by (relation "measure (\<lambda>(_, _, _, _, depth). kMaxForkDepth - depth)") auto

declare build_fork_loop.simps [simp del]

definition build_fork_chain :: "Blockchain \<Rightarrow> OrphanPool \<Rightarrow> Block \<Rightarrow> ForkChain option" where
  "build_fork_chain chain pool tip = build_fork_loop chain pool [tip] (b_prev_hash tip) 0"

definition fork_work :: "ForkChain \<Rightarrow> u64" where
  "fork_work fork =
     foldl (\<lambda>work block. work + block_work block) (b_cumulative_work (fc_common_ancestor fork)) (fc_blocks fork)"

definition is_fork_heavier :: "Blockchain \<Rightarrow> ForkChain \<Rightarrow> bool" where
  "is_fork_heavier chain fork \<longleftrightarrow> fork_work fork > b_cumulative_work (latest chain)"

section \<open>Locators\<close>

text \<open>
  The loop of \<open>build_locator\<close>. The step starts at one and doubles, so the first guard, a loop that
  would never end, is not reached.
\<close>

function locator_loop :: "Blockchain \<Rightarrow> HashBytes list \<Rightarrow> nat \<Rightarrow> nat \<Rightarrow> HashBytes list result" where
  "locator_loop chain hashes step height =
     (if step = 0 then Inl Undefined_behaviour
      else if height > 0 then
        bindE (bc_at chain height) (\<lambda>block.
          let hashes = hashes @ [b_hash block];
              step = (if length hashes \<ge> 10 then step * 2 else step)
          in if step > height then Inr hashes else locator_loop chain hashes step (height - step))
      else Inr hashes)"
  by pat_completeness auto
termination by (relation "measure (\<lambda>(_, _, _, height). height)") (auto split: if_splits)

declare locator_loop.simps [simp del]

definition build_locator :: "Blockchain \<Rightarrow> HashBytes list result" where
  "build_locator chain =
     (if bc_size chain = 0 then Inr []
      else bindE (locator_loop chain [] 1 (bc_size chain - 1)) (\<lambda>hashes.
        bindE (bc_at chain 0) (\<lambda>genesis. Inr (hashes @ [b_hash genesis]))))"

fun find_locator_match :: "Blockchain \<Rightarrow> HashBytes list \<Rightarrow> nat option" where
  "find_locator_match chain [] = None"
| "find_locator_match chain (hash # locator) =
     (case find_height chain hash of Some index \<Rightarrow> Some index | None \<Rightarrow> find_locator_match chain locator)"

section \<open>Hash chains\<close>

text \<open>
  Each element names its predecessor by hash, the first one the zero hash. \<open>hash_chain\<close> is the
  contract the chain relies on: sound blocks with one hash have one predecessor, and no sound block
  has the zero hash.
\<close>

fun linked :: "('b \<Rightarrow> 'h) \<Rightarrow> ('b \<Rightarrow> 'h) \<Rightarrow> 'h \<Rightarrow> 'b list \<Rightarrow> bool" where
  "linked hashf prevf h [] \<longleftrightarrow> True"
| "linked hashf prevf h (b # bs) \<longleftrightarrow> prevf b = h \<and> linked hashf prevf (hashf b) bs"

lemma linked_append:
  "linked hashf prevf h (xs @ ys) \<longleftrightarrow>
     linked hashf prevf h xs \<and> linked hashf prevf (if xs = [] then h else hashf (last xs)) ys"
  by (induction xs arbitrary: h) auto

lemma linked_nth:
  "linked hashf prevf h bs \<Longrightarrow> i < length bs \<Longrightarrow>
     prevf (bs ! i) = (case i of 0 \<Rightarrow> h | Suc j \<Rightarrow> hashf (bs ! j))"
proof (induction bs arbitrary: h i)
  case (Cons b bs)
  show ?case
  proof (cases i)
    case (Suc j)
    then show ?thesis using Cons.IH [of "hashf b" j] Cons.prems by (cases j) auto
  qed (use Cons.prems in simp)
qed simp

lemma linked_take: "linked hashf prevf h bs \<Longrightarrow> linked hashf prevf h (take n bs)"
  by (metis append_take_drop_id linked_append)

locale hash_chain =
  fixes hashf :: "'b \<Rightarrow> 'h" and prevf :: "'b \<Rightarrow> 'h" and sound :: "'b \<Rightarrow> bool" and zero :: 'h
  assumes same_prev: "sound b \<Longrightarrow> sound b' \<Longrightarrow> hashf b = hashf b' \<Longrightarrow> prevf b = prevf b'"
    and not_zero: "sound b \<Longrightarrow> hashf b \<noteq> zero"
begin

lemma linked_same_height:
  assumes "linked hashf prevf zero xs" and "linked hashf prevf zero ys"
    and "\<forall>b\<in>set xs. sound b" and "\<forall>b\<in>set ys. sound b"
    and "i < length xs" and "j < length ys" and "hashf (xs ! i) = hashf (ys ! j)"
  shows "i = j \<and> (\<forall>k\<le>i. hashf (xs ! k) = hashf (ys ! k))"
  using assms(5-7)
proof (induction i arbitrary: j)
  case 0
  have "prevf (xs ! 0) = prevf (ys ! j)" using 0 assms(3,4) by (intro same_prev) auto
  with linked_nth [OF assms(1)] linked_nth [OF assms(2)] 0 have
    "(case j of 0 \<Rightarrow> zero | Suc l \<Rightarrow> hashf (ys ! l)) = zero" by simp
  moreover have "hashf (ys ! l) \<noteq> zero" if "j = Suc l" for l
    using that 0 assms(4) by (intro not_zero) auto
  ultimately show ?case using 0 by (cases j) auto
next
  case (Suc i)
  have "prevf (xs ! Suc i) = prevf (ys ! j)" using Suc.prems assms(3,4) by (intro same_prev) auto
  with linked_nth [OF assms(1) Suc.prems(1)] linked_nth [OF assms(2) Suc.prems(2)] have
    p: "(case j of 0 \<Rightarrow> zero | Suc l \<Rightarrow> hashf (ys ! l)) = hashf (xs ! i)" by simp
  have "hashf (xs ! i) \<noteq> zero" using Suc.prems assms(3) by (intro not_zero) auto
  with p obtain l where l: "j = Suc l" "hashf (xs ! i) = hashf (ys ! l)" by (cases j) auto
  with Suc.IH [of l] Suc.prems show ?case by (auto simp: le_Suc_eq)
qed

lemma linked_distinct:
  assumes "linked hashf prevf zero xs" and "\<forall>b\<in>set xs. sound b"
  shows "distinct (map hashf xs)"
  using linked_same_height [OF assms(1) assms(1) assms(2) assms(2)]
  by (auto simp: distinct_conv_nth)

lemma linked_common_prefix:
  assumes "linked hashf prevf zero xs" and "linked hashf prevf zero ys"
    and "\<forall>b\<in>set xs. sound b" and "\<forall>b\<in>set ys. sound b"
    and "i < length xs" and "j < length ys" and "hashf (xs ! i) = hashf (ys ! j)"
  shows "map hashf (take (Suc i) xs) = map hashf (take (Suc j) ys)"
  using linked_same_height [OF assms] assms(5,6)
  by (intro nth_equalityI) (auto simp: less_Suc_eq_le)

end

text \<open>
  Blocks of 32-byte parent hashes that carry their own hash, drawn from a universe \<open>S\<close> of serialized
  blocks without hash collisions, keep the contract.
\<close>

definition collision_free :: "openssl \<Rightarrow> bytes set \<Rightarrow> bool" where
  "collision_free C S \<longleftrightarrow> inj_on (double_sha_256 C) S \<and> zero_hash \<notin> double_sha_256 C ` S"

definition sound_block :: "openssl \<Rightarrow> bytes set \<Rightarrow> Block \<Rightarrow> bool" where
  "sound_block C S b \<longleftrightarrow> collision_free C S \<and> b_hash b = block_compute_hash C b \<and>
     length (b_prev_hash b) = 32 \<and> block_serialize b \<in> S"

lemma serialize_prev_hash:
  assumes "block_serialize b = block_serialize b'" and "length (b_prev_hash b) = length (b_prev_hash b')"
  shows "b_prev_hash b = b_prev_hash b'"
proof -
  have "take (length (b_prev_hash b)) (drop 4 (block_serialize b)) = b_prev_hash b"
    and "take (length (b_prev_hash b')) (drop 4 (block_serialize b')) = b_prev_hash b'"
    by (simp_all add: block_serialize_def)
  with assms show ?thesis by metis
qed

interpretation bc_chain: hash_chain b_hash b_prev_hash "sound_block C S" zero_hash for C S
proof
  fix b b'
  assume s: "sound_block C S b" "sound_block C S b'" and "b_hash b = b_hash b'"
  then have "double_sha_256 C (block_serialize b) = double_sha_256 C (block_serialize b')"
    and "block_serialize b \<in> S" "block_serialize b' \<in> S" "inj_on (double_sha_256 C) S"
    by (simp_all add: sound_block_def collision_free_def block_compute_hash_def)
  then have "block_serialize b = block_serialize b'" by (simp add: inj_on_eq_iff)
  then show "b_prev_hash b = b_prev_hash b'"
    using s by (intro serialize_prev_hash) (simp_all add: sound_block_def)
next
  fix b
  assume s: "sound_block C S b"
  then have "b_hash b \<in> double_sha_256 C ` S" by (simp add: sound_block_def block_compute_hash_def)
  with s show "b_hash b \<noteq> zero_hash" unfolding sound_block_def collision_free_def by metis
qed

section \<open>The chain invariant\<close>

text \<open>Cumulative work is the running sum of block work, the genesis block counting for nothing.\<close>

fun work_from :: "u64 \<Rightarrow> Block list \<Rightarrow> bool" where
  "work_from w [] \<longleftrightarrow> True"
| "work_from w (b # bs) \<longleftrightarrow> b_cumulative_work b = block_work b + w \<and> work_from (b_cumulative_work b) bs"

lemma work_from_append:
  "work_from w (xs @ ys) \<longleftrightarrow>
     work_from w xs \<and> work_from (if xs = [] then w else b_cumulative_work (last xs)) ys"
  by (induction xs arbitrary: w) auto

definition index_exact :: "Blockchain \<Rightarrow> bool" where
  "index_exact bc \<longleftrightarrow> (\<forall>h i. map_of (bc_index bc) h = Some i \<longleftrightarrow>
     i < length (bc_blocks bc) \<and> b_hash (bc_blocks bc ! i) = h)"

definition chain_inv :: "openssl \<Rightarrow> bytes set \<Rightarrow> Blockchain \<Rightarrow> bool" where
  "chain_inv C S bc \<longleftrightarrow> index_exact bc \<and>
     linked b_hash b_prev_hash zero_hash (bc_blocks bc) \<and>
     (\<forall>b\<in>set (bc_blocks bc). sound_block C S b) \<and>
     (\<exists>bs. bc_blocks bc = genesis_block C # bs \<and> work_from 0 bs)"

lemma chain_inv_distinct: "chain_inv C S bc \<Longrightarrow> distinct (map b_hash (bc_blocks bc))"
  unfolding chain_inv_def by (intro bc_chain.linked_distinct) auto

lemma find_height_alt: "find_height bc h = map_of (bc_index bc) h"
  by (auto simp: find_height_def bc_has_block_def)

lemma find_height_Some:
  "chain_inv C S bc \<Longrightarrow>
     find_height bc h = Some i \<longleftrightarrow> i < length (bc_blocks bc) \<and> b_hash (bc_blocks bc ! i) = h"
  by (simp add: find_height_alt chain_inv_def index_exact_def)

lemma find_height_None:
  assumes "chain_inv C S bc"
  shows "find_height bc h = None \<longleftrightarrow> h \<notin> b_hash ` set (bc_blocks bc)"
proof -
  have "h \<in> b_hash ` set (bc_blocks bc) \<longleftrightarrow> (\<exists>i. find_height bc h = Some i)"
    unfolding find_height_Some [OF assms] set_conv_nth by auto
  then show ?thesis by (cases "find_height bc h") auto
qed

lemma bc_find_Some:
  assumes "chain_inv C S bc"
  shows "bc_find bc h = Some b \<longleftrightarrow> b \<in> set (bc_blocks bc) \<and> b_hash b = h"
proof
  assume "bc_find bc h = Some b"
  then obtain i where "find_height bc h = Some i" "b = bc_blocks bc ! i"
    by (auto simp: bc_find_def split: option.splits)
  then show "b \<in> set (bc_blocks bc) \<and> b_hash b = h"
    unfolding find_height_Some [OF assms] by simp
next
  assume "b \<in> set (bc_blocks bc) \<and> b_hash b = h"
  then obtain i where "i < length (bc_blocks bc)" "bc_blocks bc ! i = b" "b_hash b = h"
    by (auto simp: in_set_conv_nth)
  then show "bc_find bc h = Some b"
    using find_height_Some [OF assms, of h i] by (simp add: bc_find_def)
qed

lemma sound_genesis:
  assumes "collision_free C S" and "block_serialize (genesis_block C) \<in> S"
  shows "sound_block C S (genesis_block C)"
  using assms by (simp add: sound_block_def genesis_block_def Let_def zero_hash_def)

lemma new_chain_inv:
  assumes "collision_free C S" and "block_serialize (genesis_block C) \<in> S"
  shows "chain_inv C S (new_Blockchain C)"
  using sound_genesis [OF assms]
  by (auto simp: chain_inv_def new_Blockchain_def index_exact_def genesis_block_def Let_def
      split: if_splits)

section \<open>Growing and replacing\<close>

lemma sound_block_frame [simp]:
  "sound_block C S (b\<lparr>b_cumulative_work := w\<rparr>) \<longleftrightarrow> sound_block C S b"
  by (simp add: sound_block_def)

lemma block_work_frame [simp]: "block_work (b\<lparr>b_cumulative_work := w\<rparr>) = block_work b"
  by (simp add: block_work_def)

lemma genesis_sel [simp]:
  "b_cumulative_work (genesis_block C) = 0" "b_prev_hash (genesis_block C) = zero_hash"
  "b_transactions (genesis_block C) = []" "b_timestamp (genesis_block C) = 0"
  "b_difficulty (genesis_block C) = 0"
  by (simp_all add: genesis_block_def Let_def)

lemma chain_inv_nonempty: "chain_inv C S bc \<Longrightarrow> bc_blocks bc \<noteq> []"
  by (auto simp: chain_inv_def)

lemma chain_inv_sound: "chain_inv C S bc \<Longrightarrow> b \<in> set (bc_blocks bc) \<Longrightarrow> sound_block C S b"
  by (simp add: chain_inv_def)

text \<open>A list of blocks with the cumulative work the chain gives them when they follow work \<open>w\<close>.\<close>

fun with_work :: "u64 \<Rightarrow> Block list \<Rightarrow> Block list" where
  "with_work w [] = []"
| "with_work w (b # bs) =
     b\<lparr>b_cumulative_work := block_work b + w\<rparr> # with_work (block_work b + w) bs"

lemma length_with_work [simp]: "length (with_work w bs) = length bs"
  by (induction bs arbitrary: w) auto

lemma with_work_eq_Nil [simp]: "with_work w bs = [] \<longleftrightarrow> bs = []"
  by (cases bs) auto

lemma map_with_work [simp]:
  "map b_hash (with_work w bs) = map b_hash bs"
  "map b_transactions (with_work w bs) = map b_transactions bs"
  by (induction bs arbitrary: w) auto

lemma last_with_work:
  "bs \<noteq> [] \<Longrightarrow> b_cumulative_work (last (with_work w bs)) = foldl (\<lambda>w b. w + block_work b) w bs"
proof (induction bs arbitrary: w)
  case (Cons b bs)
  show ?case
  proof (cases "bs = []")
    case False
    then show ?thesis using Cons.IH [of "block_work b + w"] by (simp add: add.commute)
  qed (simp add: add.commute)
qed simp

lemma add_block_blocks:
  "bc_blocks bc \<noteq> [] \<Longrightarrow>
     bc_blocks (add_block bc b) = bc_blocks bc @ with_work (b_cumulative_work (latest bc)) [b]"
  by (simp add: add_block_def Let_def bc_size_def latest_def)

lemma index_exact_add:
  assumes "index_exact bc" and "b_hash b \<notin> b_hash ` set (bc_blocks bc)"
  shows "index_exact (add_block bc b)"
proof -
  have fresh: "b_hash (bc_blocks bc ! i) \<noteq> b_hash b" if "i < length (bc_blocks bc)" for i
    using assms(2) that by (metis image_eqI nth_mem)
  show ?thesis
    using assms(1) fresh
    by (auto simp: index_exact_def add_block_def Let_def update_conv' nth_append less_Suc_eq
        split: if_splits)
qed

lemma add_block_inv:
  assumes "chain_inv C S bc" and "sound_block C S b" and "b_prev_hash b = b_hash (latest bc)"
  shows "chain_inv C S (add_block bc b)"
proof -
  let ?w = "block_work b + b_cumulative_work (latest bc)"
  let ?b = "b\<lparr>b_cumulative_work := ?w\<rparr>"
  have ne: "bc_blocks bc \<noteq> []" using assms(1) by (rule chain_inv_nonempty)
  have blocks: "bc_blocks (add_block bc b) = bc_blocks bc @ [?b]"
    using ne by (simp add: add_block_blocks)
  have link: "linked b_hash b_prev_hash zero_hash (bc_blocks bc @ [?b])"
    using assms(1,3) ne by (simp add: linked_append chain_inv_def latest_def)
  have sound: "\<forall>c\<in>set (bc_blocks bc @ [?b]). sound_block C S c"
    using assms(1,2) by (simp add: chain_inv_def)
  have "distinct (map b_hash (bc_blocks bc @ [?b]))" using link sound by (rule bc_chain.linked_distinct)
  then have fresh: "b_hash b \<notin> b_hash ` set (bc_blocks bc)" by simp
  from assms(1) obtain bs where bs: "bc_blocks bc = genesis_block C # bs" "work_from 0 bs"
    by (auto simp: chain_inv_def)
  have "work_from 0 (bs @ [?b])"
    using bs by (simp add: work_from_append latest_def)
  with bs(1) have "\<exists>cs. bc_blocks (add_block bc b) = genesis_block C # cs \<and> work_from 0 cs"
    unfolding blocks by simp
  moreover have "index_exact (add_block bc b)"
    using assms(1) fresh by (intro index_exact_add) (simp_all add: chain_inv_def)
  ultimately show ?thesis using link sound unfolding chain_inv_def blocks by blast
qed

lemma latest_add_block:
  "bc_blocks bc \<noteq> [] \<Longrightarrow> latest (add_block bc b) = b\<lparr>b_cumulative_work := block_work b + b_cumulative_work (latest bc)\<rparr>"
  by (simp add: latest_def add_block_blocks)

lemma add_blocks_inv:
  assumes "chain_inv C S bc" and "\<forall>b\<in>set bs. sound_block C S b"
    and "linked b_hash b_prev_hash (b_hash (latest bc)) bs"
  shows "chain_inv C S (foldl add_block bc bs) \<and>
    bc_blocks (foldl add_block bc bs) = bc_blocks bc @ with_work (b_cumulative_work (latest bc)) bs"
  using assms
proof (induction bs arbitrary: bc)
  case (Cons b bs)
  have ne: "bc_blocks bc \<noteq> []" using Cons.prems(1) by (rule chain_inv_nonempty)
  have "chain_inv C S (add_block bc b)"
    using Cons.prems by (intro add_block_inv) simp_all
  then have "chain_inv C S (foldl add_block (add_block bc b) bs) \<and>
      bc_blocks (foldl add_block (add_block bc b) bs) =
      bc_blocks (add_block bc b) @ with_work (b_cumulative_work (latest (add_block bc b))) bs"
    using Cons.prems ne by (intro Cons.IH) (simp_all add: latest_add_block)
  then show ?case using ne by (simp add: latest_add_block add_block_blocks)
qed simp

lemma map_of_delete_all:
  "map_of (foldl (\<lambda>m b. AList.delete (b_hash b) m) m ds) h =
     (if h \<in> b_hash ` set ds then None else map_of m h)"
  by (induction ds arbitrary: m) (auto simp: delete_conv')

lemma truncate_inv:
  assumes "chain_inv C S bc" and "h < length (bc_blocks bc)"
  shows "chain_inv C S \<lparr>bc_blocks = take (Suc h) (bc_blocks bc),
    bc_index = foldl (\<lambda>m b. AList.delete (b_hash b) m) (bc_index bc) (drop (Suc h) (bc_blocks bc))\<rparr>"
    (is "chain_inv C S ?bc")
proof -
  let ?B = "bc_blocks bc"
  have d: "distinct (map b_hash ?B)" using assms(1) by (rule chain_inv_distinct)
  have gone: "b_hash (?B ! i) \<in> b_hash ` set (drop (Suc h) ?B) \<longleftrightarrow> Suc h \<le> i" if "i < length ?B" for i
  proof
    assume "b_hash (?B ! i) \<in> b_hash ` set (drop (Suc h) ?B)"
    then obtain j where "j < length (drop (Suc h) ?B)" "b_hash (?B ! i) = b_hash (drop (Suc h) ?B ! j)"
      by (auto simp: set_conv_nth)
    then have "b_hash (?B ! i) = b_hash (?B ! (Suc h + j))" "Suc h + j < length ?B" by simp_all
    with d that have "i = Suc h + j" using nth_eq_iff_index_eq [OF d, of i "Suc h + j"] by simp
    then show "Suc h \<le> i" by simp
  next
    assume "Suc h \<le> i"
    then have "drop (Suc h) ?B ! (i - Suc h) = ?B ! i" "i - Suc h < length (drop (Suc h) ?B)"
      using that by simp_all
    then show "b_hash (?B ! i) \<in> b_hash ` set (drop (Suc h) ?B)" by (metis image_eqI nth_mem)
  qed
  have "index_exact ?bc"
    unfolding index_exact_def
  proof (intro allI)
    fix k i
    have "map_of (bc_index bc) k = Some i \<longleftrightarrow> i < length ?B \<and> b_hash (?B ! i) = k"
      using assms(1) by (simp add: chain_inv_def index_exact_def)
    then show "map_of (bc_index ?bc) k = Some i \<longleftrightarrow>
        i < length (bc_blocks ?bc) \<and> b_hash (bc_blocks ?bc ! i) = k"
      using gone [of i] by (auto simp: map_of_delete_all)
  qed
  moreover obtain bs where bs: "?B = genesis_block C # bs" "work_from 0 bs"
    using assms(1) by (auto simp: chain_inv_def)
  moreover have "work_from 0 (take h bs)"
    using bs(2) by (metis append_take_drop_id work_from_append)
  ultimately show ?thesis
    using assms(1) by (auto simp: chain_inv_def linked_take dest: in_set_takeD)
qed

text \<open>A fork the chain can switch to: sound blocks linked to a block of the chain.\<close>

definition fork_of :: "openssl \<Rightarrow> bytes set \<Rightarrow> Blockchain \<Rightarrow> ForkChain \<Rightarrow> bool" where
  "fork_of C S bc fork \<longleftrightarrow> fc_common_ancestor fork \<in> set (bc_blocks bc) \<and> fc_blocks fork \<noteq> [] \<and>
     (\<forall>b\<in>set (fc_blocks fork). sound_block C S b) \<and>
     linked b_hash b_prev_hash (b_hash (fc_common_ancestor fork)) (fc_blocks fork)"

lemma fork_of_prefix:
  "fork_of C S bc fork \<Longrightarrow> 0 < n \<Longrightarrow> fork_of C S bc (fork\<lparr>fc_blocks := take n (fc_blocks fork)\<rparr>)"
  by (auto simp: fork_of_def linked_take dest: in_set_takeD)

lemma reorganize_to_fork:
  assumes "chain_inv C S bc" and "fork_of C S bc fork"
  obtains h bc' where "h < length (bc_blocks bc)" "bc_blocks bc ! h = fc_common_ancestor fork"
    "reorganize_to bc fork = (bc', Some (drop (Suc h) (bc_blocks bc)))" "chain_inv C S bc'"
    "bc_blocks bc' = take (Suc h) (bc_blocks bc) @
       with_work (b_cumulative_work (fc_common_ancestor fork)) (fc_blocks fork)"
proof -
  let ?a = "fc_common_ancestor fork"
  from assms(2) obtain h where h: "h < length (bc_blocks bc)" "bc_blocks bc ! h = ?a"
    by (auto simp: fork_of_def in_set_conv_nth)
  then have f: "find_height bc (b_hash ?a) = Some h"
    using find_height_Some [OF assms(1), of "b_hash ?a" h] by simp
  let ?t = "\<lparr>bc_blocks = take (Suc h) (bc_blocks bc),
    bc_index = foldl (\<lambda>m b. AList.delete (b_hash b) m) (bc_index bc) (drop (Suc h) (bc_blocks bc))\<rparr>"
  have t: "chain_inv C S ?t" using assms(1) h(1) by (rule truncate_inv)
  have l: "latest ?t = ?a" using h by (simp add: latest_def take_Suc_conv_app_nth)
  have "chain_inv C S (foldl add_block ?t (fc_blocks fork)) \<and>
      bc_blocks (foldl add_block ?t (fc_blocks fork)) =
      bc_blocks ?t @ with_work (b_cumulative_work (latest ?t)) (fc_blocks fork)"
    using t assms(2) l by (intro add_blocks_inv) (simp_all add: fork_of_def)
  moreover have "reorganize_to bc fork = (foldl add_block ?t (fc_blocks fork), Some (drop (Suc h) (bc_blocks bc)))"
    using f by (cases bc) (simp add: reorganize_to_def Let_def)
  ultimately show ?thesis using that [OF h] l by simp
qed

lemma build_fork_loop_Some:
  assumes "build_fork_loop bc pool fs h depth = Some fork"
    and "chain_inv C S bc" and "orphan_inv pool" and "\<forall>(k, b)\<in>set (op_pool pool). sound_block C S b"
    and "fs \<noteq> []" and "\<forall>b\<in>set fs. sound_block C S b" and "linked b_hash b_prev_hash h (rev fs)"
    and "length fs = Suc depth"
  shows "fork_of C S bc fork \<and> last (fc_blocks fork) = hd fs \<and> length (fc_blocks fork) \<le> kMaxForkDepth \<and>
    set (fc_blocks fork) \<subseteq> set fs \<union> snd ` set (op_pool pool)"
  using assms
proof (induction bc pool fs h depth rule: build_fork_loop.induct)
  case (1 bc pool fs h depth)
  have d: "depth < kMaxForkDepth"
    using "1.prems"(1) by (auto simp: build_fork_loop.simps [of bc] split: if_splits)
  show ?case
  proof (cases "bc_find bc h")
    case (Some a)
    then have "fork = \<lparr>fc_blocks = rev fs, fc_common_ancestor = a\<rparr>"
      using "1.prems"(1) d by (simp add: build_fork_loop.simps [of bc])
    moreover have "a \<in> set (bc_blocks bc)" "b_hash a = h"
      using Some bc_find_Some [OF "1.prems"(2)] by simp_all
    ultimately show ?thesis
      using "1.prems"(5-) d by (simp add: fork_of_def last_rev)
  next
    case None
    then obtain b where b: "find_orphan pool h = Some b"
      "build_fork_loop bc pool (fs @ [b]) (b_prev_hash b) (depth + 1) = Some fork"
      using "1.prems"(1) d by (auto simp: build_fork_loop.simps [of bc] split: option.splits)
    then have mem: "b_hash b = h" "(h, b) \<in> set (op_pool pool)"
      using find_orphan_hash [OF "1.prems"(3)] orphan_pool_in [OF "1.prems"(3)]
      by (simp_all add: find_orphan_def)
    have "fork_of C S bc fork \<and> last (fc_blocks fork) = hd (fs @ [b]) \<and>
        length (fc_blocks fork) \<le> kMaxForkDepth \<and>
        set (fc_blocks fork) \<subseteq> set (fs @ [b]) \<union> snd ` set (op_pool pool)"
      by (rule "1.IH") (use d None b mem "1.prems" in auto)
    moreover have "b \<in> snd ` set (op_pool pool)" using mem(2) by force
    ultimately show ?thesis using "1.prems"(5) by auto
  qed
qed

lemma build_fork_chain_Some:
  assumes "build_fork_chain bc pool tip = Some fork"
    and "chain_inv C S bc" and "orphan_inv pool" and "\<forall>(k, b)\<in>set (op_pool pool). sound_block C S b"
    and "sound_block C S tip"
  shows "fork_of C S bc fork \<and> last (fc_blocks fork) = tip \<and> length (fc_blocks fork) \<le> kMaxForkDepth \<and>
    set (fc_blocks fork) \<subseteq> insert tip (snd ` set (op_pool pool))"
  using build_fork_loop_Some [OF assms(1) [unfolded build_fork_chain_def] assms(2-4)] assms(5) by simp

lemma find_locator_match_Some:
  "find_locator_match bc ls = Some h \<Longrightarrow> \<exists>x\<in>set ls. find_height bc x = Some h"
  by (induction ls) (auto split: option.splits)

lemma find_locator_match_None:
  "find_locator_match bc ls = None \<Longrightarrow> x \<in> set ls \<Longrightarrow> find_height bc x = None"
  by (induction ls) (auto split: option.splits)

lemma locator_loop_0: "0 < step \<Longrightarrow> locator_loop bc hs step 0 = Inr hs"
  by (subst locator_loop.simps) simp

lemma locator_loop_Inr:
  assumes "0 < step" and "height < length (bc_blocks bc)"
  shows "\<exists>ls. locator_loop bc hs step height = Inr (hs @ ls) \<and> set ls \<subseteq> b_hash ` set (bc_blocks bc) \<and>
    (0 < height \<longrightarrow> ls \<noteq> [] \<and> hd ls = b_hash (bc_blocks bc ! height))"
  using assms
proof (induction bc hs step height rule: locator_loop.induct)
  case (1 bc hs step height)
  show ?case
  proof (cases "height = 0")
    case True
    then show ?thesis using "1.prems" by (simp add: locator_loop_0)
  next
    case False
    let ?b = "bc_blocks bc ! height" and ?hs = "hs @ [b_hash (bc_blocks bc ! height)]"
    let ?step = "if length ?hs \<ge> 10 then step * 2 else step"
    have at: "bc_at bc height = Inr ?b" using "1.prems"(2) by (simp add: bc_at_def vec_at_def)
    have mem: "b_hash ?b \<in> b_hash ` set (bc_blocks bc)" using "1.prems"(2) by simp
    have un: "locator_loop bc hs step height =
        (if ?step > height then Inr ?hs else locator_loop bc ?hs ?step (height - ?step))"
      using False "1.prems"(1) at by (subst locator_loop.simps) (simp add: Let_def)
    show ?thesis
    proof (cases "?step > height")
      case True
      then show ?thesis using un mem by (intro exI [of _ "[b_hash ?b]"]) simp
    next
      case go: False
      have "\<exists>ls. locator_loop bc ?hs ?step (height - ?step) = Inr (?hs @ ls) \<and>
          set ls \<subseteq> b_hash ` set (bc_blocks bc) \<and>
          (0 < height - ?step \<longrightarrow> ls \<noteq> [] \<and> hd ls = b_hash (bc_blocks bc ! (height - ?step)))"
        by (rule "1.IH" [OF _ _ at refl refl go]) (use "1.prems" False in \<open>auto split: if_splits\<close>)
      then obtain ls where "locator_loop bc ?hs ?step (height - ?step) = Inr (?hs @ ls)"
        "set ls \<subseteq> b_hash ` set (bc_blocks bc)" by blast
      then show ?thesis using un go mem by (intro exI [of _ "b_hash ?b # ls"]) simp
    qed
  qed
qed

lemma locator_loop_length:
  assumes "locator_loop bc hs step height = Inr rs" and "height < step * 2 ^ n"
  shows "length rs \<le> max 9 (length hs) + n + 1"
  using assms
proof (induction bc hs step height arbitrary: n rule: locator_loop.induct)
  case (1 bc hs step height)
  show ?case
  proof (cases "height = 0")
    case True
    then show ?thesis using "1.prems" locator_loop_0 [of step bc hs] by (cases step) auto
  next
    case False
    have "0 < step" using "1.prems"(2) by (cases step) auto
    obtain b where at: "bc_at bc height = Inr b"
      using "1.prems"(1) False \<open>0 < step\<close>
      by (cases "bc_at bc height") (auto simp: locator_loop.simps [of bc hs step height])
    let ?hs = "hs @ [b_hash b]"
    let ?step = "if length ?hs \<ge> 10 then step * 2 else step"
    have un: "locator_loop bc hs step height =
        (if ?step > height then Inr ?hs else locator_loop bc ?hs ?step (height - ?step))"
      using False \<open>0 < step\<close> at by (subst locator_loop.simps) (simp add: Let_def)
    show ?thesis
    proof (cases "?step > height")
      case True
      then show ?thesis using un "1.prems"(1) by auto
    next
      case go: False
      then have r: "locator_loop bc ?hs ?step (height - ?step) = Inr rs" using un "1.prems"(1) by simp
      have IH: "height - ?step < ?step * 2 ^ m \<Longrightarrow> length rs \<le> max 9 (length ?hs) + m + 1" for m
        by (rule "1.IH" [OF _ _ at refl refl go r]) (use \<open>0 < step\<close> False in simp_all)
      show ?thesis
      proof (cases "length hs \<ge> 9")
        case True
        then have s: "?step = step * 2" by simp
        then obtain m where m: "n = Suc m" using go "1.prems"(2) by (cases n) auto
        then have "height - ?step < ?step * 2 ^ m" using "1.prems"(2) go s by (simp add: mult.assoc)
        from IH [OF this] True m show ?thesis by simp
      next
        case False
        then have "height - ?step < ?step * 2 ^ n" using "1.prems"(2) by simp
        from IH [OF this] False show ?thesis by simp
      qed
    qed
  qed
qed

section \<open>Properties\<close>

text \<open>C13: Switching a valid chain to a fork that hangs off one of its blocks gives a valid chain again:
  the chain up to the common ancestor followed by the fork, with an exact index by hash. The blocks
  above the ancestor are returned, and the new tip carries exactly the work computed for the fork,
  so that a heavier fork strictly increases the work of the tip.\<close>

theorem reorganize_to_correct:
  assumes "chain_inv C S bc" and "fork_of C S bc fork"
  shows "\<exists>h bc'. reorganize_to bc fork = (bc', Some (drop (Suc h) (bc_blocks bc))) \<and>
    bc_blocks bc ! h = fc_common_ancestor fork \<and> chain_inv C S bc' \<and>
    map b_hash (bc_blocks bc') = map b_hash (take (Suc h) (bc_blocks bc) @ fc_blocks fork) \<and>
    b_cumulative_work (latest bc') = fork_work fork \<and>
    (is_fork_heavier bc fork \<longrightarrow> b_cumulative_work (latest bc) < b_cumulative_work (latest bc'))"
proof -
  obtain h bc' where r: "bc_blocks bc ! h = fc_common_ancestor fork"
    "reorganize_to bc fork = (bc', Some (drop (Suc h) (bc_blocks bc)))" "chain_inv C S bc'"
    "bc_blocks bc' = take (Suc h) (bc_blocks bc) @
       with_work (b_cumulative_work (fc_common_ancestor fork)) (fc_blocks fork)"
    using reorganize_to_fork [OF assms] by metis
  have "fc_blocks fork \<noteq> []" using assms(2) by (simp add: fork_of_def)
  then have "b_cumulative_work (latest bc') = fork_work fork"
    by (simp add: latest_def r(4) fork_work_def last_with_work)
  with r show ?thesis by (auto simp: is_fork_heavier_def)
qed

lemma build_locator_facts:
  assumes "bc_blocks bc \<noteq> []" and "length (bc_blocks bc) \<le> 2 ^ n"
  shows "\<exists>ls. build_locator bc = Inr ls \<and> hd ls = b_hash (latest bc) \<and>
    last ls = b_hash (hd (bc_blocks bc)) \<and> set ls \<subseteq> b_hash ` set (bc_blocks bc) \<and> length ls \<le> n + 11"
proof -
  let ?B = "bc_blocks bc"
  have size: "bc_size bc - 1 < length ?B" using assms(1) by (simp add: bc_size_def)
  from locator_loop_Inr [OF _ size, of 1 "[]"] obtain ls where
    ls: "locator_loop bc [] 1 (bc_size bc - 1) = Inr ls" "set ls \<subseteq> b_hash ` set ?B"
      "0 < bc_size bc - 1 \<longrightarrow> ls \<noteq> [] \<and> hd ls = b_hash (?B ! (bc_size bc - 1))" by auto
  have len: "length ls \<le> n + 10"
  proof -
    have "bc_size bc - 1 < 2 ^ n" using assms by (cases ?B) (auto simp: bc_size_def)
    then show ?thesis using locator_loop_length [OF ls(1), of n] by simp
  qed
  have at: "bc_at bc 0 = Inr (hd ?B)"
    using assms(1) by (simp add: bc_at_def vec_at_def hd_conv_nth)
  have build: "build_locator bc = Inr (ls @ [b_hash (hd ?B)])"
    using assms(1) ls(1) at by (simp add: build_locator_def bc_size_def)
  have "hd (ls @ [b_hash (hd ?B)]) = b_hash (latest bc)"
  proof (cases "bc_size bc - 1 = 0")
    case True
    then have "length ?B = 1" using assms(1) by (cases ?B) (auto simp: bc_size_def)
    then obtain b where "?B = [b]" by (auto simp: length_Suc_conv)
    moreover have "ls = []" using ls(1) True by (simp add: locator_loop.simps)
    ultimately show ?thesis by (simp add: latest_def)
  next
    case False
    then show ?thesis using ls(3) assms(1) by (simp add: latest_def last_conv_nth bc_size_def)
  qed
  then show ?thesis using build ls(2) len assms(1) by (intro exI [of _ "ls @ [b_hash (hd ?B)]"]) auto
qed

text \<open>The locator of a non-empty chain of at most \<open>2 ^ n\<close> blocks always exists, starts at the tip, ends
  at the genesis block, names only blocks of the chain, and has at most \<open>n + 11\<close> hashes.\<close>

theorem build_locator_correct:
  assumes "bc_blocks bc \<noteq> []" and "length (bc_blocks bc) \<le> 2 ^ n"
  shows "\<exists>ls. build_locator bc = Inr ls \<and> hd ls = b_hash (latest bc) \<and>
    last ls = b_hash (hd (bc_blocks bc)) \<and> set ls \<subseteq> b_hash ` set (bc_blocks bc) \<and> length ls \<le> n + 11"
  using assms by (rule build_locator_facts)

lemma locator_match_facts:
  assumes "chain_inv C S A" and "chain_inv C S B" and "build_locator A = Inr ls"
  shows "\<exists>h. find_locator_match B ls = Some h \<and> h < length (bc_blocks A) \<and> h < length (bc_blocks B) \<and>
    map b_hash (take (Suc h) (bc_blocks A)) = map b_hash (take (Suc h) (bc_blocks B))"
proof -
  have ne: "bc_blocks A \<noteq> []" "bc_blocks B \<noteq> []" using assms(1,2) by (auto dest: chain_inv_nonempty)
  have gen: "hd (bc_blocks A) = genesis_block C" "hd (bc_blocks B) = genesis_block C"
    using assms(1,2) by (auto simp: chain_inv_def)
  have "length (bc_blocks A) \<le> 2 ^ length (bc_blocks A)" by (simp add: less_imp_le less_exp)
  from build_locator_facts [OF ne(1) this] assms(3) have
    ls: "last ls = b_hash (genesis_block C)" "set ls \<subseteq> b_hash ` set (bc_blocks A)" "ls \<noteq> []"
    using gen(1) ne(1) by (auto simp: build_locator_def bc_size_def bindE_eq_Inr split: if_splits)
  have "find_height B (last ls) \<noteq> None"
    using find_height_None [OF assms(2)] ls(1) gen(2) ne(2) by (metis hd_in_set image_eqI)
  then obtain h where h: "find_locator_match B ls = Some h"
    using find_locator_match_None [of B ls "last ls"] ls(3) by (cases "find_locator_match B ls") auto
  then obtain x where x: "x \<in> set ls" "find_height B x = Some h" by (blast dest: find_locator_match_Some)
  then have B: "h < length (bc_blocks B)" "b_hash (bc_blocks B ! h) = x"
    using find_height_Some [OF assms(2)] by simp_all
  from x ls(2) obtain i where A: "i < length (bc_blocks A)" "b_hash (bc_blocks A ! i) = x"
    by (auto simp: set_conv_nth)
  note c = assms(1,2) [unfolded chain_inv_def]
  have "i = h \<and> (\<forall>k\<le>i. b_hash (bc_blocks A ! k) = b_hash (bc_blocks B ! k))"
    by (rule bc_chain.linked_same_height [where C = C and S = S]) (use c A B in auto)
  moreover have "map b_hash (take (Suc i) (bc_blocks A)) = map b_hash (take (Suc h) (bc_blocks B))"
    by (rule bc_chain.linked_common_prefix [where C = C and S = S]) (use c A B in auto)
  ultimately show ?thesis using h A B by auto
qed

text \<open>Two valid chains always find common ground: the first hash of one chain's locator that the
  other knows exists, and up to that height the two chains are the same.\<close>

theorem locator_match_common:
  assumes "chain_inv C S A" and "chain_inv C S B" and "build_locator A = Inr ls"
  shows "\<exists>h. find_locator_match B ls = Some h \<and> h < length (bc_blocks A) \<and> h < length (bc_blocks B) \<and>
    map b_hash (take (Suc h) (bc_blocks A)) = map b_hash (take (Suc h) (bc_blocks B))"
  using assms by (rule locator_match_facts)

section \<open>A concrete chain\<close>

text \<open>Blocks of the sample instance of the hash: the last byte of a hash is the sum of the block's bytes.\<close>

definition sample_child :: "Block \<Rightarrow> u64 \<Rightarrow> u32 \<Rightarrow> Transaction list \<Rightarrow> Block" where
  "sample_child parent timestamp difficulty txs =
     (let b = (mk_Block sample_openssl 1 (b_hash parent) timestamp txs)\<lparr>b_difficulty := difficulty\<rparr>
      in b\<lparr>b_hash := block_compute_hash sample_openssl b\<rparr>)"

abbreviation sample_hash :: "u8 \<Rightarrow> HashBytes" where
  "sample_hash k \<equiv> replicate 31 0 @ [k]"

lemma sum_list_zeros [simp]: "sum_list (replicate n (0::u8)) = 0"
  by (simp add: sum_list_replicate)

lemma sample_genesis_hash [simp]: "b_hash (genesis_block sample_openssl) = sample_hash 1"
  by (simp add: genesis_block_def Let_def block_compute_hash_def block_serialize_def mk_Block_def
      sample_sha_def u32_le_small u64_le_small size_le_def zero_hash_def)

lemma sample_child_hash:
  assumes "b_hash parent = sample_hash k" and "unat timestamp < 256" and "unat difficulty < 256"
  shows "b_hash (sample_child parent timestamp difficulty []) =
    sample_hash (1 + k + word_of_nat (unat timestamp) + word_of_nat (unat difficulty))"
  using assms
  by (simp add: sample_child_def Let_def block_compute_hash_def block_serialize_def mk_Block_def
      sample_sha_def u32_le_small u64_le_small size_le_def algebra_simps)

lemma sample_child_sel [simp]:
  "b_prev_hash (sample_child p t d txs) = b_hash p" "b_timestamp (sample_child p t d txs) = t"
  "b_difficulty (sample_child p t d txs) = d" "b_transactions (sample_child p t d txs) = txs"
  "b_cumulative_work (sample_child p t d txs) = 0"
  by (simp_all add: sample_child_def Let_def)

lemma sample_child_hash_eq: "b_hash (sample_child p t d txs) = block_compute_hash sample_openssl (sample_child p t d txs)"
  by (simp add: sample_child_def Let_def)

definition sample_a :: Block where "sample_a = sample_child (genesis_block sample_openssl) 5 1 []"
definition sample_b :: Block where "sample_b = sample_child (genesis_block sample_openssl) 7 3 []"

definition sample_universe :: "bytes set" where
  "sample_universe = block_serialize ` {genesis_block sample_openssl, sample_a, sample_b}"

lemma sample_hashes [simp]: "b_hash sample_a = sample_hash 8" "b_hash sample_b = sample_hash 12"
  by (simp_all add: sample_a_def sample_b_def sample_child_hash)

lemma sample_sha_serialize [simp]:
  "sample_sha (block_serialize (genesis_block sample_openssl)) = sample_hash 1"
  "sample_sha (block_serialize sample_a) = sample_hash 8"
  "sample_sha (block_serialize sample_b) = sample_hash 12"
proof -
  have "sample_sha (block_serialize b) = b_hash b" if "b_hash b = block_compute_hash sample_openssl b" for b
    using that by (simp add: block_compute_hash_def)
  then show "sample_sha (block_serialize (genesis_block sample_openssl)) = sample_hash 1"
    "sample_sha (block_serialize sample_a) = sample_hash 8"
    "sample_sha (block_serialize sample_b) = sample_hash 12"
    by (metis genesis_block_def block_compute_hash_frame(1) Block.select_convs(9) Block.surjective
          Block.update_convs(9) sample_genesis_hash,
        metis sample_a_def sample_child_hash_eq sample_hashes(1),
        metis sample_b_def sample_child_hash_eq sample_hashes(2))
qed

lemma zero_hash_sample: "zero_hash = sample_hash k \<longleftrightarrow> k = 0"
proof -
  have "zero_hash = replicate (Suc 31) 0" by (simp add: zero_hash_def)
  also have "\<dots> = sample_hash 0" by (simp only: replicate_append_same [symmetric] replicate_Suc)
  finally show ?thesis by (metis append1_eq_conv)
qed

lemma sample_collision_free [simp]: "collision_free sample_openssl sample_universe"
  by (auto simp: collision_free_def sample_universe_def inj_on_def zero_hash_sample)

lemma sample_sel [simp]:
  "b_prev_hash sample_a = sample_hash 1" "b_prev_hash sample_b = sample_hash 1"
  "b_difficulty sample_a = 1" "b_difficulty sample_b = 3"
  "b_timestamp sample_a = 5" "b_timestamp sample_b = 7"
  "b_transactions sample_a = []" "b_transactions sample_b = []"
  by (simp_all add: sample_a_def sample_b_def)

lemma sample_members [simp]:
  "block_serialize (genesis_block sample_openssl) \<in> sample_universe"
  "block_serialize sample_a \<in> sample_universe" "block_serialize sample_b \<in> sample_universe"
  by (simp_all add: sample_universe_def)

lemma sample_sound [simp]:
  "sound_block sample_openssl sample_universe (genesis_block sample_openssl)"
  "sound_block sample_openssl sample_universe sample_a"
  "sound_block sample_openssl sample_universe sample_b"
  by (simp_all add: sound_block_def block_compute_hash_def zero_hash_def)

definition sample_bc :: Blockchain where
  "sample_bc = add_block (new_Blockchain sample_openssl) sample_a"

lemma sample_bc_inv [simp]: "chain_inv sample_openssl sample_universe sample_bc"
  unfolding sample_bc_def
  by (intro add_block_inv new_chain_inv) (simp_all add: latest_def new_Blockchain_def)

lemma sample_bc_blocks [simp]:
  "bc_blocks sample_bc = [genesis_block sample_openssl, sample_a\<lparr>b_cumulative_work := 2\<rparr>]"
  by (simp add: sample_bc_def add_block_blocks new_Blockchain_def latest_def block_work_def word_le_nat_alt)

definition sample_fork :: ForkChain where
  "sample_fork = \<lparr>fc_blocks = [sample_b], fc_common_ancestor = genesis_block sample_openssl\<rparr>"

lemma sample_fork_of [simp]: "fork_of sample_openssl sample_universe sample_bc sample_fork"
  by (simp add: fork_of_def sample_fork_def)

theorem reorganize_to_correct_witness:
  "\<exists>bc'. fst (reorganize_to sample_bc sample_fork) = bc' \<and>
    chain_inv sample_openssl sample_universe bc' \<and> b_cumulative_work (latest sample_bc) < b_cumulative_work (latest bc')"
proof -
  have "is_fork_heavier sample_bc sample_fork"
    by (simp add: is_fork_heavier_def fork_work_def sample_fork_def latest_def block_work_def)
  then show ?thesis
    using reorganize_to_correct [OF sample_bc_inv sample_fork_of] by auto
qed

theorem build_locator_correct_witness:
  "\<exists>ls. build_locator sample_bc = Inr ls \<and> hd ls = sample_hash 8 \<and> last ls = sample_hash 1 \<and> length ls \<le> 12"
  using build_locator_correct [of sample_bc 1] by (auto simp: latest_def)

theorem locator_match_common_witness:
  "\<exists>ls h. build_locator sample_bc = Inr ls \<and>
    find_locator_match (new_Blockchain sample_openssl) ls = Some h \<and> h = 0"
proof -
  have inv: "chain_inv sample_openssl sample_universe (new_Blockchain sample_openssl)"
    by (intro new_chain_inv) simp_all
  obtain ls where "build_locator sample_bc = Inr ls"
    using build_locator_facts [of sample_bc 1] by auto
  then show ?thesis
    using locator_match_common [OF sample_bc_inv inv] by (auto simp: new_Blockchain_def)
qed

end
