(* ===== verification/FC_Wire.thy ===== *)
theory FC_Wire
  imports FC_Blockchain
begin

text \<open>
  What travels between two nodes. src/src/network/Socket.cpp (exact reads and writes on a socket),
  Message.cpp (framing), Handshake.cpp, Inventory.cpp, GetBlocks.cpp and PeerAddress.cpp (payloads) with
  their headers. The operating system is a parameter: \<open>recv\<close> and \<open>send\<close> act on a state of the network.
  A loop that may wait forever is a partial function whose value is then \<open>None\<close>.
\<close>

section \<open>Sockets\<close>

datatype recv_outcome =
    Received bytes
  | Closed
  | Interrupted
  | Would_block
  | Recv_failed

type_synonym 'net recv = "'net \<Rightarrow> int \<Rightarrow> nat \<Rightarrow> 'net \<times> recv_outcome"
type_synonym 'net send = "'net \<Rightarrow> int \<Rightarrow> bytes \<Rightarrow> 'net \<times> int"

record 'net os =
  os_recv :: "'net recv"
  os_send :: "'net send"

text \<open>
  The loop of \<open>read_exact\<close>: a receive that was interrupted, and one that ran into the receive timeout
  (\<open>EAGAIN\<close>), are repeated. Callers drop the buffer when the read fails.
\<close>

partial_function (option) read_loop ::
  "'net os \<Rightarrow> 'net \<Rightarrow> int \<Rightarrow> nat \<Rightarrow> bytes \<Rightarrow> ('net \<times> bytes option) option" where
  "read_loop sys net fd len buffer =
     (if length buffer < len then
        (case os_recv sys net fd (len - length buffer) of
           (net, Closed) \<Rightarrow> Some (net, None)
         | (net, Interrupted) \<Rightarrow> read_loop sys net fd len buffer
         | (net, Would_block) \<Rightarrow> read_loop sys net fd len buffer
         | (net, Recv_failed) \<Rightarrow> Some (net, None)
         | (net, Received bs) \<Rightarrow> read_loop sys net fd len (buffer @ bs))
      else Some (net, Some buffer))"

definition read_exact :: "'net os \<Rightarrow> 'net \<Rightarrow> int \<Rightarrow> nat \<Rightarrow> ('net \<times> bytes option) option" where
  "read_exact sys net fd len = read_loop sys net fd len []"

function send_exact :: "'net os \<Rightarrow> 'net \<Rightarrow> int \<Rightarrow> bytes \<Rightarrow> 'net \<times> bool" where
  "send_exact sys net fd buffer =
     (if buffer = [] then (net, True)
      else case os_send sys net fd buffer of
             (net, n) \<Rightarrow> if n \<le> 0 then (net, False) else send_exact sys net fd (drop (nat n) buffer))"
  by pat_completeness auto
termination by (relation "measure (\<lambda>(_, _, _, buffer). length buffer)") auto

declare send_exact.simps [simp del]

section \<open>Messages\<close>

definition MAGIC_BYTES :: bytes where "MAGIC_BYTES = [0x46, 0x52, 0x47, 0x43]"
definition HEADER_LENGTH :: nat where "HEADER_LENGTH = 9"
definition MAX_PAYLOAD_SIZE :: u32 where "MAX_PAYLOAD_SIZE = 16 * 1024 * 1024"

text \<open>An \<open>enum class\<close> over \<open>uint8_t\<close> takes any byte; those without a name are \<open>Unnamed\<close>.\<close>

datatype MessageType = VERSION | INV | GETDATA | BLOCK | TX | GETBLOCKS | PING | PONG | PEERS | Unnamed u8

fun type_byte :: "MessageType \<Rightarrow> u8" where
  "type_byte VERSION = 0x00"
| "type_byte INV = 0x01"
| "type_byte GETDATA = 0x02"
| "type_byte BLOCK = 0x03"
| "type_byte TX = 0x04"
| "type_byte GETBLOCKS = 0x05"
| "type_byte PING = 0x06"
| "type_byte PONG = 0x07"
| "type_byte PEERS = 0x08"
| "type_byte (Unnamed b) = b"

definition byte_type :: "u8 \<Rightarrow> MessageType" where
  "byte_type b =
     (if b = 0x00 then VERSION else if b = 0x01 then INV else if b = 0x02 then GETDATA
      else if b = 0x03 then BLOCK else if b = 0x04 then TX else if b = 0x05 then GETBLOCKS
      else if b = 0x06 then PING else if b = 0x07 then PONG else if b = 0x08 then PEERS else Unnamed b)"

record Message =
  msg_type :: MessageType
  msg_payload :: bytes

definition message_header :: "Message \<Rightarrow> bytes" where
  "message_header message =
     MAGIC_BYTES @ [type_byte (msg_type message)] @ size_le (length (msg_payload message))"

definition send_message :: "'net os \<Rightarrow> 'net \<Rightarrow> int \<Rightarrow> Message \<Rightarrow> 'net \<times> bool" where
  "send_message sys net fd message =
     (if (word_of_nat (length (msg_payload message)) :: u32) > MAX_PAYLOAD_SIZE then (net, False)
      else case send_exact sys net fd (message_header message) of
             (net, ok) \<Rightarrow> if \<not> ok then (net, False) else send_exact sys net fd (msg_payload message))"

definition receive_message :: "'net os \<Rightarrow> 'net \<Rightarrow> int \<Rightarrow> ('net \<times> Message option) option" where
  "receive_message sys net fd = do {
     (net, header) \<leftarrow> read_exact sys net fd HEADER_LENGTH;
     case header of
       None \<Rightarrow> Some (net, None)
     | Some header_buffer \<Rightarrow>
         if take 4 header_buffer \<noteq> MAGIC_BYTES then Some (net, None)
         else
           let type = byte_type (header_buffer ! 4);
               len = (word_of_nat (le_nat (take 4 (drop 5 header_buffer))) :: u32)
           in if len > MAX_PAYLOAD_SIZE then Some (net, None)
              else do {
                (net, payload) \<leftarrow> read_exact sys net fd (unat len);
                Some (net, map_option (\<lambda>p. \<lparr>msg_type = type, msg_payload = p\<rparr>) payload)
              }
   }"

section \<open>Handshake\<close>

record VersionInfo =
  vi_protocol_version :: u32
  vi_chain_height :: u64
  vi_timestamp :: u64
  vi_listen_port :: u16
  vi_node_id :: u64

definition kExpectedVersionPayloadSize :: nat where "kExpectedVersionPayloadSize = 4 + 8 + 8 + 2 + 8"

definition serialize_version :: "VersionInfo \<Rightarrow> bytes" where
  "serialize_version info =
     u32_le (vi_protocol_version info) @ u64_le (vi_chain_height info) @ u64_le (vi_timestamp info) @
     u16_le (vi_listen_port info) @ u64_le (vi_node_id info)"

text \<open>The caller has checked the size; bytes past the end would be undefined behaviour.\<close>

definition deserialize_version :: "bytes \<Rightarrow> VersionInfo result" where
  "deserialize_version payload =
     (if length payload < kExpectedVersionPayloadSize then Inl Undefined_behaviour
      else Inr \<lparr>vi_protocol_version = word_of_nat (le_nat (take 4 payload)),
                vi_chain_height = word_of_nat (le_nat (take 8 (drop 4 payload))),
                vi_timestamp = word_of_nat (le_nat (take 8 (drop 12 payload))),
                vi_listen_port = word_of_nat (le_nat (take 2 (drop 20 payload))),
                vi_node_id = word_of_nat (le_nat (take 8 (drop 22 payload)))\<rparr>)"

definition perform_handshake ::
  "'net os \<Rightarrow> 'net \<Rightarrow> int \<Rightarrow> VersionInfo \<Rightarrow> ('net \<times> VersionInfo option result) option" where
  "perform_handshake sys net fd info =
     (case send_message sys net fd \<lparr>msg_type = VERSION, msg_payload = serialize_version info\<rparr> of
        (net, False) \<Rightarrow> Some (net, Inr None)
      | (net, True) \<Rightarrow> do {
          (net, incoming) \<leftarrow> receive_message sys net fd;
          case incoming of
            None \<Rightarrow> Some (net, Inr None)
          | Some incoming_msg \<Rightarrow>
              if msg_type incoming_msg \<noteq> VERSION then Some (net, Inr None)
              else if length (msg_payload incoming_msg) \<noteq> kExpectedVersionPayloadSize then Some (net, Inr None)
              else Some (net, bindE (deserialize_version (msg_payload incoming_msg)) (\<lambda>info. Inr (Some info)))
        })"

section \<open>Inventories\<close>

datatype InventoryItemType = Inv_block | Inv_transaction

record InventoryItem =
  ii_type :: InventoryItemType
  ii_hash :: HashBytes

definition kInventoryItemSize :: nat where "kInventoryItemSize = 1 + 32"

fun item_byte :: "InventoryItemType \<Rightarrow> u8" where
  "item_byte Inv_block = 0"
| "item_byte Inv_transaction = 1"

definition serialize_inventory :: "InventoryItem list \<Rightarrow> bytes" where
  "serialize_inventory items =
     size_le (length items) @ concat (map (\<lambda>item. item_byte (ii_type item) # ii_hash item) items)"

fun inventory_items :: "bytes \<Rightarrow> nat \<Rightarrow> nat \<Rightarrow> InventoryItem list option" where
  "inventory_items payload i 0 = Some []"
| "inventory_items payload i (Suc k) =
     (let offset = 4 + i * kInventoryItemSize; type = payload ! offset in
      if type \<noteq> 0 \<and> type \<noteq> 1 then None
      else do {
        items \<leftarrow> inventory_items payload (i + 1) k;
        Some (\<lparr>ii_type = (if type = 0 then Inv_block else Inv_transaction),
               ii_hash = take 32 (drop (offset + 1) payload)\<rparr> # items)
      })"

definition deserialize_inventory :: "bytes \<Rightarrow> InventoryItem list option" where
  "deserialize_inventory payload =
     (if length payload < 4 then None
      else
        let count = (word_of_nat (le_nat (take 4 payload)) :: u32) in
        if length payload \<noteq> 4 + unat count * kInventoryItemSize then None
        else inventory_items payload 0 (unat count))"

section \<open>Block requests\<close>

definition kMaxLocatorHashes :: u32 where "kMaxLocatorHashes = 1028"

definition serialize_getblocks :: "HashBytes list \<Rightarrow> bytes" where
  "serialize_getblocks locator = size_le (length locator) @ concat locator"

fun locator_hashes :: "bytes \<Rightarrow> nat \<Rightarrow> nat \<Rightarrow> HashBytes list" where
  "locator_hashes payload offset 0 = []"
| "locator_hashes payload offset (Suc k) =
     take 32 (drop offset payload) # locator_hashes payload (offset + 32) k"

definition deserialize_getblocks :: "bytes \<Rightarrow> HashBytes list option" where
  "deserialize_getblocks payload =
     (if length payload < 4 then None
      else
        let count = (word_of_nat (le_nat (take 4 payload)) :: u32) in
        if count > kMaxLocatorHashes then None
        else if length payload \<noteq> unat count * 32 + 4 then None
        else Some (locator_hashes payload 4 (unat count)))"

section \<open>Peer addresses\<close>

record PeerAddress =
  pa_host :: str
  pa_port :: u16

definition serialize_peer_address :: "PeerAddress \<Rightarrow> bytes" where
  "serialize_peer_address peer_address =
     u16_le (pa_port peer_address) @ size_le (length (pa_host peer_address)) @ str_bytes (pa_host peer_address)"

definition deserialize_peer_address :: "bytes \<Rightarrow> PeerAddress option" where
  "deserialize_peer_address payload = do {
     (port, off) \<leftarrow> read_u16 payload 0;
     (len, off) \<leftarrow> read_u32 payload off;
     (host, off) \<leftarrow> read_bytes (unat len) payload off;
     if off \<noteq> length payload then None
     else Some \<lparr>pa_host = bytes_str host, pa_port = port\<rparr>
   }"

definition serialize_peer_list :: "PeerAddress list \<Rightarrow> bytes" where
  "serialize_peer_list addresses =
     size_le (length addresses) @ concat (map (frame \<circ> serialize_peer_address) addresses)"

text \<open>
  The entries after the count. \<open>reserve\<close> is called with the count the peer sent, before any entry is
  checked; \<open>can_reserve n\<close> says whether the allocator has room for \<open>n\<close> addresses.
\<close>

definition peer_entries :: "bytes \<Rightarrow> PeerAddress list option" where
  "peer_entries payload = do {
     (count, off) \<leftarrow> read_u32 payload 0;
     (addresses, off) \<leftarrow> read_framed deserialize_peer_address (unat count) payload off;
     if length payload \<noteq> off then None else Some addresses
   }"

definition deserialize_peer_list :: "(nat \<Rightarrow> bool) \<Rightarrow> bytes \<Rightarrow> PeerAddress list option result" where
  "deserialize_peer_list can_reserve payload =
     (case read_u32 payload 0 of
        None \<Rightarrow> Inr None
      | Some (n, _) \<Rightarrow>
          if \<not> can_reserve (unat n) then Inl Bad_alloc else Inr (peer_entries payload))"

section \<open>Payload codecs\<close>

lemma byte_type_byte [simp]: "type_byte (byte_type b) = b"
  by (simp add: byte_type_def)

definition named_type :: "MessageType \<Rightarrow> bool" where
  "named_type t \<longleftrightarrow> (case t of Unnamed b \<Rightarrow> 8 < b | _ \<Rightarrow> True)"

lemma type_byte_type [simp]: "named_type t \<Longrightarrow> byte_type (type_byte t) = t"
  by (cases t) (auto simp: byte_type_def named_type_def)

text \<open>Version: exactly thirty bytes.\<close>

lemma length_serialize_version [simp, codec_simps]: "length (serialize_version info) = 30"
  by (simp add: serialize_version_def)

lemma deserialize_serialize_version: "deserialize_version (serialize_version info) = Inr info"
  by (simp add: deserialize_version_def serialize_version_def kExpectedVersionPayloadSize_def)

lemma serialize_deserialize_version:
  assumes "length p = 30" and "deserialize_version p = Inr info"
  shows "serialize_version info = p"
proof -
  have "p = take 4 p @ take 8 (drop 4 p) @ take 8 (drop 12 p) @ take 2 (drop 20 p) @ take 8 (drop 22 p)"
    using assms(1) append_take_drop_id [of 4 p] append_take_drop_id [of 8 "drop 4 p"]
      append_take_drop_id [of 8 "drop 12 p"] append_take_drop_id [of 2 "drop 20 p"] by simp
  moreover have "serialize_version info =
      take 4 p @ take 8 (drop 4 p) @ take 8 (drop 12 p) @ take 2 (drop 20 p) @ take 8 (drop 22 p)"
    using assms by (auto simp: deserialize_version_def serialize_version_def kExpectedVersionPayloadSize_def ints_le)
  ultimately show ?thesis by simp
qed

definition version_of :: "bytes \<Rightarrow> VersionInfo option" where
  "version_of p = (if length p \<noteq> kExpectedVersionPayloadSize then None
     else case deserialize_version p of Inl _ \<Rightarrow> None | Inr info \<Rightarrow> Some info)"

interpretation version_codec: codec serialize_version version_of "\<lambda>_. True"
  by unfold_locales
    (auto simp: version_of_def kExpectedVersionPayloadSize_def deserialize_serialize_version
      serialize_deserialize_version split: if_splits sum.splits)

text \<open>Inventories: a count and that many items of 33 bytes.\<close>

abbreviation item_bytes :: "InventoryItem \<Rightarrow> bytes" where
  "item_bytes item \<equiv> item_byte (ii_type item) # ii_hash item"

definition wf_inventory :: "InventoryItem list \<Rightarrow> bool" where
  "wf_inventory items \<longleftrightarrow> length items < 2 ^ 32 \<and> (\<forall>item\<in>set items. length (ii_hash item) = 32)"

lemma length_item_bytes:
  "\<forall>item\<in>set items. length (ii_hash item) = 32 \<Longrightarrow> length (concat (map item_bytes items)) = 33 * length items"
  by (induction items) auto

lemma inventory_items_ser:
  assumes "\<forall>item\<in>set items. length (ii_hash item) = 32"
    and "payload = pre @ concat (map item_bytes items)" and "length pre = 4 + i * 33"
  shows "inventory_items payload i (length items) = Some items"
  using assms
proof (induction items arbitrary: pre i)
  case (Cons item items)
  let ?rest = "concat (map item_bytes items)"
  have "payload = (pre @ item_bytes item) @ ?rest" "length (pre @ item_bytes item) = 4 + (i + 1) * 33"
    using Cons.prems by simp_all
  from Cons.IH [OF _ this] Cons.prems(1)
  have IH: "inventory_items payload (Suc i) (length items) = Some items" by simp
  have t: "payload ! (4 + i * 33) = item_byte (ii_type item)"
    and h: "take 32 (drop (5 + i * 33) payload) = ii_hash item"
    using Cons.prems by (simp_all add: nth_append)
  have "(if item_byte (ii_type item) = 0 then Inv_block else Inv_transaction) = ii_type item"
    by (cases "ii_type item") simp_all
  moreover have "item_byte (ii_type item) = 0 \<or> item_byte (ii_type item) = 1"
    by (cases "ii_type item") simp_all
  ultimately show ?case using t h IH by (simp add: kInventoryItemSize_def Let_def)
qed simp

lemma inventory_items_sound:
  assumes "inventory_items payload i k = Some items" and "length payload = 4 + (i + k) * 33"
  shows "concat (map item_bytes items) = drop (4 + i * 33) payload \<and> length items = k \<and>
    (\<forall>item\<in>set items. length (ii_hash item) = 32)"
  using assms
proof (induction k arbitrary: i items)
  case (Suc k)
  let ?o = "4 + i * 33"
  have o: "?o < length payload" using Suc.prems(2) by simp
  from Suc.prems(1) obtain its where t: "payload ! ?o = 0 \<or> payload ! ?o = 1"
    and its: "inventory_items payload (i + 1) k = Some its"
    and items: "items = \<lparr>ii_type = (if payload ! ?o = 0 then Inv_block else Inv_transaction),
      ii_hash = take 32 (drop (?o + 1) payload)\<rparr> # its"
    by (auto simp: kInventoryItemSize_def Let_def bind_eq_Some_conv split: if_splits)
  have IH: "concat (map item_bytes its) = drop (4 + (i + 1) * 33) payload \<and> length its = k \<and>
      (\<forall>item\<in>set its. length (ii_hash item) = 32)"
    using Suc.prems(2) by (intro Suc.IH [OF its]) simp
  have "drop ?o payload = payload ! ?o # drop (Suc ?o) payload" using o by (rule Cons_nth_drop_Suc [symmetric])
  also have "drop (Suc ?o) payload = take 32 (drop (Suc ?o) payload) @ drop (4 + (i + 1) * 33) payload"
    using append_take_drop_id [of 32 "drop (Suc ?o) payload"] by (simp add: add.commute)
  finally have d: "drop ?o payload = payload ! ?o # take 32 (drop (Suc ?o) payload) @ drop (4 + (i + 1) * 33) payload" .
  have b: "item_byte (if payload ! ?o = 0 then Inv_block else Inv_transaction) = payload ! ?o" using t by auto
  have l: "length (take 32 (drop (Suc ?o) payload)) = 32" using Suc.prems(2) by simp
  show ?case unfolding items d list.map concat.simps InventoryItem.select_convs b
    using IH l by simp
qed simp

lemma take_size_le: "take 4 (size_le n @ xs) = size_le n" by simp

lemma word_le_size: "word_of_nat (le_nat (size_le n)) = (word_of_nat n :: u32)"
  by (simp add: size_le_def)

lemma size_le_take:
  "4 \<le> length p \<Longrightarrow> size_le (unat (word_of_nat (le_nat (take 4 p)) :: u32)) = take 4 p"
  by (simp add: ints_le)

lemma deserialize_serialize_inventory:
  assumes "wf_inventory items"
  shows "deserialize_inventory (serialize_inventory items) = Some items"
proof -
  let ?c = "concat (map item_bytes items)"
  have wf: "length items < 2 ^ 32" "\<forall>item\<in>set items. length (ii_hash item) = 32"
    using assms by (simp_all add: wf_inventory_def)
  have i: "inventory_items (size_le (length items) @ ?c) 0 (length items) = Some items"
    by (rule inventory_items_ser [OF wf(2) refl]) simp
  have n: "unat (word_of_nat (le_nat (take 4 (size_le (length items) @ ?c))) :: u32) = length items"
    using wf(1) by (simp only: take_size_le word_le_size unat_size)
  have "length (size_le (length items) @ ?c) = 4 + length items * kInventoryItemSize"
    using length_item_bytes [OF wf(2)] by (simp add: kInventoryItemSize_def)
  then show ?thesis unfolding deserialize_inventory_def serialize_inventory_def Let_def n using i by simp
qed

lemma deserialize_inventory_sound:
  assumes "deserialize_inventory p = Some items"
  shows "wf_inventory items \<and> serialize_inventory items = p"
proof -
  define n :: u32 where "n = word_of_nat (le_nat (take 4 p))"
  have "deserialize_inventory p = (if length p < 4 then None
      else if length p \<noteq> 4 + unat n * kInventoryItemSize then None else inventory_items p 0 (unat n))"
    unfolding deserialize_inventory_def Let_def n_def ..
  with assms have l: "4 \<le> length p" "length p = 4 + unat n * 33" and i: "inventory_items p 0 (unat n) = Some items"
    by (simp_all add: kInventoryItemSize_def split: if_splits)
  have "length p = 4 + (0 + unat n) * 33" using l(2) by simp
  from inventory_items_sound [OF i this]
  have s: "concat (map item_bytes items) = drop 4 p" "length items = unat n"
    "\<forall>item\<in>set items. length (ii_hash item) = 32" by simp_all
  have "size_le (unat n) = take 4 p" unfolding n_def by (rule size_le_take [OF l(1)])
  then have "serialize_inventory items = p" unfolding serialize_inventory_def s(1,2) by simp
  then show ?thesis using s(2,3) unat_u32_less [of n] by (simp add: wf_inventory_def)
qed

interpretation inventory_codec: codec serialize_inventory deserialize_inventory wf_inventory
  by unfold_locales (simp_all add: deserialize_serialize_inventory deserialize_inventory_sound)

text \<open>Block requests: a count and that many hashes, at most 1028.\<close>

definition wf_getblocks :: "HashBytes list \<Rightarrow> bool" where
  "wf_getblocks locator \<longleftrightarrow> length locator \<le> 1028 \<and> (\<forall>h\<in>set locator. length h = 32)"

lemma length_concat_hashes: "\<forall>h\<in>set hs. length h = 32 \<Longrightarrow> length (concat hs) = 32 * length hs"
  by (induction hs) auto

lemma locator_hashes_ser:
  "\<forall>h\<in>set hs. length h = 32 \<Longrightarrow> locator_hashes (pre @ concat hs) (length pre) (length hs) = hs"
proof (induction hs arbitrary: pre)
  case (Cons h hs)
  then show ?case using Cons.IH [of "pre @ h"] by simp
qed simp

lemma locator_hashes_sound:
  "length payload = offset + k * 32 \<Longrightarrow> concat (locator_hashes payload offset k) = drop offset payload \<and>
     length (locator_hashes payload offset k) = k \<and> (\<forall>h\<in>set (locator_hashes payload offset k). length h = 32)"
proof (induction k arbitrary: offset)
  case (Suc k)
  have "drop offset payload = take 32 (drop offset payload) @ drop (offset + 32) payload"
    using append_take_drop_id [of 32 "drop offset payload"] by (simp add: add.commute)
  then show ?case using Suc.IH [of "offset + 32"] Suc.prems by simp
qed simp

lemma deserialize_serialize_getblocks:
  assumes "wf_getblocks hs"
  shows "deserialize_getblocks (serialize_getblocks hs) = Some hs"
proof -
  have wf: "length hs \<le> 1028" "\<forall>h\<in>set hs. length h = 32" using assms by (simp_all add: wf_getblocks_def)
  then have n: "unat (word_of_nat (le_nat (take 4 (size_le (length hs) @ concat hs))) :: u32) = length hs"
    by (simp only: take_size_le word_le_size) simp
  have l: "locator_hashes (size_le (length hs) @ concat hs) 4 (length hs) = hs"
    using locator_hashes_ser [OF wf(2), of "size_le (length hs)"] by simp
  have "length (size_le (length hs) @ concat hs) = length hs * 32 + 4"
    using length_concat_hashes [OF wf(2)] by simp
  then show ?thesis
    unfolding deserialize_getblocks_def serialize_getblocks_def Let_def word_less_nat_alt n
    using l wf(1) by (simp add: kMaxLocatorHashes_def)
qed

lemma deserialize_getblocks_sound:
  assumes "deserialize_getblocks p = Some hs"
  shows "wf_getblocks hs \<and> serialize_getblocks hs = p"
proof -
  define n :: u32 where "n = word_of_nat (le_nat (take 4 p))"
  have d: "deserialize_getblocks p = (if length p < 4 then None else if n > kMaxLocatorHashes then None
      else if length p \<noteq> unat n * 32 + 4 then None else Some (locator_hashes p 4 (unat n)))"
    unfolding deserialize_getblocks_def Let_def n_def ..
  have l: "4 \<le> length p" "length p = 4 + unat n * 32" "unat n \<le> 1028" and hs: "hs = locator_hashes p 4 (unat n)"
    using assms d by (simp_all add: kMaxLocatorHashes_def word_less_nat_alt split: if_splits)
  from locator_hashes_sound [OF l(2)] hs
  have s: "concat hs = drop 4 p" "length hs = unat n" "\<forall>h\<in>set hs. length h = 32" by simp_all
  have "size_le (unat n) = take 4 p" unfolding n_def by (rule size_le_take [OF l(1)])
  then have "serialize_getblocks hs = p" unfolding serialize_getblocks_def s(1,2) by simp
  then show ?thesis using s(2,3) l(3) by (simp add: wf_getblocks_def)
qed

interpretation getblocks_codec: codec serialize_getblocks deserialize_getblocks wf_getblocks
  by unfold_locales (simp_all add: deserialize_serialize_getblocks deserialize_getblocks_sound)

text \<open>Peer addresses and lists of them.\<close>

definition wf_address :: "PeerAddress \<Rightarrow> bool" where
  "wf_address a \<longleftrightarrow> length (pa_host a) < 2 ^ 32"

lemma length_serialize_peer_address [codec_simps]: "length (serialize_peer_address a) = 6 + length (pa_host a)"
  by (simp add: serialize_peer_address_def)

lemma deserialize_serialize_peer_address:
  assumes "wf_address a"
  shows "deserialize_peer_address (serialize_peer_address a) = Some a"
proof -
  let ?p = "serialize_peer_address a"
  have c: "at_cursor ?p 0 (u16_le (pa_port a) @ size_le (length (pa_host a)) @ str_bytes (pa_host a) @ [])"
    using at_cursor_start [of ?p] by (simp add: serialize_peer_address_def)
  note c1 = at_cursor_ints(1) [OF c]
  note c2 = at_cursor_ints(4) [OF c1]
  note c3 = at_cursor_step [OF c2 refl]
  show ?thesis
    using assms read_ints_at(1) [OF c] read_size_at [OF c1] read_bytes_at [OF c2 refl] at_cursor_end [OF c3]
    by (simp add: deserialize_peer_address_def wf_address_def)
qed

lemma deserialize_peer_address_sound:
  "deserialize_peer_address p = Some a \<Longrightarrow> wf_address a \<and> serialize_peer_address a = p"
  using unat_u32_less
  by (auto simp: deserialize_peer_address_def wf_address_def serialize_peer_address_def bind_eq_Some_conv
      split: if_splits dest!: read_Some)

interpretation address_codec: codec serialize_peer_address deserialize_peer_address wf_address
  by unfold_locales (simp_all add: deserialize_serialize_peer_address deserialize_peer_address_sound)

definition wf_peer_list :: "PeerAddress list \<Rightarrow> bool" where
  "wf_peer_list as \<longleftrightarrow> length as < 2 ^ 32 \<and>
     (\<forall>a\<in>set as. wf_address a \<and> length (serialize_peer_address a) < 2 ^ 32)"

interpretation peers_codec: codec serialize_peer_list peer_entries wf_peer_list
proof
  fix as assume wf: "wf_peer_list as"
  let ?p = "serialize_peer_list as"
  have c: "at_cursor ?p 0 (size_le (length as) @ concat (map (frame \<circ> serialize_peer_address) as) @ [])"
    using at_cursor_start [of ?p] by (simp add: serialize_peer_list_def)
  note c1 = at_cursor_ints(4) [OF c]
  obtain off where "read_framed deserialize_peer_address (length as) ?p (0 + 4) = Some (as, off)" "at_cursor ?p off []"
    using address_codec.read_framed_at [OF _ c1] wf by (auto simp: wf_peer_list_def)
  then show "peer_entries ?p = Some as"
    using wf read_size_at [OF c] at_cursor_end by (simp add: peer_entries_def wf_peer_list_def)
next
  fix p as assume "peer_entries p = Some as"
  then obtain n off off' where r: "read_u32 p 0 = Some (n, off)"
    and f: "read_framed deserialize_peer_address (unat n) p off = Some (as, off')" and e: "off' = length p"
    by (auto simp: peer_entries_def bind_eq_Some_conv split: if_splits)
  note r = read_u32_Some [OF r]
  have fs: "length as = unat n" "\<forall>a\<in>set as. wf_address a \<and> length (serialize_peer_address a) < 2 ^ 32"
    "take off' p = take off p @ concat (map (frame \<circ> serialize_peer_address) as)"
    using address_codec.read_framed_Some [OF f] r by blast+
  have t: "take off p = size_le (length as)" using r fs(1) by auto
  have "serialize_peer_list as = p" using fs(3) unfolding serialize_peer_list_def t e by simp
  then show "wf_peer_list as \<and> serialize_peer_list as = p"
    using fs(1,2) unat_u32_less [of n] by (simp add: wf_peer_list_def)
qed

section \<open>What the network promises\<close>

text \<open>
  A view of the network: the bytes still to be received on a socket, how often receiving may be
  interrupted or time out before the next of them arrives, and the bytes sent so far. While bytes are
  on their way a receive delivers some of them in order or is interrupted; a send takes a prefix.
\<close>

record 'net net_view =
  nv_in :: "'net \<Rightarrow> int \<Rightarrow> bytes"
  nv_pause :: "'net \<Rightarrow> int \<Rightarrow> nat"
  nv_out :: "'net \<Rightarrow> int \<Rightarrow> bytes"

definition recv_laws :: "'net os \<Rightarrow> 'net net_view \<Rightarrow> bool" where
  "recv_laws sys V \<longleftrightarrow> (\<forall>net fd n. 0 < n \<longrightarrow> nv_in V net fd \<noteq> [] \<longrightarrow>
     (case os_recv sys net fd n of
        (net', Received bs) \<Rightarrow> bs \<noteq> [] \<and> length bs \<le> n \<and> nv_in V net fd = bs @ nv_in V net' fd
      | (net', Interrupted) \<Rightarrow> nv_in V net' fd = nv_in V net fd \<and> nv_pause V net' fd < nv_pause V net fd
      | (net', Would_block) \<Rightarrow> nv_in V net' fd = nv_in V net fd \<and> nv_pause V net' fd < nv_pause V net fd
      | _ \<Rightarrow> False))"

definition send_laws :: "'net os \<Rightarrow> 'net net_view \<Rightarrow> bool" where
  "send_laws sys V \<longleftrightarrow> (\<forall>net fd bs. case os_send sys net fd bs of (net', n) \<Rightarrow>
     0 < n \<longrightarrow> nat n \<le> length bs \<and> nv_out V net' fd = nv_out V net fd @ take (nat n) bs)"

lemma recv_laws_cases:
  assumes "recv_laws sys V" and "0 < n" and "nv_in V net fd \<noteq> []"
  obtains (got) net' bs where "os_recv sys net fd n = (net', Received bs)" "bs \<noteq> []" "length bs \<le> n"
    "nv_in V net fd = bs @ nv_in V net' fd"
  | (again) net' out where "os_recv sys net fd n = (net', out)" "out = Interrupted \<or> out = Would_block"
    "nv_in V net' fd = nv_in V net fd" "nv_pause V net' fd < nv_pause V net fd"
proof -
  obtain net' out where r: "os_recv sys net fd n = (net', out)" by fastforce
  note l = assms(1) [unfolded recv_laws_def, rule_format, OF assms(2,3), unfolded r prod.case]
  show ?thesis using l r by (cases out) (auto intro: got again)
qed

lemma read_loop_ok:
  assumes "recv_laws sys V" and "nv_in V net fd = xs @ rest" and "length buffer + length xs = len"
  shows "\<exists>net'. read_loop sys net fd len buffer = Some (net', Some (buffer @ xs)) \<and> nv_in V net' fd = rest"
  using assms(2,3)
proof (induction "(length xs, nv_pause V net fd)" arbitrary: net xs buffer
    rule: wf_induct_rule [OF wf_lex_prod [OF wf_less_than wf_less_than]])
  case 1
  show ?case
  proof (cases "xs = []")
    case True
    then show ?thesis using 1(2,3) by (subst read_loop.simps) simp
  next
    case False
    then have n: "0 < len - length buffer" and ne: "nv_in V net fd \<noteq> []" using 1(2,3) by auto
    from assms(1) n ne show ?thesis
    proof (cases rule: recv_laws_cases)
      case (got net' bs)
      then obtain ys where ys: "xs = bs @ ys" "nv_in V net' fd = ys @ rest"
        using 1(2,3) by (auto simp: append_eq_append_conv2)
      have "\<exists>net''. read_loop sys net' fd len (buffer @ bs) = Some (net'', Some ((buffer @ bs) @ ys)) \<and>
          nv_in V net'' fd = rest"
        by (rule 1(1)) (use got(2) ys 1(3) in auto)
      with got(1) n ys(1) show ?thesis by (subst read_loop.simps) simp
    next
      case (again net' out)
      have "\<exists>net''. read_loop sys net' fd len buffer = Some (net'', Some (buffer @ xs)) \<and> nv_in V net'' fd = rest"
        by (rule 1(1)) (use again 1(2,3) in auto)
      with again(1,2) n show ?thesis by (subst read_loop.simps) auto
    qed
  qed
qed

lemma read_exact_ok:
  assumes "recv_laws sys V" and "nv_in V net fd = xs @ rest" and "length xs = len"
  shows "\<exists>net'. read_exact sys net fd len = Some (net', Some xs) \<and> nv_in V net' fd = rest"
  unfolding read_exact_def using read_loop_ok [OF assms(1,2), of "[]" len] assms(3) by simp

lemma send_exact_ok:
  assumes "send_laws sys V" and "send_exact sys net fd buffer = (net', True)"
  shows "nv_out V net' fd = nv_out V net fd @ buffer"
  using assms
proof (induction sys net fd buffer rule: send_exact.induct)
  case (1 sys net fd buffer)
  show ?case
  proof (cases "buffer = []")
    case False
    obtain net1 n where s: "os_send sys net fd buffer = (net1, n)" by fastforce
    with 1(3) False have n: "0 < n" and r: "send_exact sys net1 fd (drop (nat n) buffer) = (net', True)"
      by (auto simp: send_exact.simps [of sys net] split: if_splits)
    have "nv_out V net1 fd = nv_out V net fd @ take (nat n) buffer"
      using 1(2) s n unfolding send_laws_def by (metis (mono_tags, lifting) case_prod_conv)
    moreover have "nv_out V net' fd = nv_out V net1 fd @ drop (nat n) buffer"
      by (rule 1(1) [OF False s [symmetric] _ 1(2) r]) (use n in simp)
    ultimately show ?thesis by simp
  qed (use 1(3) in \<open>simp add: send_exact.simps [of sys net]\<close>)
qed

section \<open>Framing\<close>

definition wf_message :: "Message \<Rightarrow> bool" where
  "wf_message m \<longleftrightarrow> named_type (msg_type m) \<and> length (msg_payload m) \<le> unat MAX_PAYLOAD_SIZE"

lemma length_message_header [simp]: "length (message_header m) = HEADER_LENGTH"
  by (simp add: message_header_def MAGIC_BYTES_def HEADER_LENGTH_def)

lemma header_fields:
  "take 4 (message_header m) = MAGIC_BYTES" "message_header m ! 4 = type_byte (msg_type m)"
  "take 4 (drop 5 (message_header m)) = size_le (length (msg_payload m))"
  by (simp_all add: message_header_def MAGIC_BYTES_def)

lemma payload_fits: "n \<le> unat MAX_PAYLOAD_SIZE \<Longrightarrow> unat (word_of_nat n :: u32) = n \<and> \<not> MAX_PAYLOAD_SIZE < word_of_nat n"
  by (simp add: MAX_PAYLOAD_SIZE_def word_less_nat_alt)

lemma receive_message_ok:
  assumes "recv_laws sys V" and "wf_message m"
    and "nv_in V net fd = message_header m @ msg_payload m @ rest"
  shows "\<exists>net'. receive_message sys net fd = Some (net', Some m) \<and> nv_in V net' fd = rest"
proof -
  have m: "named_type (msg_type m)" "length (msg_payload m) \<le> unat MAX_PAYLOAD_SIZE"
    using assms(2) by (simp_all add: wf_message_def)
  note f = payload_fits [OF m(2)]
  obtain net1 where n1: "read_exact sys net fd HEADER_LENGTH = Some (net1, Some (message_header m))"
    "nv_in V net1 fd = msg_payload m @ rest"
    using read_exact_ok [OF assms(1,3) length_message_header] by auto
  obtain net2 where n2: "read_exact sys net1 fd (length (msg_payload m)) = Some (net2, Some (msg_payload m))"
    "nv_in V net2 fd = rest"
    using read_exact_ok [OF assms(1) n1(2) refl] by auto
  have "receive_message sys net fd = Some (net2, Some m)"
    unfolding receive_message_def n1(1) header_fields word_le_size Let_def
    using f m(1) n2(1) by (simp add: header_fields word_le_size)
  then show ?thesis using n2(2) by blast
qed

lemma send_message_ok:
  assumes "send_laws sys V" and "send_message sys net fd m = (net', True)"
  shows "nv_out V net' fd = nv_out V net fd @ message_header m @ msg_payload m"
proof -
  obtain net1 ok where s: "send_exact sys net fd (message_header m) = (net1, ok)" by fastforce
  with assms(2) have "ok" and r: "send_exact sys net1 fd (msg_payload m) = (net', True)"
    by (auto simp: send_message_def split: if_splits)
  with send_exact_ok [OF assms(1)] s show ?thesis by fastforce
qed

lemma read_loop_silent:
  assumes "\<And>net n. snd (os_recv sys net fd n) \<in> {Interrupted, Would_block}" and "length buffer < len"
  shows "read_loop sys net fd len buffer = None"
proof -
  have "(\<forall>net n. snd (os_recv sys net fd n) \<in> {Interrupted, Would_block}) \<longrightarrow> \<not> length buffer < len"
    if e: "read_loop sys net fd len buffer = Some y" for y
  proof (rule read_loop.raw_induct [where P = "\<lambda>sys net fd len buffer y.
        (\<forall>net n. snd (os_recv sys net fd n) \<in> {Interrupted, Would_block}) \<longrightarrow> \<not> length buffer < len", OF _ e],
      intro impI notI)
    fix rl and sys :: "'a os" and net fd len buffer y
    assume IH: "\<And>sys net fd len buffer y. rl sys net fd len buffer = Some y \<Longrightarrow>
        (\<forall>net n. snd (os_recv sys net fd n) \<in> {Interrupted, Would_block}) \<longrightarrow> \<not> length buffer < len"
      and step: "(if length buffer < len
         then case os_recv sys net fd (len - length buffer) of
           (net, Received bs) \<Rightarrow> rl sys net fd len (buffer @ bs)
         | (net, Closed) \<Rightarrow> Some (net, None) | (net, Recv_failed) \<Rightarrow> Some (net, None)
         | (net, _) \<Rightarrow> rl sys net fd len buffer
         else Some (net, Some buffer)) = Some y"
      and silent: "\<forall>net n. snd (os_recv sys net fd n) \<in> {Interrupted, Would_block}" and l: "length buffer < len"
    obtain net1 out where r: "os_recv sys net fd (len - length buffer) = (net1, out)" by fastforce
    then have "out = Interrupted \<or> out = Would_block"
      using silent [rule_format, of net "len - length buffer"] by simp
    then have "rl sys net1 fd len buffer = Some y" using step l r by auto
    then show False using IH silent l by blast
  qed
  then show ?thesis using assms by (cases "read_loop sys net fd len buffer") auto
qed

section \<open>A network in memory\<close>

text \<open>Every socket has a list of deliveries to come, \<open>None\<close> a timeout, and what was sent on it.\<close>

record mem_net =
  mn_in :: "int \<Rightarrow> bytes option list"
  mn_out :: "int \<Rightarrow> bytes"

fun deliver :: "nat \<Rightarrow> bytes option list \<Rightarrow> bytes option list \<times> recv_outcome" where
  "deliver n [] = ([], Closed)"
| "deliver n (None # ds) = (ds, Would_block)"
| "deliver n (Some bs # ds) =
     (if bs = [] then (ds, Interrupted)
      else if length bs \<le> n then (ds, Received bs) else (Some (drop n bs) # ds, Received (take n bs)))"

definition mem_os :: "mem_net os" where
  "mem_os = \<lparr>os_recv = (\<lambda>net fd n. case deliver n (mn_in net fd) of
       (ds, out) \<Rightarrow> (net\<lparr>mn_in := (mn_in net)(fd := ds)\<rparr>, out)),
     os_send = (\<lambda>net fd bs. (net\<lparr>mn_out := (mn_out net)(fd := mn_out net fd @ bs)\<rparr>, int (length bs)))\<rparr>"

definition mem_net_view :: "mem_net net_view" where
  "mem_net_view = \<lparr>nv_in = (\<lambda>net fd. concat (map (\<lambda>d. case d of None \<Rightarrow> [] | Some bs \<Rightarrow> bs) (mn_in net fd))),
     nv_pause = (\<lambda>net fd. length (mn_in net fd)), nv_out = mn_out\<rparr>"

lemma mem_recv_laws [simp]: "recv_laws mem_os mem_net_view"
  unfolding recv_laws_def
proof (intro allI impI)
  fix net fd and n :: nat
  assume n: "0 < n" and ne: "nv_in mem_net_view net fd \<noteq> []"
  show "case os_recv mem_os net fd n of
      (net', Received bs) \<Rightarrow> bs \<noteq> [] \<and> length bs \<le> n \<and> nv_in mem_net_view net fd = bs @ nv_in mem_net_view net' fd
    | (net', Interrupted) \<Rightarrow> nv_in mem_net_view net' fd = nv_in mem_net_view net fd \<and>
        nv_pause mem_net_view net' fd < nv_pause mem_net_view net fd
    | (net', Would_block) \<Rightarrow> nv_in mem_net_view net' fd = nv_in mem_net_view net fd \<and>
        nv_pause mem_net_view net' fd < nv_pause mem_net_view net fd
    | _ \<Rightarrow> False"
    using n ne
    by (cases "(n, mn_in net fd)" rule: deliver.cases) (auto simp: mem_os_def mem_net_view_def)
qed

lemma mem_send_laws [simp]: "send_laws mem_os mem_net_view"
  by (simp add: send_laws_def mem_os_def mem_net_view_def)

section \<open>Properties\<close>

text \<open>C36: A message survives the trip between two sockets. Whatever portions the sending system takes and
  the receiving system delivers, and however often receiving is interrupted or times out in between,
  the message of a named type and at most 16 MiB that one side sent in full is received by the other
  side as it was, and what followed it in the stream is left to be read.\<close>

theorem message_roundtrip:
  assumes "send_laws sysA A" and "recv_laws sysB B" and "wf_message m"
    and "send_message sysA netA fdA m = (netA', True)"
    and "nv_out A netA' fdA = nv_out A netA fdA @ sent" and "nv_in B netB fdB = sent @ rest"
  shows "\<exists>netB'. receive_message sysB netB fdB = Some (netB', Some m) \<and> nv_in B netB' fdB = rest"
proof -
  have "sent = message_header m @ msg_payload m" using send_message_ok [OF assms(1,4)] assms(5) by simp
  then show ?thesis using receive_message_ok [OF assms(2,3)] assms(6) by simp
qed

definition ping_message :: Message where
  "ping_message = \<lparr>msg_type = PING, msg_payload = [1, 2]\<rparr>"

definition quiet_net :: mem_net where
  "quiet_net = \<lparr>mn_in = (\<lambda>_. []), mn_out = (\<lambda>_. [])\<rparr>"

definition chunked_net :: mem_net where
  "chunked_net = quiet_net\<lparr>mn_in := (\<lambda>_. [None, Some [0x46, 0x52, 0x47], Some [0x43, 6, 2, 0, 0, 0, 1], None, Some [2, 9]])\<rparr>"

theorem message_roundtrip_witness:
  "\<exists>net'. receive_message mem_os chunked_net 4 = Some (net', Some ping_message) \<and> nv_in mem_net_view net' 4 = [9]"
proof -
  have m: "wf_message ping_message"
    by (simp add: wf_message_def ping_message_def named_type_def MAX_PAYLOAD_SIZE_def)
  have h: "message_header ping_message = [0x46, 0x52, 0x47, 0x43, 6, 2, 0, 0, 0]"
    by (simp add: message_header_def ping_message_def MAGIC_BYTES_def size_le_def u32_le_small numeral_3_eq_3)
  obtain net where s: "send_message mem_os quiet_net 3 ping_message = (net, True)"
    "nv_out mem_net_view net 3 = [0x46, 0x52, 0x47, 0x43, 6, 2, 0, 0, 0, 1, 2]"
    unfolding send_message_def h
    by (simp add: ping_message_def MAX_PAYLOAD_SIZE_def send_exact.simps mem_os_def quiet_net_def mem_net_view_def
        word_less_nat_alt)
  show ?thesis
    by (rule message_roundtrip [OF mem_send_laws mem_recv_laws m s(1)])
      (simp_all add: s(2), simp_all add: quiet_net_def chunked_net_def mem_net_view_def)
qed

text \<open>C37: The five-second receive timeout of the handshake has no effect: a peer that connects and stays
  silent, so that every receive times out, keeps \<open>perform_handshake\<close> from ever returning.\<close>

theorem silent_peer_blocks_handshake:
  assumes "\<And>net n. snd (os_recv sys net fd n) = Would_block"
    and "send_message sys net fd \<lparr>msg_type = VERSION, msg_payload = serialize_version info\<rparr> = (net', True)"
  shows "perform_handshake sys net fd info = None"
proof -
  have "read_exact sys net' fd HEADER_LENGTH = None"
    unfolding read_exact_def using assms(1) by (intro read_loop_silent) (simp_all add: HEADER_LENGTH_def)
  then show ?thesis using assms(2) by (simp add: perform_handshake_def receive_message_def)
qed

definition silent_os :: "mem_net os" where
  "silent_os = mem_os\<lparr>os_recv := (\<lambda>net fd n. (net, Would_block))\<rparr>"

definition sample_version :: VersionInfo where
  "sample_version = \<lparr>vi_protocol_version = 1, vi_chain_height = 1, vi_timestamp = 0, vi_listen_port = 9000, vi_node_id = 7\<rparr>"

theorem silent_peer_blocks_handshake_witness: "perform_handshake silent_os quiet_net 3 sample_version = None"
proof -
  have "snd (send_message silent_os quiet_net 3 \<lparr>msg_type = VERSION, msg_payload = serialize_version sample_version\<rparr>)"
    by (simp add: send_message_def MAX_PAYLOAD_SIZE_def send_exact.simps silent_os_def mem_os_def word_less_nat_alt
        HEADER_LENGTH_def message_header_def)
  then obtain net' where "send_message silent_os quiet_net 3
      \<lparr>msg_type = VERSION, msg_payload = serialize_version sample_version\<rparr> = (net', True)"
    by (metis (full_types) prod.collapse)
  from silent_peer_blocks_handshake [OF _ this] show ?thesis by (simp add: silent_os_def)
qed

text \<open>C38: Each payload format decodes exactly the encodings of its well-formed values: version records
  (always thirty bytes), inventories (32-byte hashes), block requests (at most 1028 hashes) and, when the
  allocator has room for the announced count, peer lists. So distinct values never share an encoding and
  no payload with missing, excess or unknown bytes is taken. For peer lists this means that one malformed entry makes
  the decoder refuse the whole list, well-formed entries included (\<open>malformed_entry_refuses_list\<close> below), where
  section 3.7 of docs/protocol.md says that such an entry can be skipped.\<close>

theorem payload_codecs:
  "(version_of p = Some info \<longleftrightarrow> serialize_version info = p) \<and>
   (deserialize_inventory p = Some items \<longleftrightarrow> wf_inventory items \<and> serialize_inventory items = p) \<and>
   (deserialize_getblocks p = Some hs \<longleftrightarrow> wf_getblocks hs \<and> serialize_getblocks hs = p) \<and>
   (deserialize_peer_list (\<lambda>_. True) p = Inr (Some as) \<longleftrightarrow> wf_peer_list as \<and> serialize_peer_list as = p)"
proof -
  have "deserialize_peer_list (\<lambda>_. True) p = Inr (Some as) \<longleftrightarrow> peer_entries p = Some as"
    by (auto simp: deserialize_peer_list_def peer_entries_def split: option.splits)
  then show ?thesis
    using version_codec.des_iff inventory_codec.des_iff getblocks_codec.des_iff peers_codec.des_iff by simp
qed

lemma read_framed_malformed:
  assumes "at_cursor p off (concat (map frame es) @ rest)" and "\<forall>e\<in>set es. length e < 2 ^ 32"
    and "e \<in> set es" and "dec e = None"
  shows "read_framed dec (length es) p off = None"
  using assms(1-3)
proof (induction es arbitrary: off)
  case (Cons x es)
  let ?tail = "concat (map frame es) @ rest"
  from Cons.prems(1) have c0: "at_cursor p off (size_le (length x) @ (x @ ?tail))" by (simp add: frame_def [of x])
  then have c1: "at_cursor p (off + 4) (x @ ?tail)" by (rule at_cursor_ints)
  then have c2: "at_cursor p (off + 4 + length x) ?tail" by (rule at_cursor_step) simp
  note reads = read_size_at [OF c0] read_bytes_at [OF c1 refl]
  show ?case
  proof (cases "e = x")
    case True
    then show ?thesis using reads assms(4) Cons.prems(2) by simp
  next
    case False
    then have "read_framed dec (length es) p (off + 4 + length x) = None" using Cons.IH [OF c2] Cons.prems(2,3) by simp
    then show ?thesis using reads Cons.prems(2) by (cases "dec x") simp_all
  qed
qed simp

text \<open>A payload that frames its entries correctly is refused as a whole when one of them is no address.\<close>

theorem malformed_entry_refuses_list:
  assumes "length es < 2 ^ 32" and "\<forall>e\<in>set es. length e < 2 ^ 32"
    and "e \<in> set es" and "deserialize_peer_address e = None"
  shows "deserialize_peer_list (\<lambda>_. True) (size_le (length es) @ concat (map frame es)) = Inr None"
proof -
  let ?p = "size_le (length es) @ concat (map frame es)"
  have c: "at_cursor ?p 0 (size_le (length es) @ concat (map frame es) @ [])" by (simp add: at_cursor_start)
  then have "at_cursor ?p (0 + 4) (concat (map frame es) @ [])" by (rule at_cursor_ints)
  then have "read_framed deserialize_peer_address (length es) ?p (0 + 4) = None"
    by (rule read_framed_malformed [where dec = deserialize_peer_address and e = e, OF _ assms(2-4)])
  with read_size_at [OF c] assms(1) show ?thesis
    by (simp add: deserialize_peer_list_def peer_entries_def)
qed

text \<open>
  A peer list of four bytes announces four billion addresses; the reservation for them comes before
  the first check, so it fails for want of memory where the decoder would have refused the payload.
\<close>

lemma peer_count_exhausts_memory:
  assumes "\<not> can_reserve (2 ^ 32 - 1)"
  shows "deserialize_peer_list can_reserve [255, 255, 255, 255] = Inl Bad_alloc"
    and "peer_entries [255, 255, 255, 255] = None"
proof -
  have r: "read_u32 [255, 255, 255, 255] 0 = Some (- 1, 4)"
    by (simp add: read_u32_def read_bytes_def)
  have u: "unat (- 1 :: u32) = 4294967295" by (simp add: unsigned_minus_1_eq_mask mask_eq_exp_minus_1)
  from r show "deserialize_peer_list can_reserve [255, 255, 255, 255] = Inl Bad_alloc"
    using assms u by (simp add: deserialize_peer_list_def)
  have "4294967295 = Suc 4294967294" by simp
  then have "read_framed deserialize_peer_address 4294967295 [255, 255, 255, 255] 4 = None"
    by (simp only: read_framed.simps) (simp add: read_u32_def read_bytes_def)
  then show "peer_entries [255, 255, 255, 255] = None" using r u by (simp add: peer_entries_def)
qed

text \<open>The block request a node builds from its own chain of at most \<open>2 ^ 64\<close> blocks is one its peers
  decode: the locator exists and stays below the limit on its length.\<close>

theorem own_locator_decodes:
  assumes "bc_blocks bc \<noteq> []" and "length (bc_blocks bc) \<le> 2 ^ 64"
    and "\<forall>b\<in>set (bc_blocks bc). length (b_hash b) = 32"
  shows "\<exists>ls. build_locator bc = Inr ls \<and> deserialize_getblocks (serialize_getblocks ls) = Some ls \<and>
    length (serialize_getblocks ls) \<le> 2404"
proof -
  obtain ls where ls: "build_locator bc = Inr ls" "set ls \<subseteq> b_hash ` set (bc_blocks bc)" "length ls \<le> 75"
    using build_locator_facts [OF assms(1,2)] by auto
  then have h: "\<forall>h\<in>set ls. length h = 32" using assms(3) by auto
  then have "wf_getblocks ls" using ls(3) by (simp add: wf_getblocks_def)
  then show ?thesis
    using ls(1,3) getblocks_codec.des_ser length_concat_hashes [OF h] by (auto simp: serialize_getblocks_def)
qed

theorem own_locator_decodes_witness:
  "\<exists>ls. build_locator sample_bc = Inr ls \<and> deserialize_getblocks (serialize_getblocks ls) = Some ls"
  using own_locator_decodes [of sample_bc] by auto

end
