(* ===== verification/FC_AddressBook.thy ===== *)
theory FC_AddressBook
  imports FC_Wire
begin

text \<open>
  src/include/network/AddressBook.hpp and src/src/network/AddressBook.cpp: the addresses a node knows,
  which of them it may dial next, and which of them it tells others. The book is a vector in insertion
  order. \<open>inet_pton\<close> is a parameter (the four octets of a dotted IPv4 address, or nothing), the clock
  reading an argument \<open>now\<close> in nanoseconds.
\<close>

section \<open>State and operations\<close>

type_synonym time = int
type_synonym inet_pton = "str \<Rightarrow> bytes option"

abbreviation seconds :: "int \<Rightarrow> time" where "seconds n \<equiv> n * 1000000000"
abbreviation milliseconds :: "int \<Rightarrow> time" where "milliseconds n \<equiv> n * 1000000"

record AddressEntry =
  ae_address :: PeerAddress
  ae_next_try :: time
  ae_failures :: int
  ae_succeeded :: bool
  ae_in_progress :: bool

record AddressInfo =
  ai_address :: PeerAddress
  ai_verified :: bool
  ai_failures :: int

type_synonym AddressBook = "AddressEntry list"

definition MAX_ENTRIES :: nat where "MAX_ENTRIES = 1000"
definition MAX_FAILURES :: int where "MAX_FAILURES = 10"
definition BASE_BACKOFF :: time where "BASE_BACKOFF = seconds 5"
definition MAX_BACKOFF :: time where "MAX_BACKOFF = seconds 600"

definition is_routable :: "inet_pton \<Rightarrow> PeerAddress \<Rightarrow> bool" where
  "is_routable pton peer_address =
     (if pa_host peer_address = [] \<or> pa_port peer_address = 0 then False
      else case pton (c_str (pa_host peer_address)) of
        None \<Rightarrow> False
      | Some oct \<Rightarrow>
          if oct ! 0 = 0 \<or> oct ! 0 = 127 then False
          else if oct ! 0 = 10 \<or> (oct ! 0 = 172 \<and> oct ! 1 \<ge> 16 \<and> oct ! 1 \<le> 31) \<or>
              (oct ! 0 = 192 \<and> oct ! 1 = 168) then False
          else if oct ! 0 = 169 \<and> oct ! 1 = 254 then False
          else if oct ! 0 \<ge> 224 then False
          else True)"

text \<open>\<open>find\<close> returns a pointer into the vector: the index of the entry.\<close>

fun book_find :: "AddressBook \<Rightarrow> PeerAddress \<Rightarrow> nat option" where
  "book_find [] peer_address = None"
| "book_find (entry # book) peer_address =
     (if pa_host peer_address = pa_host (ae_address entry) \<and> pa_port peer_address = pa_port (ae_address entry)
      then Some 0 else map_option Suc (book_find book peer_address))"

definition book_add :: "inet_pton \<Rightarrow> time \<Rightarrow> AddressBook \<Rightarrow> PeerAddress \<Rightarrow> bool \<Rightarrow> AddressBook \<times> bool" where
  "book_add pton now book peer_address trusted =
     (if pa_host peer_address = [] \<or> pa_port peer_address = 0 then (book, False)
      else if \<not> trusted \<and> \<not> is_routable pton peer_address then (book, False)
      else if length book \<ge> MAX_ENTRIES then (book, False)
      else if book_find book peer_address = None
      then (book @ [\<lparr>ae_address = peer_address, ae_next_try = now, ae_failures = 0, ae_succeeded = False,
                    ae_in_progress = False\<rparr>], True)
      else (book, False))"

definition selectable :: "time \<Rightarrow> AddressEntry \<Rightarrow> bool" where
  "selectable now entry \<longleftrightarrow>
     \<not> ae_in_progress entry \<and> ae_failures entry < MAX_FAILURES \<and> ae_next_try entry \<le> now"

fun select_candidate :: "time \<Rightarrow> AddressBook \<Rightarrow> AddressBook \<times> PeerAddress option" where
  "select_candidate now [] = ([], None)"
| "select_candidate now (entry # book) =
     (if selectable now entry then (entry\<lparr>ae_in_progress := True\<rparr> # book, Some (ae_address entry))
      else case select_candidate now book of (book, r) \<Rightarrow> (entry # book, r))"

definition mark_success :: "time \<Rightarrow> AddressBook \<Rightarrow> PeerAddress \<Rightarrow> AddressBook" where
  "mark_success now book peer_address =
     (case book_find book peer_address of
        None \<Rightarrow> book
      | Some i \<Rightarrow> book[i := (book ! i)\<lparr>ae_in_progress := False, ae_succeeded := True, ae_failures := 0,
                                      ae_next_try := now + BASE_BACKOFF\<rparr>])"

definition backoff :: "int \<Rightarrow> time" where
  "backoff failures = min (BASE_BACKOFF * 2 ^ nat (min (failures - 1) 7)) MAX_BACKOFF"

definition mark_failure :: "time \<Rightarrow> AddressBook \<Rightarrow> PeerAddress \<Rightarrow> AddressBook" where
  "mark_failure now book peer_address =
     (case book_find book peer_address of
        None \<Rightarrow> book
      | Some i \<Rightarrow>
          let failures = ae_failures (book ! i) + 1 in
          book[i := (book ! i)\<lparr>ae_in_progress := False, ae_failures := failures,
                              ae_next_try := now + backoff failures\<rparr>])"

definition reachable :: "inet_pton \<Rightarrow> bool \<Rightarrow> AddressBook \<Rightarrow> PeerAddress list" where
  "reachable pton include_local book =
     map ae_address (filter (\<lambda>entry. ae_succeeded entry \<and> (include_local \<or> is_routable pton (ae_address entry))) book)"

definition book_snapshot :: "AddressBook \<Rightarrow> AddressInfo list" where
  "book_snapshot book =
     map (\<lambda>entry. \<lparr>ai_address = ae_address entry, ai_verified = ae_succeeded entry, ai_failures = ae_failures entry\<rparr>) book"

definition book_size :: "AddressBook \<Rightarrow> nat" where
  "book_size book = length book"

section \<open>The invariant\<close>

definition book_inv :: "AddressBook \<Rightarrow> bool" where
  "book_inv book \<longleftrightarrow> distinct (map ae_address book) \<and> length book \<le> MAX_ENTRIES \<and>
     (\<forall>e\<in>set book. 0 \<le> ae_failures e \<and> pa_host (ae_address e) \<noteq> [] \<and> pa_port (ae_address e) \<noteq> 0)"

lemma address_eq: "pa_host a = pa_host b \<and> pa_port a = pa_port b \<longleftrightarrow> a = (b :: PeerAddress)"
  by (cases a; cases b) auto

lemma book_find_Some: "book_find book a = Some i \<Longrightarrow> i < length book \<and> ae_address (book ! i) = a"
  by (induction book arbitrary: i) (auto simp: address_eq split: if_splits)

lemma book_find_None: "book_find book a = None \<longleftrightarrow> a \<notin> ae_address ` set book"
  by (induction book) (auto simp: address_eq)

lemma map_address_update: "ae_address e = ae_address (book ! i) \<Longrightarrow> map ae_address (book[i := e]) = map ae_address book"
  by (metis list_update_id map_update)

lemma book_inv_update:
  assumes "book_inv book" and "i < length book" and "ae_address e = ae_address (book ! i)" and "0 \<le> ae_failures e"
  shows "book_inv (book[i := e])"
proof -
  have "book ! i \<in> set book" using assms(2) by simp
  then show ?thesis
    using assms map_address_update [OF assms(3)] set_update_subset_insert [of book i e] by (auto simp: book_inv_def)
qed

lemma book_add_inv: "book_inv book \<Longrightarrow> book_inv (fst (book_add pton now book a trusted))"
  by (auto simp: book_add_def book_inv_def book_find_None)

lemma select_candidate_cases:
  obtains (none) "select_candidate now book = (book, None)" "\<forall>e\<in>set book. \<not> selectable now e"
  | (some) i where "i < length book" "selectable now (book ! i)" "\<forall>j<i. \<not> selectable now (book ! j)"
    "select_candidate now book = (book[i := (book ! i)\<lparr>ae_in_progress := True\<rparr>], Some (ae_address (book ! i)))"
proof -
  have "select_candidate now book = (book, None) \<and> (\<forall>e\<in>set book. \<not> selectable now e) \<or>
    (\<exists>i. i < length book \<and> selectable now (book ! i) \<and> (\<forall>j<i. \<not> selectable now (book ! j)) \<and>
       select_candidate now book = (book[i := (book ! i)\<lparr>ae_in_progress := True\<rparr>], Some (ae_address (book ! i))))"
  proof (induction book)
    case (Cons e book)
    show ?case
    proof (cases "selectable now e")
      case False
      from Cons show ?thesis
      proof
        assume "\<exists>i. i < length book \<and> selectable now (book ! i) \<and> (\<forall>j<i. \<not> selectable now (book ! j)) \<and>
          select_candidate now book = (book[i := (book ! i)\<lparr>ae_in_progress := True\<rparr>], Some (ae_address (book ! i)))"
        then obtain i where "i < length book" "selectable now (book ! i)" "\<forall>j<i. \<not> selectable now (book ! j)"
          "select_candidate now book = (book[i := (book ! i)\<lparr>ae_in_progress := True\<rparr>], Some (ae_address (book ! i)))"
          by blast
        with False show ?thesis by (intro disjI2 exI [of _ "Suc i"]) (auto simp: less_Suc_eq_0_disj)
      qed (use False in simp)
    qed (auto intro: exI [of _ 0])
  qed simp
  then show ?thesis using none some by blast
qed

lemma select_candidate_inv:
  assumes "book_inv book"
  shows "book_inv (fst (select_candidate now book))"
proof (cases rule: select_candidate_cases [of now book])
  case none
  then show ?thesis using assms by simp
next
  case (some i)
  then have "0 \<le> ae_failures (book ! i)" using assms by (simp add: book_inv_def)
  then show ?thesis using some book_inv_update [OF assms some(1)] by simp
qed

lemma mark_success_inv: "book_inv book \<Longrightarrow> book_inv (mark_success now book a)"
  by (auto simp: mark_success_def dest!: book_find_Some intro!: book_inv_update split: option.splits)

lemma mark_failure_inv:
  assumes "book_inv book"
  shows "book_inv (mark_failure now book a)"
proof (cases "book_find book a")
  case (Some i)
  then have "i < length book" using book_find_Some by blast
  moreover from this have "0 \<le> ae_failures (book ! i)" using assms by (simp add: book_inv_def)
  ultimately show ?thesis using assms Some by (simp add: mark_failure_def Let_def book_inv_update)
qed (use assms in \<open>simp add: mark_failure_def\<close>)

section \<open>Runs\<close>

text \<open>The node's threads work on the book one operation at a time.\<close>

datatype book_op = Op_add PeerAddress bool | Op_select | Op_success PeerAddress | Op_failure PeerAddress

fun book_step :: "inet_pton \<Rightarrow> AddressBook \<Rightarrow> time \<times> book_op \<Rightarrow> AddressBook" where
  "book_step pton book (now, Op_add a trusted) = fst (book_add pton now book a trusted)"
| "book_step pton book (now, Op_select) = fst (select_candidate now book)"
| "book_step pton book (now, Op_success a) = mark_success now book a"
| "book_step pton book (now, Op_failure a) = mark_failure now book a"

lemma book_step_inv: "book_inv book \<Longrightarrow> book_inv (book_step pton book op)"
  by (cases "(pton, book, op)" rule: book_step.cases)
    (simp_all add: book_add_inv select_candidate_inv mark_success_inv mark_failure_inv)

lemma book_run_inv: "book_inv book \<Longrightarrow> book_inv (foldl (book_step pton) book ops)"
  by (induction ops arbitrary: book) (simp_all add: book_step_inv)

lemma update_succeeded:
  assumes "e \<in> set (book[i := x])" and "ae_succeeded e" and "i < length book"
    and "ae_address x = ae_address (book ! i)" and "ae_succeeded x = ae_succeeded (book ! i)"
  shows "\<exists>e'\<in>set book. ae_succeeded e' \<and> ae_address e' = ae_address e"
proof (cases "e = x")
  case True
  then show ?thesis using assms by (intro bexI [of _ "book ! i"]) simp_all
next
  case False
  then show ?thesis using assms set_update_subset_insert [of book i x] by auto
qed

lemma book_step_succeeded:
  assumes "e \<in> set (book_step pton book op)" and "ae_succeeded e"
  shows "(\<exists>e'\<in>set book. ae_succeeded e' \<and> ae_address e' = ae_address e) \<or> snd op = Op_success (ae_address e)"
proof (cases "(pton, book, op)" rule: book_step.cases)
  case (1 pton' book' now a trusted)
  then show ?thesis using assms by (auto simp: book_add_def split: if_splits)
next
  case (2 pton' book' now)
  show ?thesis
  proof (cases rule: select_candidate_cases [of now book])
    case none
    then show ?thesis using assms 2 by auto
  next
    case (some i)
    then show ?thesis using assms 2 update_succeeded [of e book i "(book ! i)\<lparr>ae_in_progress := True\<rparr>"] by simp
  qed
next
  case (3 pton' book' now a)
  show ?thesis
  proof (cases "book_find book a")
    case (Some i)
    let ?x = "(book ! i)\<lparr>ae_in_progress := False, ae_succeeded := True, ae_failures := 0, ae_next_try := now + BASE_BACKOFF\<rparr>"
    have i: "i < length book" "ae_address (book ! i) = a" using book_find_Some [OF Some] by simp_all
    have "e \<in> set (book[i := ?x])" using assms(1) 3 Some by (simp add: mark_success_def)
    then have "e = ?x \<or> e \<in> set book" using set_update_subset_insert [of book i ?x] by blast
    then show ?thesis using assms(2) 3 i(2) by auto
  qed (use assms 3 in \<open>auto simp: mark_success_def\<close>)
next
  case (4 pton' book' now a)
  show ?thesis
  proof (cases "book_find book a")
    case (Some i)
    then have i: "i < length book" using book_find_Some by blast
    show ?thesis
      using assms 4 Some i update_succeeded [of e book i "(book ! i)\<lparr>ae_in_progress := False,
          ae_failures := ae_failures (book ! i) + 1, ae_next_try := now + backoff (ae_failures (book ! i) + 1)\<rparr>"]
      by (simp add: mark_failure_def Let_def)
  qed (use assms 4 in \<open>auto simp: mark_failure_def\<close>)
qed

lemma book_run_succeeded:
  assumes "e \<in> set (foldl (book_step pton) book ops)" and "ae_succeeded e"
  shows "(\<exists>e'\<in>set book. ae_succeeded e' \<and> ae_address e' = ae_address e) \<or>
    (\<exists>t. (t, Op_success (ae_address e)) \<in> set ops)"
  using assms
proof (induction ops arbitrary: book)
  case (Cons op ops)
  from Cons.IH [of "book_step pton book op"] Cons.prems consider
    (old) e' where "e' \<in> set (book_step pton book op)" "ae_succeeded e'" "ae_address e' = ae_address e"
    | (new) t where "(t, Op_success (ae_address e)) \<in> set ops" by auto
  then show ?case
  proof cases
    case old
    then show ?thesis using book_step_succeeded [OF old(1,2)] by (cases op) auto
  qed auto
qed auto

lemma selected_entry:
  assumes "distinct (map ae_address book)" and "snd (select_candidate t book) = Some (ae_address (book ! i))"
    and "i < length book"
  shows "selectable t (book ! i)"
proof (cases rule: select_candidate_cases [of t book])
  case none
  then show ?thesis using assms(2) by simp
next
  case (some j)
  then have "map ae_address book ! j = map ae_address book ! i" using assms(2,3) by simp
  then have "j = i" using assms(1,3) some(1) by (simp add: nth_eq_iff_index_eq del: nth_map)
  then show ?thesis using some(2) by simp
qed

section \<open>Properties\<close>

text \<open>C39: Whatever operations the node's threads perform on an address book that starts empty, it holds at
  most a thousand addresses, each once; only addresses some connection succeeded to are told to others,
  and to routable peers only routable ones.\<close>

theorem address_book_runs:
  "length (foldl (book_step pton) [] ops) \<le> 1000 \<and>
   distinct (map ae_address (foldl (book_step pton) [] ops)) \<and>
   (\<forall>a\<in>set (reachable pton include_local (foldl (book_step pton) [] ops)).
      (\<exists>t. (t, Op_success a) \<in> set ops) \<and> (include_local \<or> is_routable pton a))"
proof -
  have "book_inv (foldl (book_step pton) [] ops)" by (rule book_run_inv) (simp add: book_inv_def)
  then show ?thesis
    using book_run_succeeded [of _ pton "[]" ops] by (auto simp: book_inv_def MAX_ENTRIES_def reachable_def)
qed

definition sample_pton :: inet_pton where
  "sample_pton host = (if host = ''8.8.8.8'' then Some [8, 8, 8, 8] else if host = ''10.0.0.1'' then Some [10, 0, 0, 1] else None)"

definition sample_address :: PeerAddress where
  "sample_address = \<lparr>pa_host = ''8.8.8.8'', pa_port = 9000\<rparr>"

theorem address_book_runs_witness:
  "\<exists>book. book = foldl (book_step sample_pton) [] [(0, Op_add sample_address False), (1, Op_success sample_address)] \<and>
     sample_address \<in> set (reachable sample_pton False book) \<and> is_routable sample_pton sample_address"
proof -
  let ?ops = "[(0, Op_add sample_address False), (1, Op_success sample_address)]"
  have "sample_address \<in> set (reachable sample_pton False (foldl (book_step sample_pton) [] ?ops))"
    by (simp add: book_add_def mark_success_def reachable_def is_routable_def sample_pton_def sample_address_def
        c_str_def MAX_ENTRIES_def)
  then show ?thesis using address_book_runs [of sample_pton ?ops False] by auto
qed

text \<open>An address that failed is left alone for five seconds after the first failure, twice as long
  after each further one, up to ten minutes, and for good after ten failures in a row.\<close>

theorem failed_address_backs_off:
  assumes "book_inv book" and "i < length book" and "book' = mark_failure now book (ae_address (book ! i))"
    and "f = nat (ae_failures (book ! i))"
    and "t < now + min (seconds 5 * 2 ^ min f 7) (seconds 600) \<or> 9 \<le> f"
  shows "snd (select_candidate t book') \<noteq> Some (ae_address (book ! i))"
proof
  assume sel: "snd (select_candidate t book') = Some (ae_address (book ! i))"
  obtain j where j: "book_find book (ae_address (book ! i)) = Some j"
    using assms(2) book_find_None by (cases "book_find book (ae_address (book ! i))") force+
  then have j': "j < length book" "map ae_address book ! j = map ae_address book ! i"
    using book_find_Some assms(2) by auto
  then have ji: "j = i" using assms(1,2) by (simp add: book_inv_def nth_eq_iff_index_eq del: nth_map)
  have b': "book' ! i = (book ! i)\<lparr>ae_in_progress := False, ae_failures := ae_failures (book ! i) + 1,
      ae_next_try := now + backoff (ae_failures (book ! i) + 1)\<rparr>" "length book' = length book"
    using j ji assms(2,3) by (simp_all add: mark_failure_def Let_def)
  have "book_inv book'" unfolding assms(3) using assms(1) by (rule mark_failure_inv)
  then have "selectable t (book' ! i)"
    using sel b' assms(2) by (intro selected_entry) (simp_all add: book_inv_def)
  then have s: "ae_failures (book ! i) + 1 < 10" "now + backoff (ae_failures (book ! i) + 1) \<le> t"
    unfolding selectable_def b'(1) by (simp_all add: MAX_FAILURES_def)
  have "0 \<le> ae_failures (book ! i)" using assms(1,2) by (simp add: book_inv_def)
  then have "nat (min (ae_failures (book ! i)) 7) = min f 7" using assms(4) by (simp add: min_def nat_le_iff)
  then have "backoff (ae_failures (book ! i) + 1) = min (seconds 5 * 2 ^ min f 7) (seconds 600)"
    by (simp add: backoff_def BASE_BACKOFF_def MAX_BACKOFF_def)
  then show False using s assms(4,5) by auto
qed

theorem failed_address_backs_off_witness:
  "snd (select_candidate (seconds 4) (mark_failure 0 (fst (book_add sample_pton 0 [] sample_address False)) sample_address)) \<noteq>
     Some sample_address"
proof -
  let ?book = "[\<lparr>ae_address = sample_address, ae_next_try = 0, ae_failures = 0, ae_succeeded = False, ae_in_progress = False\<rparr>]"
  have "fst (book_add sample_pton 0 [] sample_address False) = ?book"
    by (simp add: book_add_def is_routable_def sample_pton_def sample_address_def c_str_def MAX_ENTRIES_def)
  moreover have "book_inv ?book" by (simp add: book_inv_def MAX_ENTRIES_def sample_address_def)
  ultimately show ?thesis using failed_address_backs_off [of ?book 0 _ 0 0 "seconds 4"] by simp
qed

end
