(* ===== verification/FC_Tcp.thy ===== *)
theory FC_Tcp
  imports FC_AddressBook
begin

text \<open>
  src/include/network/TcpSocket.hpp, src/src/network/TcpSocket.cpp, Heartbeat.cpp and Peer.cpp: opening,
  accepting, connecting and closing sockets, and the peer object built on one. Every system call is a
  field of the parameter \<open>tcp\<close>; a call that can fail returns its result and \<open>errno\<close>. A socket that is not
  open has the descriptor \<open>-1\<close>.
\<close>

section \<open>Sockets\<close>

datatype errno = EINTR | EINPROGRESS | Other_errno

record 'net tcp =
  tcp_now :: "'net \<Rightarrow> time"
  tcp_socket :: "'net \<Rightarrow> 'net \<times> int"
  tcp_close :: "'net \<Rightarrow> int \<Rightarrow> 'net"
  tcp_reuse_addr :: "'net \<Rightarrow> int \<Rightarrow> 'net"
  tcp_rcvtimeo :: "'net \<Rightarrow> int \<Rightarrow> int \<Rightarrow> 'net"
  tcp_bind :: "'net \<Rightarrow> int \<Rightarrow> u16 \<Rightarrow> 'net \<times> int"
  tcp_listen :: "'net \<Rightarrow> int \<Rightarrow> int \<Rightarrow> 'net \<times> int"
  tcp_accept :: "'net \<Rightarrow> int \<Rightarrow> 'net \<times> int"
  tcp_getfl :: "'net \<Rightarrow> int \<Rightarrow> 'net \<times> int"
  tcp_setfl :: "'net \<Rightarrow> int \<Rightarrow> int \<Rightarrow> 'net \<times> int"
  tcp_or_nonblock :: "int \<Rightarrow> int"
  tcp_connect :: "'net \<Rightarrow> int \<Rightarrow> bytes \<Rightarrow> u16 \<Rightarrow> 'net \<times> int \<times> errno"
  tcp_poll :: "'net \<Rightarrow> int \<Rightarrow> int \<Rightarrow> 'net \<times> int \<times> errno"
  tcp_so_error :: "'net \<Rightarrow> int \<Rightarrow> 'net \<times> int \<times> int"
  tcp_getpeername :: "'net \<Rightarrow> int \<Rightarrow> bytes option"
  tcp_ntop :: "bytes \<Rightarrow> str option"
  tcp_pton :: inet_pton

definition CONNECT_TIMEOUT_MS :: int where "CONNECT_TIMEOUT_MS = 3000"

definition is_valid :: "int \<Rightarrow> bool" where
  "is_valid fd \<longleftrightarrow> fd \<ge> 0"

definition close_socket :: "'net tcp \<Rightarrow> 'net \<Rightarrow> int \<Rightarrow> 'net \<times> int" where
  "close_socket T net fd = (if is_valid fd then (tcp_close T net fd, - 1) else (net, fd))"

definition set_receive_timeout :: "'net tcp \<Rightarrow> 'net \<Rightarrow> int \<Rightarrow> int \<Rightarrow> 'net" where
  "set_receive_timeout T net fd secs = tcp_rcvtimeo T net fd secs"

definition listen_on :: "'net tcp \<Rightarrow> 'net \<Rightarrow> u16 \<Rightarrow> 'net \<times> int" where
  "listen_on T net port =
     (case tcp_socket T net of (net, fd) \<Rightarrow>
        if fd < 0 then (net, - 1)
        else case tcp_bind T (tcp_reuse_addr T net fd) fd port of (net, res) \<Rightarrow>
          if res < 0 then (tcp_close T net fd, - 1)
          else case tcp_listen T net fd 5 of (net, res) \<Rightarrow>
            if res < 0 then (tcp_close T net fd, - 1) else (net, fd))"

definition accept_connection :: "'net tcp \<Rightarrow> 'net \<Rightarrow> int \<Rightarrow> 'net \<times> int" where
  "accept_connection T net listener =
     (case tcp_accept T net listener of (net, fd) \<Rightarrow> if fd < 0 then (net, - 1) else (net, fd))"

text \<open>The \<open>do\<close> loop around \<open>poll\<close>: repeated while it is interrupted.\<close>

partial_function (option) poll_loop :: "'net tcp \<Rightarrow> 'net \<Rightarrow> int \<Rightarrow> ('net \<times> int) option" where
  "poll_loop T net fd =
     (case tcp_poll T net fd CONNECT_TIMEOUT_MS of
        (net, ready, err) \<Rightarrow> if ready < 0 \<and> err = EINTR then poll_loop T net fd else Some (net, ready))"

text \<open>What follows a connect that is in progress: wait, then ask for the socket's error.\<close>

definition await_connect :: "'net tcp \<Rightarrow> 'net \<Rightarrow> int \<Rightarrow> ('net \<times> bool) option" where
  "await_connect T net fd = do {
     (net, ready) \<leftarrow> poll_loop T net fd;
     if ready \<le> 0 then Some (net, False)
     else case tcp_so_error T net fd of (net, res, err) \<Rightarrow> Some (net, \<not> (res < 0 \<or> err \<noteq> 0))
   }"

definition connect_to :: "'net tcp \<Rightarrow> 'net \<Rightarrow> str \<Rightarrow> u16 \<Rightarrow> ('net \<times> int) option" where
  "connect_to T net host port =
     (case tcp_pton T (c_str host) of
        None \<Rightarrow> Some (net, - 1)
      | Some addr \<Rightarrow>
          case tcp_socket T net of (net, fd) \<Rightarrow>
          if fd < 0 then Some (net, - 1)
          else case tcp_getfl T net fd of (net, flags) \<Rightarrow>
          if flags < 0 then Some (tcp_close T net fd, - 1)
          else case tcp_setfl T net fd (tcp_or_nonblock T flags) of (net, res) \<Rightarrow>
          if res < 0 then Some (tcp_close T net fd, - 1)
          else case tcp_connect T net fd addr port of (net, res, err) \<Rightarrow>
          if res < 0 \<and> err \<noteq> EINPROGRESS then Some (tcp_close T net fd, - 1)
          else do {
            (net, ok) \<leftarrow> (if res < 0 then await_connect T net fd else Some (net, True));
            if \<not> ok then Some (tcp_close T net fd, - 1)
            else case tcp_setfl T net fd flags of (net, res) \<Rightarrow>
              if res < 0 then Some (tcp_close T net fd, - 1) else Some (net, fd)
          })"

definition get_peer_ip :: "'net tcp \<Rightarrow> 'net \<Rightarrow> int \<Rightarrow> str option" where
  "get_peer_ip T net fd =
     (if fd < 0 then None
      else do { addr \<leftarrow> tcp_getpeername T net fd; text \<leftarrow> tcp_ntop T addr; Some (c_str text) })"

section \<open>Peers\<close>

record Peer =
  pr_socket :: int
  pr_remote_version :: VersionInfo
  pr_alive :: bool
  pr_last_seen :: time
  pr_host :: str

definition new_Peer :: "time \<Rightarrow> int \<Rightarrow> VersionInfo \<Rightarrow> str \<Rightarrow> Peer" where
  "new_Peer now socket remote_version host =
     \<lparr>pr_socket = socket, pr_remote_version = remote_version, pr_alive = True, pr_last_seen = now, pr_host = host\<rparr>"

definition touch :: "time \<Rightarrow> Peer \<Rightarrow> Peer" where
  "touch now peer = peer\<lparr>pr_last_seen := now\<rparr>"

text \<open>Whole seconds since the peer was last seen; \<open>duration_cast\<close> rounds towards zero.\<close>

definition elapsed :: "time \<Rightarrow> Peer \<Rightarrow> int" where
  "elapsed now peer =
     (let d = now - pr_last_seen peer in if d \<ge> 0 then d div 1000000000 else - ((- d) div 1000000000))"

end
