(* ===== verification/FC_Text.thy ===== *)
theory FC_Text
  imports FC_Wire
begin

text \<open>
  Text the programs read and write: the decimal numbers of \<open>std::to_string\<close> and of
  src/include/app/ParseNumber.hpp, the words \<open>operator>>\<close> takes from a stream, and the bootstrap file of
  src/src/network/Bootstrap.cpp.
\<close>

section \<open>Words and numbers\<close>

definition is_space :: "char \<Rightarrow> bool" where
  "is_space c \<longleftrightarrow> c \<in> {CHR '' '', CHR 0x09, CHR 0x0A, CHR 0x0B, CHR 0x0C, CHR 0x0D}"

definition is_digit :: "char \<Rightarrow> bool" where
  "is_digit c \<longleftrightarrow> 48 \<le> (of_char c :: nat) \<and> (of_char c :: nat) \<le> 57"

text \<open>
  \<open>iss >> word\<close>: skip white space, then take characters up to the next. At the end of the stream the
  extraction fails and the variable keeps its value, here \<open>None\<close>.
\<close>

definition read_token :: "str \<Rightarrow> (str \<times> str) option" where
  "read_token s =
     (case dropWhile is_space s of
        [] \<Rightarrow> None
      | c # cs \<Rightarrow> Some (takeWhile (\<lambda>c. \<not> is_space c) (c # cs), dropWhile (\<lambda>c. \<not> is_space c) (c # cs)))"

definition take_token :: "str \<Rightarrow> str \<Rightarrow> str \<times> str" where
  "take_token s old = (case read_token s of None \<Rightarrow> (old, []) | Some (w, rest) \<Rightarrow> (w, rest))"

lemma length_dropWhile_word: "\<not> is_space c \<Longrightarrow> length (dropWhile (\<lambda>c. \<not> is_space c) (c # cs)) \<le> length cs"
  by (simp add: length_dropWhile_le)

lemma read_token_shorter: "read_token s = Some (w, rest) \<Longrightarrow> length rest < length s"
proof -
  assume r: "read_token s = Some (w, rest)"
  then obtain c cs where d: "dropWhile is_space s = c # cs" "rest = dropWhile (\<lambda>c. \<not> is_space c) (c # cs)"
    by (auto simp: read_token_def split: list.splits)
  have "\<not> is_space c" using d(1) by (metis dropWhile_eq_Cons_conv)
  then have "length rest \<le> length cs" using d(2) length_dropWhile_le [of "\<lambda>c. \<not> is_space c" cs] by simp
  also have "length cs < length s" using length_dropWhile_le [of is_space s] d(1) by simp
  finally show ?thesis .
qed

function tokens :: "str \<Rightarrow> str list" where
  "tokens s = (case read_token s of None \<Rightarrow> [] | Some (w, rest) \<Rightarrow> w # tokens rest)"
  by pat_completeness auto
termination by (relation "measure length") (auto dest: read_token_shorter)

declare tokens.simps [simp del]

fun digits_value :: "str \<Rightarrow> nat \<Rightarrow> nat" where
  "digits_value [] acc = acc"
| "digits_value (c # cs) acc = digits_value cs (10 * acc + (of_char c - 48))"

text \<open>\<open>std::from_chars\<close> into an \<open>int\<close>: an optional minus sign, then digits; what follows them is ignored.\<close>

definition parse_number :: "str \<Rightarrow> int option" where
  "parse_number str_number =
     (let negative = (str_number \<noteq> [] \<and> hd str_number = CHR ''-'');
          digits = takeWhile is_digit (if negative then tl str_number else str_number);
          number = (if negative then - int (digits_value digits 0) else int (digits_value digits 0))
      in if digits = [] then None
         else if number < - (2 ^ 31) \<or> number \<ge> 2 ^ 31 then None
         else Some number)"

fun to_string :: "nat \<Rightarrow> str" where
  "to_string n = (if n < 10 then [char_of (48 + n)] else to_string (n div 10) @ [char_of (48 + n mod 10)])"

declare to_string.simps [simp del]

section \<open>Bootstrap peers\<close>

text \<open>A word \<open>host:port\<close>, cut at the first colon; other words are skipped.\<close>

definition bootstrap_peer :: "str \<Rightarrow> PeerAddress option" where
  "bootstrap_peer buffer =
     (let host = takeWhile (\<lambda>c. c \<noteq> CHR '':'') buffer; rest = dropWhile (\<lambda>c. c \<noteq> CHR '':'') buffer in
      if rest = [] then None
      else
        let port_str = tl rest in
        if host = [] \<or> port_str = [] then None
        else if \<not> list_all is_digit port_str then None
        else case parse_number port_str of
               None \<Rightarrow> None
             | Some port_num \<Rightarrow>
                 if port_num < 0 \<or> port_num > 65535 then None
                 else Some \<lparr>pa_host = host, pa_port = word_of_int port_num\<rparr>)"

text \<open>\<open>None\<close> is a file that cannot be opened.\<close>

definition load_bootstrap_peers :: "str option \<Rightarrow> PeerAddress list option" where
  "load_bootstrap_peers file = map_option (\<lambda>text. List.map_filter bootstrap_peer (tokens text)) file"

definition create_bootstrap_file :: str where
  "create_bootstrap_file = ''# forgechain bootstrap peers, one per line: host:port'' @ [CHR 0x0A]"

section \<open>Facts\<close>

definition is_word :: "str \<Rightarrow> bool" where
  "is_word w \<longleftrightarrow> w \<noteq> [] \<and> list_all (\<lambda>c. \<not> is_space c) w"

lemma wordD: "is_word w \<Longrightarrow> w \<noteq> []" "is_word w \<Longrightarrow> c \<in> set w \<Longrightarrow> \<not> is_space c"
  by (simp_all add: is_word_def list_all_iff)

lemma takeWhile_word: "is_word w \<Longrightarrow> takeWhile (\<lambda>c. \<not> is_space c) w = w"
  by (simp add: is_word_def list_all_iff takeWhile_eq_all_conv)

lemma dropWhile_word: "is_word w \<Longrightarrow> dropWhile (\<lambda>c. \<not> is_space c) w = []"
  by (simp add: is_word_def list_all_iff)

lemma read_token_word: "is_word w \<Longrightarrow> read_token w = Some (w, [])"
proof -
  assume w: "is_word w"
  then obtain c cs where "w = c # cs" "\<not> is_space c" using wordD by (metis list.exhaust list.set_intros(1))
  then have "dropWhile is_space w = c # cs" by simp
  then show ?thesis
    using \<open>w = c # cs\<close> takeWhile_word [OF w] dropWhile_word [OF w] by (simp add: read_token_def)
qed

lemma read_token_cons:
  assumes "is_word w" and "is_space c"
  shows "read_token (w @ c # rest) = Some (w, c # rest)"
proof -
  obtain d ds where w: "w = d # ds" "\<not> is_space d" using wordD [OF assms(1)] by (metis list.exhaust list.set_intros(1))
  have ns: "\<And>x. x \<in> set w \<Longrightarrow> \<not> is_space x" using wordD(2) [OF assms(1)] .
  have t: "takeWhile (\<lambda>c. \<not> is_space c) (w @ c # rest) = w"
    using ns assms(2) by (simp add: takeWhile_append2)
  have d: "dropWhile (\<lambda>c. \<not> is_space c) (w @ c # rest) = c # rest"
    using ns assms(2) by (simp add: dropWhile_append2)
  have "dropWhile is_space (w @ c # rest) = d # (ds @ c # rest)" using w by simp
  then show ?thesis using t d w(1) by (simp add: read_token_def)
qed

lemma read_token_space: "is_space c \<Longrightarrow> read_token (c # s) = read_token s"
  by (simp add: read_token_def)

lemma of_char_digit: "d < 10 \<Longrightarrow> of_char (char_of (48 + d) :: char) = (48 + d :: nat)"
  by simp

lemma is_digit_char: "d < 10 \<Longrightarrow> is_digit (char_of (48 + d :: nat))"
  by (simp add: is_digit_def)

lemma digit_not_space: "is_digit c \<Longrightarrow> \<not> is_space c"
  by (auto simp: is_digit_def is_space_def)

lemma to_string_digits: "list_all is_digit (to_string n) \<and> to_string n \<noteq> []"
proof (induction n rule: to_string.induct)
  case (1 n)
  have d: "is_digit (char_of (48 + n mod 10 :: nat))" by (intro is_digit_char) simp
  show ?case
  proof (cases "n < 10")
    case True
    then show ?thesis using is_digit_char [of n] by (simp add: to_string.simps [of n])
  next
    case False
    then show ?thesis using 1 d by (simp add: to_string.simps [of n])
  qed
qed

lemma digits_value_append: "digits_value (xs @ ys) acc = digits_value ys (digits_value xs acc)"
  by (induction xs arbitrary: acc) auto

lemma digits_value_to_string: "digits_value (to_string n) 0 = n"
proof (induction n rule: to_string.induct)
  case (1 n)
  have d: "(of_char (char_of (48 + n mod 10 :: nat) :: char) :: nat) = 48 + n mod 10"
    by (rule of_char_digit) simp
  show ?case
  proof (cases "n < 10")
    case True
    then show ?thesis using of_char_digit [of n] by (simp add: to_string.simps [of n])
  next
    case False
    then show ?thesis using 1 d by (simp add: to_string.simps [of n] digits_value_append)
  qed
qed

lemma word_to_string: "is_word (to_string n)"
  using to_string_digits [of n] digit_not_space by (auto simp: is_word_def list_all_iff)

text \<open>A printed number below \<open>2 ^ 31\<close> is read back as it was.\<close>

lemma parse_to_string:
  assumes "n < 2 ^ 31"
  shows "parse_number (to_string n) = Some (int n)"
proof -
  have d: "list_all is_digit (to_string n)" "to_string n \<noteq> []" using to_string_digits by blast+
  then have "is_digit (hd (to_string n))" by (metis list.set_sel(1) list_all_iff)
  then have h: "hd (to_string n) \<noteq> CHR ''-''" by (auto simp: is_digit_def)
  have t: "takeWhile is_digit (to_string n) = to_string n"
    using d(1) by (simp add: takeWhile_eq_all_conv list_all_iff)
  show ?thesis using d(2) h assms by (simp add: parse_number_def t digits_value_to_string Let_def)
qed

end
