(* ===== verification/FC_Ledger.thy ===== *)
theory FC_Ledger
  imports FC_Transaction
begin

text \<open>
  src/include/core/Ledger.hpp and src/src/core/Ledger.cpp: account balances and nonces, the
  application of a transaction and its reversal. Balances are 64-bit words and every sum the code
  forms wraps, as \<open>uint64_t\<close> does.
\<close>

section \<open>State and operations\<close>

record Ledger =
  lg_balances :: "(str \<times> u64) list"
  lg_nonces :: "(str \<times> u64) list"

definition empty_ledger :: Ledger where
  "empty_ledger = \<lparr>lg_balances = [], lg_nonces = []\<rparr>"

text \<open>\<open>operator[]\<close> of an \<open>unordered_map\<close> reads a missing entry as zero.\<close>

definition umap_at :: "('k \<times> u64) list \<Rightarrow> 'k \<Rightarrow> u64" where
  "umap_at m k = (case map_of m k of None \<Rightarrow> 0 | Some v \<Rightarrow> v)"

definition set_balance :: "Ledger \<Rightarrow> str \<Rightarrow> u64 \<Rightarrow> Ledger" where
  "set_balance L address amount = L\<lparr>lg_balances := AList.update address amount (lg_balances L)\<rparr>"

definition get_balance :: "Ledger \<Rightarrow> str \<Rightarrow> u64 option" where
  "get_balance L address = map_of (lg_balances L) address"

definition next_nonce :: "Ledger \<Rightarrow> str \<Rightarrow> u64" where
  "next_nonce L address = (case map_of (lg_nonces L) address of Some n \<Rightarrow> n | None \<Rightarrow> 0)"

definition all_balances :: "((str \<times> u64) list \<Rightarrow> (str \<times> u64) list) \<Rightarrow> Ledger \<Rightarrow> (str \<times> u64) list" where
  "all_balances order L = order (lg_balances L)"

definition set_nonce :: "Ledger \<Rightarrow> str \<Rightarrow> u64 \<Rightarrow> Ledger" where
  "set_nonce L address n = L\<lparr>lg_nonces := AList.update address n (lg_nonces L)\<rparr>"

definition apply_transaction :: "Ledger \<Rightarrow> Transaction \<Rightarrow> Ledger \<times> bool" where
  "apply_transaction L tx =
     (let credit = (\<lambda>M. set_balance M (tx_recipient tx)
                          (umap_at (lg_balances M) (tx_recipient tx) + tx_amount tx))
      in if tx_sender tx \<noteq> kCoinbaseSender then
           if map_of (lg_balances L) (tx_sender tx) = None then (L, False)
           else if umap_at (lg_balances L) (tx_sender tx) < tx_amount tx + tx_fee tx then (L, False)
           else if tx_nonce tx \<noteq> next_nonce L (tx_sender tx) then (L, False)
           else (credit (set_nonce (set_balance L (tx_sender tx)
                   (umap_at (lg_balances L) (tx_sender tx) - (tx_amount tx + tx_fee tx)))
                   (tx_sender tx) (tx_nonce tx + 1)), True)
         else (credit L, True))"

definition reverse_transaction :: "Ledger \<Rightarrow> Transaction \<Rightarrow> Ledger \<times> bool" where
  "reverse_transaction L tx =
     (let debit = (\<lambda>M. set_balance M (tx_recipient tx)
                         (umap_at (lg_balances M) (tx_recipient tx) - tx_amount tx))
      in if map_of (lg_balances L) (tx_recipient tx) = None then (L, False)
         else if umap_at (lg_balances L) (tx_recipient tx) < tx_amount tx then (L, False)
         else if tx_sender tx \<noteq> kCoinbaseSender then
           if next_nonce L (tx_sender tx) \<noteq> tx_nonce tx + 1 then (L, False)
           else (debit (set_nonce (set_balance L (tx_sender tx)
                   (umap_at (lg_balances L) (tx_sender tx) + (tx_amount tx + tx_fee tx)))
                   (tx_sender tx) (tx_nonce tx)), True)
         else (debit L, True))"

section \<open>Reading the ledger\<close>

definition ledger_inv :: "Ledger \<Rightarrow> bool" where
  "ledger_inv L \<longleftrightarrow> distinct (map fst (lg_balances L)) \<and> distinct (map fst (lg_nonces L))"

definition balance :: "Ledger \<Rightarrow> str \<Rightarrow> u64" where
  "balance L a = umap_at (lg_balances L) a"

lemma umap_at_simps [umap_simps]:
  "umap_at (AList.update k v m) a = (if a = k then v else umap_at m a)"
  by (simp add: umap_at_def update_conv')

lemma ledger_upd [simp]:
  "lg_balances (set_nonce L a n) = lg_balances L"
  "lg_nonces (set_balance L a v) = lg_nonces L"
  "next_nonce (set_balance L a v) b = next_nonce L b"
  "next_nonce (set_nonce L a n) b = (if b = a then n else next_nonce L b)"
  "balance (set_balance L a v) b = (if b = a then v else balance L b)"
  "balance (set_nonce L a n) b = balance L b"
  "get_balance (set_balance L a v) b = (if b = a then Some v else get_balance L b)"
  "get_balance (set_nonce L a n) b = get_balance L b"
  by (auto simp: set_nonce_def set_balance_def next_nonce_def balance_def get_balance_def
      update_conv' umap_simps)

lemma ledger_inv_upd [simp]:
  "ledger_inv L \<Longrightarrow> ledger_inv (set_balance L a v)"
  "ledger_inv L \<Longrightarrow> ledger_inv (set_nonce L a n)"
  by (simp_all add: ledger_inv_def set_balance_def set_nonce_def distinct_update)

lemma ledger_inv_empty [simp]: "ledger_inv empty_ledger"
  by (simp add: ledger_inv_def empty_ledger_def)

lemma balance_get: "balance L a = (case get_balance L a of None \<Rightarrow> 0 | Some v \<Rightarrow> v)"
  by (simp add: balance_def get_balance_def umap_at_def)

text \<open>The two operations over these readings.\<close>

lemma apply_transaction_alt:
  "apply_transaction L tx =
     (let credit = (\<lambda>M. set_balance M (tx_recipient tx) (balance M (tx_recipient tx) + tx_amount tx));
          s = tx_sender tx
      in if s = kCoinbaseSender then (credit L, True)
         else if get_balance L s = None \<or> balance L s < tx_amount tx + tx_fee tx \<or>
                 tx_nonce tx \<noteq> next_nonce L s then (L, False)
         else (credit (set_nonce (set_balance L s (balance L s - (tx_amount tx + tx_fee tx)))
                s (tx_nonce tx + 1)), True))"
  by (simp add: apply_transaction_def balance_def get_balance_def Let_def)

lemma reverse_transaction_alt:
  "reverse_transaction L tx =
     (let debit = (\<lambda>M. set_balance M (tx_recipient tx) (balance M (tx_recipient tx) - tx_amount tx));
          s = tx_sender tx
      in if get_balance L (tx_recipient tx) = None \<or> balance L (tx_recipient tx) < tx_amount tx
         then (L, False)
         else if s = kCoinbaseSender then (debit L, True)
         else if next_nonce L s \<noteq> tx_nonce tx + 1 then (L, False)
         else (debit (set_nonce (set_balance L s (balance L s + (tx_amount tx + tx_fee tx)))
                s (tx_nonce tx)), True))"
  by (simp add: reverse_transaction_def balance_def get_balance_def Let_def)

lemma apply_transaction_inv: "ledger_inv L \<Longrightarrow> ledger_inv (fst (apply_transaction L tx))"
  by (simp add: apply_transaction_alt Let_def)

lemma reverse_transaction_inv: "ledger_inv L \<Longrightarrow> ledger_inv (fst (reverse_transaction L tx))"
  by (simp add: reverse_transaction_alt Let_def)

lemma apply_transaction_False: "apply_transaction L tx = (L', False) \<Longrightarrow> L' = L"
  by (auto simp: apply_transaction_alt Let_def split: if_splits)

lemma reverse_transaction_False: "reverse_transaction L tx = (L', False) \<Longrightarrow> L' = L"
  by (auto simp: reverse_transaction_alt Let_def split: if_splits)

section \<open>Supply\<close>

definition total_supply :: "Ledger \<Rightarrow> nat" where
  "total_supply L = sum_list (map (unat \<circ> snd) (lg_balances L))"

lemma sum_alist_update:
  assumes "distinct (map fst m)"
  shows "sum_list (map (unat \<circ> snd) (AList.update k v m)) + unat (umap_at m k) =
    sum_list (map (unat \<circ> snd) m) + unat v"
  using assms
proof (induction m)
  case Nil
  then show ?case by (simp add: umap_at_def)
next
  case (Cons p m)
  obtain a b where p: "p = (a, b)" by fastforce
  show ?case
  proof (cases "a = k")
    case True
    then show ?thesis by (simp add: p umap_at_def)
  next
    case False
    with Cons p show ?thesis by (simp add: umap_at_def)
  qed
qed

lemma supply_set_balance:
  "ledger_inv L \<Longrightarrow> total_supply (set_balance L a v) + unat (balance L a) = total_supply L + unat v"
  using sum_alist_update [of "lg_balances L" a v]
  by (simp add: total_supply_def set_balance_def ledger_inv_def balance_def)

lemma supply_set_nonce [simp]: "total_supply (set_nonce L a n) = total_supply L"
  by (simp add: total_supply_def)

lemma balance_le_supply: "ledger_inv L \<Longrightarrow> unat (balance L a) \<le> total_supply L"
  using supply_set_balance [of L a 0] by simp

text \<open>Crediting an account without wrap-around.\<close>

lemma supply_credit:
  assumes "ledger_inv L" and "total_supply L + unat v < 2 ^ 64"
  shows "total_supply (set_balance L a (balance L a + v)) = total_supply L + unat v"
proof -
  have "unat (balance L a) + unat v < 2 ^ LENGTH(64)"
    using balance_le_supply [OF assms(1), of a] assms(2) by simp
  then have "unat (balance L a + v) = unat (balance L a) + unat v"
    by (rule unat_add_lem [THEN iffD1])
  with supply_set_balance [OF assms(1), of a "balance L a + v"] show ?thesis by simp
qed

lemma supply_debit:
  assumes "ledger_inv L" and "v \<le> balance L a"
  shows "total_supply (set_balance L a (balance L a - v)) + unat v = total_supply L"
proof -
  have "unat (balance L a - v) = unat (balance L a) - unat v"
    using assms(2) by (rule unat_sub)
  moreover have "unat v \<le> unat (balance L a)"
    using assms(2) by (simp add: word_le_nat_alt)
  ultimately show ?thesis
    using supply_set_balance [OF assms(1), of a "balance L a - v"] by simp
qed

definition tx_sum_safe :: "Transaction \<Rightarrow> bool" where
  "tx_sum_safe tx \<longleftrightarrow> unat (tx_amount tx) + unat (tx_fee tx) < 2 ^ 64"

lemma unat_tx_sum: "tx_sum_safe tx \<Longrightarrow> unat (tx_amount tx + tx_fee tx) = unat (tx_amount tx) + unat (tx_fee tx)"
  unfolding tx_sum_safe_def using unat_add_lem [of "tx_amount tx" "tx_fee tx"] by simp

lemma apply_payment_supply:
  assumes "ledger_inv L" and "total_supply L < 2 ^ 64" and "tx_sum_safe tx"
    and "tx_sender tx \<noteq> kCoinbaseSender" and "apply_transaction L tx = (L', True)"
  shows "total_supply L' + unat (tx_fee tx) = total_supply L"
proof -
  let ?s = "tx_sender tx" and ?t = "tx_amount tx + tx_fee tx"
  let ?M = "set_nonce (set_balance L ?s (balance L ?s - ?t)) ?s (tx_nonce tx + 1)"
  from assms(4,5) have t: "?t \<le> balance L ?s"
    and L': "L' = set_balance ?M (tx_recipient tx) (balance ?M (tx_recipient tx) + tx_amount tx)"
    by (auto simp: apply_transaction_alt Let_def not_less split: if_splits)
  have M: "total_supply ?M + unat ?t = total_supply L"
    using supply_debit [OF assms(1) t] by simp
  have "total_supply L' = total_supply ?M + unat (tx_amount tx)"
    unfolding L' by (rule supply_credit) (use assms M unat_tx_sum in \<open>simp_all\<close>)
  with M unat_tx_sum [OF assms(3)] show ?thesis by simp
qed

lemma apply_coinbase_supply:
  assumes "ledger_inv L" and "total_supply L + unat (tx_amount tx) < 2 ^ 64"
    and "tx_sender tx = kCoinbaseSender" and "apply_transaction L tx = (L', ok)"
  shows "ok \<and> total_supply L' = total_supply L + unat (tx_amount tx)"
  using assms supply_credit [OF assms(1,2)] by (auto simp: apply_transaction_alt Let_def)

section \<open>Undoing a run of operations\<close>

text \<open>
  The contract between an operation and its reversal: undoing an operation that was applied safely
  succeeds and gives a state that extends the one before it, and an operation or a reversal that succeeds
  on a state succeeds on every extension of it. The clients are the block-level rollback, which reverses
  the transactions of a failed block in the opposite order, and the reorganization, which reverses one
  branch and applies another.
\<close>

fun run_all :: "('s \<Rightarrow> 'op \<Rightarrow> 's \<times> bool) \<Rightarrow> 's \<Rightarrow> 'op list \<Rightarrow> 's option" where
  "run_all app s [] = Some s"
| "run_all app s (x # xs) = (case app s x of (s', ok) \<Rightarrow> if ok then run_all app s' xs else None)"

fun undo_all :: "('s \<Rightarrow> 'op \<Rightarrow> 's \<times> bool) \<Rightarrow> 's \<Rightarrow> 'op list \<Rightarrow> 's" where
  "undo_all rv s [] = s"
| "undo_all rv s (x # xs) = undo_all rv (fst (rv s x)) xs"

fun safe_run :: "('s \<Rightarrow> 'op \<Rightarrow> bool) \<Rightarrow> ('s \<Rightarrow> 'op \<Rightarrow> 's \<times> bool) \<Rightarrow> 's \<Rightarrow> 'op list \<Rightarrow> bool" where
  "safe_run safe app s [] \<longleftrightarrow> True"
| "safe_run safe app s (x # xs) \<longleftrightarrow> safe s x \<and> safe_run safe app (fst (app s x)) xs"

lemma undo_all_append: "undo_all rv s (xs @ ys) = undo_all rv (undo_all rv s xs) ys"
  by (induction xs arbitrary: s) auto

lemma run_all_append: "run_all app s (xs @ ys) = Option.bind (run_all app s xs) (\<lambda>t. run_all app t ys)"
  by (induction xs arbitrary: s) (auto split: prod.splits)

locale reversible =
  fixes app :: "'s \<Rightarrow> 'op \<Rightarrow> 's \<times> bool"
    and rv :: "'s \<Rightarrow> 'op \<Rightarrow> 's \<times> bool"
    and ext :: "'s \<Rightarrow> 's \<Rightarrow> bool"
    and safe :: "'s \<Rightarrow> 'op \<Rightarrow> bool"
  assumes ext_refl: "ext s s"
    and ext_trans: "ext s t \<Longrightarrow> ext t u \<Longrightarrow> ext s u"
    and undo: "app s x = (s1, True) \<Longrightarrow> safe s x \<Longrightarrow> \<exists>s2. rv s1 x = (s2, True) \<and> ext s s2"
    and undo_ext: "rv s x = (t, True) \<Longrightarrow> ext s s' \<Longrightarrow> \<exists>t'. rv s' x = (t', True) \<and> ext t t'"
    and app_ext: "app s x = (t, True) \<Longrightarrow> ext s s' \<Longrightarrow> \<exists>t'. app s' x = (t', True) \<and> ext t t'"
begin

lemma undo_run_ext:
  "run_all app s xs = Some s' \<Longrightarrow> safe_run safe app s xs \<Longrightarrow> ext s' t \<Longrightarrow> ext s (undo_all rv t (rev xs))"
proof (induction xs arbitrary: s)
  case Nil
  then show ?case by simp
next
  case (Cons x xs)
  from Cons.prems(1) obtain s1 where a: "app s x = (s1, True)" and r: "run_all app s1 xs = Some s'"
    by (auto split: prod.splits if_splits)
  from Cons.prems(2) a have "safe s x" and "safe_run safe app s1 xs" by simp_all
  with Cons.IH [OF r] Cons.prems(3) have e: "ext s1 (undo_all rv t (rev xs))" by simp
  from undo [OF a \<open>safe s x\<close>] obtain s2 where s2: "rv s1 x = (s2, True)" "ext s s2" by blast
  from undo_ext [OF s2(1) e] obtain u where
    "rv (undo_all rv t (rev xs)) x = (u, True)" "ext s2 u" by blast
  with s2(2) show ?case by (auto simp: undo_all_append intro: ext_trans)
qed

lemma undo_run:
  "run_all app s xs = Some s' \<Longrightarrow> safe_run safe app s xs \<Longrightarrow> ext s (undo_all rv s' (rev xs))"
  by (rule undo_run_ext [OF _ _ ext_refl])

lemma run_ext: "run_all app s xs = Some t \<Longrightarrow> ext s s' \<Longrightarrow> \<exists>t'. run_all app s' xs = Some t' \<and> ext t t'"
proof (induction xs arbitrary: s s')
  case (Cons x xs)
  from Cons.prems(1) obtain s1 where a: "app s x = (s1, True)" and r: "run_all app s1 xs = Some t"
    by (auto split: prod.splits if_splits)
  from app_ext [OF a Cons.prems(2)] obtain s1' where "app s' x = (s1', True)" "ext s1 s1'" by blast
  with Cons.IH [OF r] show ?case by simp
qed simp

text \<open>Leaving one run for another that starts at the same state.\<close>

lemma switch_run:
  assumes "run_all app s xs = Some s1" and "safe_run safe app s xs" and "ext s1 t" and "run_all app s ys = Some s2"
  shows "\<exists>t2. run_all app (undo_all rv t (rev xs)) ys = Some t2 \<and> ext s2 t2"
  using run_ext [OF assms(4) undo_run_ext [OF assms(1-3)]] .

end

text \<open>
  The ledger keeps this contract. Reversal does not remove entries that application created: it
  leaves them at zero. \<open>ledger_ext\<close> is equality up to such entries.
\<close>

definition ledger_ext :: "Ledger \<Rightarrow> Ledger \<Rightarrow> bool" where
  "ledger_ext L M \<longleftrightarrow> (\<forall>a. next_nonce M a = next_nonce L a) \<and>
     (\<forall>a. get_balance M a = get_balance L a \<or> get_balance L a = None \<and> get_balance M a = Some 0)"

text \<open>The credit of a transaction did not wrap: the recipient holds at least the amount.\<close>

definition credit_safe :: "Ledger \<Rightarrow> Transaction \<Rightarrow> bool" where
  "credit_safe L tx \<longleftrightarrow> tx_amount tx \<le> balance (fst (apply_transaction L tx)) (tx_recipient tx)"

lemma ledger_ext_balance: "ledger_ext L M \<Longrightarrow> balance M a = balance L a"
  unfolding ledger_ext_def balance_get by (metis option.simps(4,5))

lemma reverse_apply:
  assumes "apply_transaction L tx = (L1, True)" and "credit_safe L tx"
  shows "\<exists>L2. reverse_transaction L1 tx = (L2, True) \<and> ledger_ext L L2"
  using assms
  by (auto simp: apply_transaction_alt reverse_transaction_alt credit_safe_def ledger_ext_def
      Let_def balance_get not_less split: if_splits option.splits)

lemma reverse_ext:
  assumes "reverse_transaction L tx = (M, True)" and "ledger_ext L L'"
  shows "\<exists>M'. reverse_transaction L' tx = (M', True) \<and> ledger_ext M M'"
proof -
  have known: "get_balance L' a = Some v" if "get_balance L a = Some v" for a v
    using assms(2) that unfolding ledger_ext_def by (metis option.distinct(1))
  from assms(1) have "get_balance L' (tx_recipient tx) \<noteq> None"
    using known by (auto simp: reverse_transaction_alt Let_def split: if_splits)
  then show ?thesis
    using assms ledger_ext_balance [OF assms(2)]
    by (auto simp: reverse_transaction_alt ledger_ext_def Let_def split: if_splits)
qed

lemma apply_ext:
  assumes "apply_transaction L tx = (M, True)" and "ledger_ext L L'"
  shows "\<exists>M'. apply_transaction L' tx = (M', True) \<and> ledger_ext M M'"
proof -
  have "get_balance L' a \<noteq> None" if "get_balance L a \<noteq> None" for a
    using assms(2) that unfolding ledger_ext_def by (metis option.distinct(1))
  moreover have "next_nonce L' a = next_nonce L a" for a using assms(2) by (simp add: ledger_ext_def)
  ultimately show ?thesis
    using assms ledger_ext_balance [OF assms(2)]
    by (auto simp: apply_transaction_alt ledger_ext_def Let_def split: if_splits)
qed

text \<open>Conversely, unless the payment moves nothing: an account with an entry of zero may then send it.\<close>

lemma apply_ext_back:
  assumes "apply_transaction L' tx = (M', True)" and "ledger_ext L L'"
    and "tx_sender tx = kCoinbaseSender \<or> tx_amount tx + tx_fee tx \<noteq> 0"
  shows "\<exists>M. apply_transaction L tx = (M, True) \<and> ledger_ext M M'"
proof -
  have b: "balance L' a = balance L a" for a by (rule ledger_ext_balance [OF assms(2)])
  have n: "next_nonce L' a = next_nonce L a" for a using assms(2) by (simp add: ledger_ext_def)
  have "get_balance L a \<noteq> None" if "balance L a \<noteq> 0" for a using that by (auto simp: balance_get split: option.splits)
  moreover have "balance L (tx_sender tx) \<noteq> 0" if "tx_sender tx \<noteq> kCoinbaseSender"
    using assms(1,3) that b by (auto simp: word_gt_0 apply_transaction_alt Let_def split: if_splits)
  ultimately obtain M where M: "apply_transaction L tx = (M, True)"
    using assms(1) b n by (auto simp: apply_transaction_alt Let_def split: if_splits)
  from apply_ext [OF M assms(2)] assms(1) M show ?thesis by auto
qed

interpretation ledger_rev: reversible apply_transaction reverse_transaction ledger_ext credit_safe
proof unfold_locales
  show "ledger_ext L L" for L by (simp add: ledger_ext_def)
  show "ledger_ext L M \<Longrightarrow> ledger_ext M N \<Longrightarrow> ledger_ext L N" for L M N
    unfolding ledger_ext_def by metis
qed (simp_all add: reverse_apply reverse_ext apply_ext)

section \<open>Runs of transactions\<close>

text \<open>Amounts the coinbases of a run create, and fees its payments pay.\<close>

definition minted :: "Transaction list \<Rightarrow> nat" where
  "minted txs = (\<Sum>tx\<leftarrow>txs. if tx_sender tx = kCoinbaseSender then unat (tx_amount tx) else 0)"

definition fees_paid :: "Transaction list \<Rightarrow> nat" where
  "fees_paid txs = (\<Sum>tx\<leftarrow>txs. if tx_sender tx = kCoinbaseSender then 0 else unat (tx_fee tx))"

lemma minted_simps [simp]: "minted [] = 0"
  "minted (tx # txs) = (if tx_sender tx = kCoinbaseSender then unat (tx_amount tx) else 0) + minted txs"
  by (simp_all add: minted_def)

lemma fees_paid_simps [simp]: "fees_paid [] = 0"
  "fees_paid (tx # txs) = (if tx_sender tx = kCoinbaseSender then 0 else unat (tx_fee tx)) + fees_paid txs"
  by (simp_all add: fees_paid_def)

lemma apply_supply:
  assumes "ledger_inv L" and "tx_sum_safe tx" and "total_supply L + minted [tx] < 2 ^ 64"
    and "apply_transaction L tx = (L', True)"
  shows "total_supply L' + fees_paid [tx] = total_supply L + minted [tx]"
  using assms apply_payment_supply [OF assms(1) _ assms(2) _ assms(4)]
    apply_coinbase_supply [OF assms(1) _ _ assms(4)]
  by (cases "tx_sender tx = kCoinbaseSender") auto

lemma credit_safe_supply:
  assumes "ledger_inv L" and "tx_sum_safe tx" and "total_supply L + minted [tx] < 2 ^ 64"
    and "apply_transaction L tx = (L', True)"
  shows "credit_safe L tx"
proof -
  let ?s = "tx_sender tx" and ?t = "tx_amount tx + tx_fee tx" and ?r = "tx_recipient tx"
  let ?M = "if ?s = kCoinbaseSender then L
    else set_nonce (set_balance L ?s (balance L ?s - ?t)) ?s (tx_nonce tx + 1)"
  from assms(4) have t: "?s \<noteq> kCoinbaseSender \<Longrightarrow> ?t \<le> balance L ?s"
    and L': "L' = set_balance ?M ?r (balance ?M ?r + tx_amount tx)"
    by (auto simp: apply_transaction_alt Let_def not_less split: if_splits)
  have "total_supply ?M + unat (tx_amount tx) < 2 ^ 64"
    using assms(3) supply_debit [OF assms(1) t] unat_tx_sum [OF assms(2)] by auto
  moreover have "unat (balance ?M ?r) \<le> total_supply ?M"
    by (rule balance_le_supply) (simp add: assms(1))
  ultimately have "unat (balance ?M ?r) + unat (tx_amount tx) < 2 ^ LENGTH(64)" by simp
  then have "tx_amount tx \<le> balance ?M ?r + tx_amount tx"
    by (simp add: word_le_nat_alt unat_add_lem [THEN iffD1])
  then show ?thesis using assms(4) L' by (simp add: credit_safe_def)
qed

lemma run_all_supply:
  assumes "ledger_inv L" and "\<And>tx. tx \<in> set txs \<Longrightarrow> tx_sum_safe tx"
    and "total_supply L + minted txs < 2 ^ 64" and "run_all apply_transaction L txs = Some L'"
  shows "ledger_inv L' \<and> total_supply L' + fees_paid txs = total_supply L + minted txs \<and>
    safe_run credit_safe apply_transaction L txs"
  using assms
proof (induction txs arbitrary: L)
  case Nil
  then show ?case by simp
next
  case (Cons tx txs)
  from Cons.prems obtain L1 where a: "apply_transaction L tx = (L1, True)"
    and r: "run_all apply_transaction L1 txs = Some L'"
    by (auto split: prod.splits if_splits)
  have s: "tx_sum_safe tx" "total_supply L + minted [tx] < 2 ^ 64"
    using Cons.prems(2,3) by simp_all
  have inv: "ledger_inv L1"
    using apply_transaction_inv [OF Cons.prems(1), of tx] a by simp
  have e: "total_supply L1 + fees_paid [tx] = total_supply L + minted [tx]"
    by (rule apply_supply) (use Cons.prems(1) s a in simp_all)
  have "total_supply L1 + minted txs < 2 ^ 64"
    using e Cons.prems(3) by (simp split: if_splits)
  from Cons.IH [OF inv Cons.prems(2) this r] e a
    credit_safe_supply [OF Cons.prems(1) s a]
  show ?case by (auto split: if_splits)
qed

lemma apply_next_nonce:
  assumes "apply_transaction L tx = (L', True)"
  shows "next_nonce L' a =
    next_nonce L a + (if tx_sender tx = a \<and> a \<noteq> kCoinbaseSender then 1 else 0)"
  using assms by (auto simp: apply_transaction_alt Let_def split: if_splits)

text \<open>How many payments of a run an address sent.\<close>

definition sent_by :: "str \<Rightarrow> Transaction list \<Rightarrow> nat" where
  "sent_by a txs = length (filter (\<lambda>tx. tx_sender tx = a) txs)"

lemma run_all_next_nonce:
  assumes "run_all apply_transaction L txs = Some L'" and "a \<noteq> kCoinbaseSender"
  shows "next_nonce L' a = next_nonce L a + word_of_nat (sent_by a txs)"
  using assms
proof (induction txs arbitrary: L)
  case Nil
  then show ?case by (simp add: sent_by_def)
next
  case (Cons tx txs)
  from Cons.prems obtain L1 where a: "apply_transaction L tx = (L1, True)"
    and r: "run_all apply_transaction L1 txs = Some L'"
    by (auto split: prod.splits if_splits)
  from Cons.IH [OF r Cons.prems(2)] apply_next_nonce [OF a, of a] Cons.prems(2)
  show ?case by (simp add: sent_by_def)
qed

section \<open>The account model\<close>

text \<open>
  What the ledger promises its callers: balances are numbers, a payment moves its amount and burns
  its fee for the miner to claim, and a sender's nonce counts the payments made.
\<close>

record accounts =
  acc_balance :: "str \<Rightarrow> nat"
  acc_nonce :: "str \<Rightarrow> u64"

definition ledger_abs :: "Ledger \<Rightarrow> accounts" where
  "ledger_abs L = \<lparr>acc_balance = (\<lambda>a. unat (balance L a)), acc_nonce = next_nonce L\<rparr>"

definition acc_credit :: "str \<Rightarrow> nat \<Rightarrow> accounts \<Rightarrow> accounts" where
  "acc_credit a n A = A\<lparr>acc_balance := (acc_balance A)(a := acc_balance A a + n)\<rparr>"

definition acc_pay :: "str \<Rightarrow> nat \<Rightarrow> accounts \<Rightarrow> accounts" where
  "acc_pay a n A = A\<lparr>acc_balance := (acc_balance A)(a := acc_balance A a - n),
     acc_nonce := (acc_nonce A)(a := acc_nonce A a + 1)\<rparr>"

definition acc_transfer :: "Transaction \<Rightarrow> accounts \<Rightarrow> accounts option" where
  "acc_transfer tx A =
     (let cost = unat (tx_amount tx) + unat (tx_fee tx); s = tx_sender tx in
      if s = kCoinbaseSender then Some (acc_credit (tx_recipient tx) (unat (tx_amount tx)) A)
      else if cost \<le> acc_balance A s \<and> tx_nonce tx = acc_nonce A s
      then Some (acc_credit (tx_recipient tx) (unat (tx_amount tx)) (acc_pay s cost A))
      else None)"

lemma ledger_abs_upd:
  "ledger_abs (set_balance L a v) =
     (ledger_abs L)\<lparr>acc_balance := (acc_balance (ledger_abs L))(a := unat v)\<rparr>"
  "ledger_abs (set_nonce L a n) =
     (ledger_abs L)\<lparr>acc_nonce := (acc_nonce (ledger_abs L))(a := n)\<rparr>"
  by (auto simp: ledger_abs_def fun_eq_iff)

lemma ledger_abs_credit:
  assumes "ledger_inv L" and "total_supply L + unat v < 2 ^ 64"
  shows "ledger_abs (set_balance L a (balance L a + v)) = acc_credit a (unat v) (ledger_abs L)"
proof -
  have "unat (balance L a) + unat v < 2 ^ LENGTH(64)"
    using balance_le_supply [OF assms(1), of a] assms(2) by simp
  then have "unat (balance L a + v) = unat (balance L a) + unat v"
    by (rule unat_add_lem [THEN iffD1])
  then show ?thesis
    by (simp add: ledger_abs_upd acc_credit_def) (simp add: ledger_abs_def)
qed

lemma ledger_abs_pay:
  assumes "v \<le> balance L a"
  shows "ledger_abs (set_nonce (set_balance L a (balance L a - v)) a (next_nonce L a + 1)) =
    acc_pay a (unat v) (ledger_abs L)"
  using unat_sub [OF assms]
  by (simp add: ledger_abs_upd acc_pay_def) (simp add: ledger_abs_def)

section \<open>A concrete ledger\<close>

definition sample_ledger :: Ledger where
  "sample_ledger = set_balance empty_ledger (derive_address sample_openssl [1]) 100"

lemma sample_ledger_facts [simp]:
  "ledger_inv sample_ledger" "total_supply sample_ledger = 100"
  "balance sample_ledger (derive_address sample_openssl [1]) = 100"
  "get_balance sample_ledger (derive_address sample_openssl [1]) = Some 100"
  "next_nonce sample_ledger a = 0"
  by (simp_all add: sample_ledger_def total_supply_def)
    (simp_all add: set_balance_def empty_ledger_def next_nonce_def)

lemma sample_payment:
  "apply_transaction sample_ledger (sample_tx 1 2 30 1 0) =
     (set_balance (set_nonce (set_balance sample_ledger (derive_address sample_openssl [1]) 69)
        (derive_address sample_openssl [1]) 1) (derive_address sample_openssl [2]) 30, True)"
  by (simp add: apply_transaction_alt Let_def balance_get)
    (simp add: sample_ledger_def, simp add: empty_ledger_def get_balance_def)

lemma sample_tx_sum_safe [simp]: "tx_sum_safe (sample_tx 1 2 30 1 0)"
  by (simp add: tx_sum_safe_def)

section \<open>Properties\<close>

text \<open>C12: applying a transaction implements the account model: it succeeds exactly when the sender can
  pay amount and fee and presents the current nonce, and then moves exactly the amount. The
  hypotheses are the absence of 64-bit wrap-around and a sender the ledger knows or a payment of
  something.\<close>

theorem apply_transaction_refines:
  assumes "ledger_inv L" and "tx_sum_safe tx" and "total_supply L + minted [tx] < 2 ^ 64"
    and "get_balance L (tx_sender tx) \<noteq> None \<or> 0 < unat (tx_amount tx) + unat (tx_fee tx)"
  shows "(case apply_transaction L tx of (L', ok) \<Rightarrow> if ok then Some (ledger_abs L') else None) =
    acc_transfer tx (ledger_abs L)"
proof (cases "tx_sender tx = kCoinbaseSender")
  case True
  with assms(3) ledger_abs_credit [OF assms(1), of "tx_amount tx" "tx_recipient tx"] show ?thesis
    by (simp add: apply_transaction_alt acc_transfer_def Let_def)
next
  case False
  let ?s = "tx_sender tx" and ?t = "tx_amount tx + tx_fee tx" and ?r = "tx_recipient tx"
  let ?M = "set_nonce (set_balance L ?s (balance L ?s - ?t)) ?s (next_nonce L ?s + 1)"
  note sum = unat_tx_sum [OF assms(2)]
  have guard: "?t \<le> balance L ?s \<longleftrightarrow> unat (tx_amount tx) + unat (tx_fee tx) \<le> unat (balance L ?s)"
    by (simp add: word_le_nat_alt sum)
  show ?thesis
  proof (cases "?t \<le> balance L ?s \<and> tx_nonce tx = next_nonce L ?s")
    case True
    have known: "get_balance L ?s \<noteq> None"
      using True assms(4) guard by (auto simp: balance_get split: option.splits)
    have "total_supply ?M + unat ?t = total_supply L"
      using supply_debit [OF assms(1)] True by simp
    then have "total_supply ?M + unat (tx_amount tx) < 2 ^ 64"
      using assms(3) sum by simp
    then have "ledger_abs (set_balance ?M ?r (balance ?M ?r + tx_amount tx)) =
        acc_credit ?r (unat (tx_amount tx)) (acc_pay ?s (unat ?t) (ledger_abs L))"
      using True assms(1) by (subst ledger_abs_credit) (simp_all add: ledger_abs_pay)
    with True False known guard sum show ?thesis
      by (simp add: apply_transaction_alt acc_transfer_def Let_def ledger_abs_def)
  next
    case False
    with \<open>?s \<noteq> kCoinbaseSender\<close> guard show ?thesis
      by (auto simp: apply_transaction_alt acc_transfer_def Let_def ledger_abs_def)
  qed
qed

theorem apply_transaction_refines_witness:
  "(case apply_transaction sample_ledger (sample_tx 1 2 30 1 0) of
      (L', ok) \<Rightarrow> if ok then Some (ledger_abs L') else None) =
   acc_transfer (sample_tx 1 2 30 1 0) (ledger_abs sample_ledger)"
  by (rule apply_transaction_refines) simp_all

text \<open>a payment conserves the total supply but for its fee, which leaves the ledger for the
  coinbase to claim, provided amount and fee do not overflow when added.\<close>

theorem payment_conserves_supply:
  assumes "ledger_inv L" and "total_supply L < 2 ^ 64" and "tx_sum_safe tx"
    and "tx_sender tx \<noteq> kCoinbaseSender" and "apply_transaction L tx = (L', True)"
  shows "total_supply L' + unat (tx_fee tx) = total_supply L"
  using assms by (rule apply_payment_supply)

theorem payment_conserves_supply_witness:
  "total_supply (fst (apply_transaction sample_ledger (sample_tx 1 2 30 1 0))) + 1 = 100"
  using payment_conserves_supply [of sample_ledger "sample_tx 1 2 30 1 0", OF _ _ _ _ sample_payment]
  by (simp add: sample_payment)

text \<open>the proviso is needed. The code adds amount and fee in 64 bits, so a payment whose sum wraps
  to zero is affordable for an empty account and creates 2^64 - 1 coins.\<close>

theorem overflowing_payment_mints:
  "let tx = sample_tx 1 2 (- 1) 1 0; L = set_balance empty_ledger (tx_sender tx) 0;
       (L', ok) = apply_transaction L tx
   in has_valid_signature sample_openssl tx = Inr True \<and> ok \<and>
      total_supply L = 0 \<and> total_supply L' = 2 ^ 64 - 1"
  by (simp add: apply_transaction_alt balance_get Let_def)
    (simp add: total_supply_def set_balance_def set_nonce_def empty_ledger_def next_nonce_def get_balance_def
      unsigned_minus_1_eq_mask mask_eq_exp_minus_1)

text \<open>A payment that was applied cannot be applied again, not even after further transactions,
  until its sender has made 2^64 payments.\<close>

theorem replay_rejected:
  assumes "apply_transaction L tx = (L1, True)" and "tx_sender tx \<noteq> kCoinbaseSender"
    and "run_all apply_transaction L1 txs = Some L2"
    and "Suc (sent_by (tx_sender tx) txs) < 2 ^ 64"
  shows "apply_transaction L2 tx = (L2, False)"
proof -
  have "tx_nonce tx = next_nonce L (tx_sender tx)"
    using assms(1,2) by (auto simp: apply_transaction_alt Let_def split: if_splits)
  moreover have "next_nonce L2 (tx_sender tx) =
      next_nonce L (tx_sender tx) + word_of_nat (Suc (sent_by (tx_sender tx) txs))"
    using run_all_next_nonce [OF assms(3,2)] apply_next_nonce [OF assms(1), of "tx_sender tx"] assms(2)
    by simp
  moreover have "(word_of_nat (Suc (sent_by (tx_sender tx) txs)) :: u64) \<noteq> 0"
    using assms(4) by (simp add: word_of_nat_eq_0_iff del: of_nat_Suc) (auto dest: dvd_imp_le)
  ultimately show ?thesis
    using assms(2) by (simp add: apply_transaction_alt Let_def)
qed

theorem replay_rejected_witness:
  "let (L1, ok) = apply_transaction sample_ledger (sample_tx 1 2 30 1 0)
   in ok \<and> apply_transaction L1 (sample_tx 1 2 30 1 0) = (L1, False)"
  using replay_rejected [OF sample_payment, of "[]"]
  by (simp add: sample_payment sent_by_def)

end
