(* ===== verification/FC_Consensus.thy ===== *)
theory FC_Consensus
  imports FC_Block FC_Ledger
begin

unbundle bit_operations_syntax

text \<open>
  src/include/consensus/ConsensusParams.hpp, src/include/consensus/ProofOfWork.hpp and
  src/src/consensus/ProofOfWork.cpp: the proof-of-work target, mining, difficulty retargeting, the
  coinbase rule and the timestamp rules. A chain is seen through a callback from a height to the
  block there, which throws past the end.
\<close>

section \<open>Parameters\<close>

record ConsensusParams =
  cp_initial_difficulty :: u32
  cp_min_difficulty :: u32
  cp_target_block_time :: u64
  cp_retarget_interval :: nat
  cp_mtp_window :: nat
  cp_max_future_drift :: u64

definition kMainParams :: ConsensusParams where
  "kMainParams = \<lparr>cp_initial_difficulty = 18, cp_min_difficulty = 18, cp_target_block_time = 1,
     cp_retarget_interval = 20, cp_mtp_window = 11, cp_max_future_drift = 120\<rparr>"

definition kTestParams :: ConsensusParams where
  "kTestParams = \<lparr>cp_initial_difficulty = 4, cp_min_difficulty = 1, cp_target_block_time = 10,
     cp_retarget_interval = 20, cp_mtp_window = 11, cp_max_future_drift = 120\<rparr>"

definition mining_reward :: u64 where "mining_reward = 50"
definition kMaxNonce :: u32 where "kMaxNonce = - 1"
definition kCancelCheckInterval :: u32 where "kCancelCheckInterval = 0xffff"
definition kMaxTimestampBumps :: u32 where "kMaxTimestampBumps = 60"

section \<open>Proof-of-work target\<close>

text \<open>The inner loop of \<open>meets_target\<close>: up to \<open>k\<close> more bits of one byte.\<close>

fun scan_byte :: "nat \<Rightarrow> u8 \<Rightarrow> u8 \<Rightarrow> u32 \<Rightarrow> u32 \<times> bool" where
  "scan_byte 0 msk byte result = (result, False)"
| "scan_byte (Suc k) msk byte result =
     (if byte AND msk = 0 then scan_byte k (drop_bit 1 msk) byte (result + 1)
      else (result, True))"

fun scan_bytes :: "HashBytes \<Rightarrow> u32 \<Rightarrow> u32" where
  "scan_bytes [] result = result"
| "scan_bytes (byte # rest) result =
     (let (result, found_one) = scan_byte 8 0x80 byte result
      in if found_one then result else scan_bytes rest result)"

definition meets_target :: "HashBytes \<Rightarrow> u32 \<Rightarrow> bool" where
  "meets_target hash difficulty \<longleftrightarrow> difficulty \<le> scan_bytes hash 0"

section \<open>Mining\<close>

function mine_loop :: "openssl \<Rightarrow> Block \<Rightarrow> u32 \<Rightarrow> u32 \<Rightarrow> Block result" where
  "mine_loop C block difficulty nonce =
     (if nonce < kMaxNonce then
        let block = block\<lparr>b_nonce := nonce\<rparr>; hash = block_compute_hash C block in
        if meets_target hash difficulty then Inr (block\<lparr>b_hash := hash\<rparr>)
        else mine_loop C block difficulty (nonce + 1)
      else Inl (Runtime_error ''mine_block: exhausted nonce range without finding a valid hash''))"
  by pat_completeness auto

lemma unat_kMaxNonce: "unat kMaxNonce = 2 ^ 32 - 1"
  by (simp add: kMaxNonce_def unsigned_minus_1_eq_mask mask_eq_exp_minus_1)

lemma unat_nonce_Suc: "n < kMaxNonce \<Longrightarrow> unat (n + 1) = Suc (unat n)"
  using unat_kMaxNonce by (simp add: word_less_nat_alt unat_word_ariths(1))

termination mine_loop
proof (relation "measure (\<lambda>(_, _, _, nonce). 2 ^ 32 - unat nonce)")
  fix C :: openssl and block block' :: Block and difficulty nonce :: u32 and hash
  assume "nonce < kMaxNonce"
  then have "unat nonce < 2 ^ 32 - 1" and "unat (nonce + 1) = Suc (unat nonce)"
    by (simp_all only: word_less_nat_alt unat_kMaxNonce unat_nonce_Suc)
  then show "((C, block', difficulty, nonce + 1), C, block, difficulty, nonce) \<in>
      measure (\<lambda>(_, _, _, nonce). 2 ^ 32 - unat nonce)"
    by simp
qed simp

declare mine_loop.simps [simp del]

definition mine_block ::
  "openssl \<Rightarrow> u32 \<Rightarrow> HashBytes \<Rightarrow> u64 \<Rightarrow> u32 \<Rightarrow> Transaction list \<Rightarrow> Block result" where
  "mine_block C version prev_hash timestamp difficulty transactions =
     mine_loop C ((mk_Block C version prev_hash timestamp transactions)\<lparr>b_difficulty := difficulty\<rparr>)
       difficulty 0"

text \<open>
  The cancellable miner. \<open>should_stop\<close> is a \<open>std::function\<close> that may be empty; its
  answers over time are a sequence, of which call number \<open>calls\<close> comes next.
\<close>

function mine_cancel_loop ::
  "openssl \<Rightarrow> (nat \<Rightarrow> bool) option \<Rightarrow> Block \<Rightarrow> u32 \<Rightarrow> u32 \<Rightarrow> nat \<Rightarrow> Block option" where
  "mine_cancel_loop C should_stop block nonce timestamp_bumps calls =
     (let ask = nonce mod kCancelCheckInterval = 0 \<and> should_stop \<noteq> None;
          calls' = (if ask then Suc calls else calls);
          block = block\<lparr>b_nonce := nonce\<rparr>;
          hash = block_compute_hash C block
      in if ask \<and> the should_stop calls then None
         else if meets_target hash (b_difficulty block) then Some (block\<lparr>b_hash := hash\<rparr>)
         else if nonce + 1 = kMaxNonce then
           if timestamp_bumps = kMaxTimestampBumps then None
           else mine_cancel_loop C should_stop (block\<lparr>b_timestamp := b_timestamp block + 1\<rparr>) 0
                  (timestamp_bumps + 1) calls'
         else mine_cancel_loop C should_stop block (nonce + 1) timestamp_bumps calls')"
  by pat_completeness auto

lemma unat_diff_Suc:
  fixes x y :: "'a::len word"
  assumes "x \<noteq> y" shows "unat (y - x) = Suc (unat (y - (x + 1)))"
proof -
  have "y - x \<noteq> 0" using assms by simp
  then have "unat (y - x - 1) = unat (y - x) - 1" and "0 < unat (y - x)"
    by (simp_all add: unat_minus_one unat_gt_0)
  then show ?thesis by (simp add: diff_diff_eq)
qed

lemma unat_diff_decreases: "x \<noteq> y \<Longrightarrow> unat (y - (x + 1)) < unat (y - x)"
  by (simp add: unat_diff_Suc [of x y])

termination mine_cancel_loop
proof (relation "measures [\<lambda>(_, _, _, _, bumps, _). unat (kMaxTimestampBumps - bumps),
    \<lambda>(_, _, _, nonce, _, _). unat (kMaxNonce - 1 - nonce)]", goal_cases)
  case 1
  then show ?case by simp
next
  case 2
  then show ?case by (simp add: unat_diff_decreases)
next
  case (3 C stop block nonce bumps calls)
  then have "nonce \<noteq> kMaxNonce - 1" by auto
  from unat_diff_decreases [OF this] show ?case by (simp add: algebra_simps)
qed

declare mine_cancel_loop.simps [simp del]

definition mine_block_cancel ::
  "openssl \<Rightarrow> u32 \<Rightarrow> HashBytes \<Rightarrow> u64 \<Rightarrow> u32 \<Rightarrow> Transaction list \<Rightarrow> (nat \<Rightarrow> bool) option \<Rightarrow> Block option" where
  "mine_block_cancel C version prev_hash timestamp difficulty transactions should_stop =
     mine_cancel_loop C should_stop
       ((mk_Block C version prev_hash timestamp transactions)\<lparr>b_difficulty := difficulty\<rparr>) 0 0 0"

section \<open>Difficulty\<close>

text \<open>
  \<open>fp expected actual\<close> is the value of \<open>llround(log2(double(expected) / double(actual)))\<close>,
  which the floating-point library computes.
\<close>

type_synonym llround_log2 = "u64 \<Rightarrow> u64 \<Rightarrow> int"

definition kMaxStepBits :: int where "kMaxStepBits = 2"

definition retarget :: "llround_log2 \<Rightarrow> u32 \<Rightarrow> u64 \<Rightarrow> u64 \<Rightarrow> u32" where
  "retarget fp old_difficulty actual_time_seconds expected_time_seconds =
     (let actual = (if actual_time_seconds = 0 then 1 else actual_time_seconds) in
      if expected_time_seconds = 0 then old_difficulty
      else
        let rounded_delta = fp expected_time_seconds actual;
            rounded_delta = (if rounded_delta > kMaxStepBits then kMaxStepBits
                             else if rounded_delta < - kMaxStepBits then - kMaxStepBits
                             else rounded_delta)
        in if rounded_delta > 0 then
             let new_difficulty = (ucast old_difficulty :: u64) + word_of_int rounded_delta;
                 new_difficulty = (if new_difficulty > 0xFFFFFFFF then 0xFFFFFFFF else new_difficulty)
             in ucast new_difficulty
           else if rounded_delta < 0 then
             let decrease = (word_of_int (- rounded_delta) :: u64)
             in if decrease \<ge> ucast old_difficulty then 0 else old_difficulty - ucast decrease
           else old_difficulty)"

definition next_difficulty ::
  "llround_log2 \<Rightarrow> nat \<Rightarrow> ConsensusParams \<Rightarrow> (nat \<Rightarrow> Block result) \<Rightarrow> u32 result" where
  "next_difficulty fp height params block_at =
     (let interval = cp_retarget_interval params in
      if interval < 2 \<or> height \<le> interval then Inr (cp_initial_difficulty params)
      else bindE (block_at (height - 1)) (\<lambda>parent.
        if height mod interval \<noteq> 0 then Inr (b_difficulty parent)
        else bindE (block_at (height - interval)) (\<lambda>first_block.
          let first = b_timestamp first_block;
              last = b_timestamp parent;
              actual = (if last > first then last - first else 0);
              expected = word_of_nat (interval - 1) * cp_target_block_time params
          in Inr (max (retarget fp (b_difficulty parent) actual expected)
                      (cp_min_difficulty params)))))"

section \<open>Timestamps\<close>

fun timestamps_of :: "(nat \<Rightarrow> Block result) \<Rightarrow> nat list \<Rightarrow> u64 list result" where
  "timestamps_of block_at [] = Inr []"
| "timestamps_of block_at (i # is) =
     bindE (block_at i) (\<lambda>b. bindE (timestamps_of block_at is) (\<lambda>ts. Inr (b_timestamp b # ts)))"

definition median_time_past :: "nat \<Rightarrow> nat \<Rightarrow> (nat \<Rightarrow> Block result) \<Rightarrow> u64 result" where
  "median_time_past height window block_at =
     (if height = 0 \<or> window = 0 then Inr 0
      else
        let start = (if height > window then height - window else 0)
        in bindE (timestamps_of block_at [start..<height])
             (\<lambda>timestamps. Inr (sort timestamps ! (length timestamps div 2))))"

definition timestamp_is_valid ::
  "Block \<Rightarrow> nat \<Rightarrow> u64 \<Rightarrow> ConsensusParams \<Rightarrow> (nat \<Rightarrow> Block result) \<Rightarrow> bool result" where
  "timestamp_is_valid block height now params block_at =
     (let timestamp = b_timestamp block in
      if timestamp > now \<and> timestamp - now > cp_max_future_drift params then Inr False
      else bindE (median_time_past height (cp_mtp_window params) block_at)
             (\<lambda>median. if timestamp \<le> median then Inr False else Inr True))"

section \<open>Coinbase amount\<close>

text \<open>
  The first loop of \<open>validate_coinbase_amount\<close>: \<open>found\<close> is \<open>index\<close> once a coinbase was seen; the
  result is \<open>None\<close> where the loop returns on a second one.
\<close>

fun coinbase_scan :: "Transaction list \<Rightarrow> nat \<Rightarrow> nat option \<Rightarrow> nat option option" where
  "coinbase_scan [] i found = Some found"
| "coinbase_scan (tx # txs) i found =
     (if tx_sender tx = kCoinbaseSender
      then if found \<noteq> None then None else coinbase_scan txs (Suc i) (Some i)
      else coinbase_scan txs (Suc i) found)"

fun fees_except :: "Transaction list \<Rightarrow> nat \<Rightarrow> nat \<Rightarrow> u64 \<Rightarrow> u64" where
  "fees_except [] i index fees_total = fees_total"
| "fees_except (tx # txs) i index fees_total =
     fees_except txs (Suc i) index (if i = index then fees_total else fees_total + tx_fee tx)"

definition validate_coinbase_amount :: "Transaction list \<Rightarrow> bool" where
  "validate_coinbase_amount txs =
     (case coinbase_scan txs 0 None of
        None \<Rightarrow> False
      | Some None \<Rightarrow> True
      | Some (Some index) \<Rightarrow>
          tx_amount (txs ! index) \<le> mining_reward + fees_except txs 0 index 0)"

section \<open>The target is a bound on the hash\<close>

text \<open>The hash read as a big-endian number.\<close>

fun hash_val :: "HashBytes \<Rightarrow> nat" where
  "hash_val [] = 0"
| "hash_val (b # bs) = unat b * 256 ^ length bs + hash_val bs"

lemma hash_val_less: "hash_val bs < 256 ^ length bs"
proof (induction bs)
  case (Cons b bs)
  have "unat b \<le> 255" using unat_lt [of b] by simp
  then have "unat b * 256 ^ length bs \<le> 255 * 256 ^ length bs" by (rule mult_le_mono1)
  with Cons have "hash_val (b # bs) < 256 * 256 ^ length bs"
    unfolding hash_val.simps by linarith
  then show ?case by simp
qed simp

lemma hash_val_zeros: "hash_val (replicate n 0) = 0"
  by (induction n) simp_all

lemma and_mask_bit:
  fixes b :: u8
  assumes "unat b < 2 ^ Suc k"
  shows "b AND 2 ^ k = 0 \<longleftrightarrow> unat b < 2 ^ k"
proof -
  have "b AND 2 ^ k = 0 \<longleftrightarrow> \<not> bit b k"
    by (simp add: bit_iff_and_push_bit_not_eq_0 push_bit_eq_mult)
  also have "\<dots> \<longleftrightarrow> even (unat b div 2 ^ k)"
  proof -
    have "bit (unat b) k \<longleftrightarrow> bit b k" by (simp add: bit_unsigned_iff)
    then show ?thesis using bit_iff_odd [of "unat b" k] by blast
  qed
  also have "\<dots> \<longleftrightarrow> unat b < 2 ^ k"
  proof -
    have "unat b div 2 ^ k < 2" using assms by (simp add: less_mult_imp_div_less)
    then have "unat b div 2 ^ k = 0 \<or> unat b div 2 ^ k = 1" by linarith
    then show ?thesis by (auto simp: div_eq_0_iff)
  qed
  finally show ?thesis .
qed

text \<open>\<open>z\<close> is the number of leading zeros of the \<open>n\<close>-bit number \<open>v\<close>.\<close>

definition leading_zeros :: "nat \<Rightarrow> nat \<Rightarrow> nat \<Rightarrow> bool" where
  "leading_zeros n v z \<longleftrightarrow> z \<le> n \<and> (\<forall>d\<le>n. d \<le> z \<longleftrightarrow> v < 2 ^ (n - d))"

lemma leading_zeros_Suc_less:
  assumes "leading_zeros n v z" and "v < 2 ^ Suc n"
  shows "leading_zeros (Suc n) v (Suc z)"
  unfolding leading_zeros_def
proof (intro conjI allI impI)
  fix d assume "d \<le> Suc n"
  then show "d \<le> Suc z \<longleftrightarrow> v < 2 ^ (Suc n - d)"
    using assms by (cases d) (auto simp: leading_zeros_def)
qed (use assms in \<open>simp add: leading_zeros_def\<close>)

lemma leading_zeros_none:
  assumes "2 ^ n \<le> v" and "v < 2 ^ Suc n" shows "leading_zeros (Suc n) v 0"
  unfolding leading_zeros_def
proof (intro conjI allI impI)
  fix d :: nat assume "d \<le> Suc n"
  show "d \<le> 0 \<longleftrightarrow> v < 2 ^ (Suc n - d)"
  proof (cases d)
    case (Suc e)
    then have "(2::nat) ^ (Suc n - d) \<le> 2 ^ n" by (intro power_increasing) auto
    with assms have "\<not> v < 2 ^ (Suc n - d)" by linarith
    with Suc show ?thesis by simp
  qed (use assms in simp)
qed simp

lemma scan_byte_zeros:
  assumes "unat b < 2 ^ k" and "m = (case k of 0 \<Rightarrow> 0 | Suc j \<Rightarrow> 2 ^ j)" and "k \<le> 8"
  shows "\<exists>z. leading_zeros k (unat b) z \<and> scan_byte k m b r = (r + word_of_nat z, b \<noteq> 0)"
  using assms
proof (induction k arbitrary: m r)
  case 0
  then show ?case by (auto simp: leading_zeros_def unsigned_eq_0_iff)
next
  case (Suc k)
  show ?case
  proof (cases "unat b < 2 ^ k")
    case True
    have "drop_bit 1 m = (case k of 0 \<Rightarrow> 0 | Suc j \<Rightarrow> 2 ^ j)"
    proof (cases k)
      case (Suc j)
      have "drop_bit 1 (2 ^ Suc j :: u8) = 2 ^ j"
        using Suc Suc.prems(3) by (intro bit_eqI) (auto simp: bit_drop_bit_eq bit_exp_iff simp del: power_Suc)
      then show ?thesis using Suc Suc.prems(2) by simp
    qed (use Suc.prems(2) in simp)
    from Suc.IH [OF True this] Suc.prems obtain z where
      "leading_zeros k (unat b) z" "scan_byte k (drop_bit 1 m) b (r + 1) = (r + 1 + word_of_nat z, b \<noteq> 0)"
      by (metis Suc_leD)
    with True Suc.prems show ?thesis
      by (intro exI [of _ "Suc z"]) (simp add: and_mask_bit leading_zeros_Suc_less)
  next
    case False
    with Suc.prems have "b \<noteq> 0" by (intro notI) simp
    with False Suc.prems show ?thesis
      by (intro exI [of _ 0]) (simp add: and_mask_bit leading_zeros_none)
  qed
qed

lemma leading_zeros_append_zero:
  assumes "leading_zeros n v z" shows "leading_zeros (m + n) v (m + z)"
proof -
  have "v < 2 ^ n" using assms by (auto simp: leading_zeros_def)
  show ?thesis
  proof (induction m)
    case (Suc m)
    have "v < 2 ^ (m + Suc n)" 
      by (rule less_le_trans [OF \<open>v < 2 ^ n\<close>]) (intro power_increasing, auto)
    then show ?case using leading_zeros_Suc_less [OF Suc.IH] by simp
  qed (use assms in simp)
qed

lemma leading_zeros_shift:
  assumes "leading_zeros n v z" and "0 < v" and "w < 2 ^ m"
  shows "leading_zeros (n + m) (v * 2 ^ m + w) z"
proof -
  have "v \<ge> 1" using assms by simp
  have z: "z \<le> n" and vn: "v < 2 ^ n" using assms(1) by (auto simp: leading_zeros_def)
  have iff: "v * 2 ^ m + w < 2 ^ (e + m) \<longleftrightarrow> v < 2 ^ e" for e
  proof
    assume "v < 2 ^ e"
    then have "Suc v * 2 ^ m \<le> 2 ^ e * 2 ^ m" by (intro mult_le_mono1) simp
    with assms(3) show "v * 2 ^ m + w < 2 ^ (e + m)" by (simp add: power_add)
  next
    assume "v * 2 ^ m + w < 2 ^ (e + m)"
    then have "v * 2 ^ m < 2 ^ e * 2 ^ m" unfolding power_add by (rule add_lessD1)
    then show "v < 2 ^ e" by simp
  qed
  show ?thesis unfolding leading_zeros_def
  proof (intro conjI allI impI)
    fix d assume d: "d \<le> n + m"
    show "d \<le> z \<longleftrightarrow> v * 2 ^ m + w < 2 ^ (n + m - d)"
    proof (cases "d \<le> n")
      case True
      then have "n + m - d = (n - d) + m" by simp
      with True assms(1) show ?thesis by (simp only: iff) (simp add: leading_zeros_def)
    next
      case False
      then have "(2::nat) ^ (n + m - d) \<le> 2 ^ m" by (intro power_increasing) auto
      also have "\<dots> \<le> v * 2 ^ m" using \<open>v \<ge> 1\<close> by simp
      finally show ?thesis using False z by auto
    qed
  qed (use z in simp)
qed

lemma scan_bytes_zeros:
  "\<exists>z. leading_zeros (8 * length bs) (hash_val bs) z \<and> scan_bytes bs r = r + word_of_nat z"
proof (induction bs arbitrary: r)
  case Nil
  show ?case by (auto simp: leading_zeros_def)
next
  case (Cons b bs)
  have "unat b < 2 ^ 8" using unat_lt [of b] by simp
  from scan_byte_zeros [OF this refl, of r] obtain z where
    z: "leading_zeros 8 (unat b) z" "scan_byte 8 0x80 b r = (r + word_of_nat z, b \<noteq> 0)"
    by (auto simp: numeral_eq_Suc)
  show ?case
  proof (cases "b = 0")
    case True
    with z have "z = 8" by (force simp: leading_zeros_def)
    from Cons.IH obtain y where
      "leading_zeros (8 * length bs) (hash_val bs) y" "scan_bytes bs (r + 8) = r + 8 + word_of_nat y"
      by blast
    with leading_zeros_append_zero [of _ _ y 8] True z \<open>z = 8\<close> show ?thesis
      by (intro exI [of _ "8 + y"]) simp
  next
    case False
    then have "0 < unat b" by (simp add: unat_gt_0)
    with False z leading_zeros_shift [OF z(1), of "hash_val bs" "8 * length bs"] hash_val_less [of bs]
    show ?thesis by (intro exI [of _ z]) (simp add: power_mult)
  qed
qed

text \<open>C17: A 32-byte hash meets a difficulty exactly when, read as a big-endian 256-bit number, it
  lies below \<open>2 ^ (256 - difficulty)\<close>; no hash meets a difficulty above 256.\<close>

theorem meets_target_iff:
  assumes "length h = 32"
  shows "meets_target h d \<longleftrightarrow> unat d \<le> 256 \<and> hash_val h < 2 ^ (256 - unat d)"
proof -
  obtain z where z: "leading_zeros 256 (hash_val h) z" "scan_bytes h 0 = word_of_nat z"
    using scan_bytes_zeros [of h 0] assms by auto
  then have "z \<le> 256" by (simp add: leading_zeros_def)
  then have "unat (scan_bytes h 0) = z" using z(2) by (simp add: unat_of_nat)
  then have "meets_target h d \<longleftrightarrow> unat d \<le> z"
    by (simp add: meets_target_def word_le_nat_alt)
  with z(1) \<open>z \<le> 256\<close> show ?thesis unfolding leading_zeros_def by (meson le_trans)
qed

theorem meets_target_iff_witness:
  "meets_target (0 # 1 # replicate 30 0) 15 \<and> \<not> meets_target (0 # 1 # replicate 30 0) 16"
  using meets_target_iff [of "0 # 1 # replicate 30 0" 15]
    meets_target_iff [of "0 # 1 # replicate 30 0" 16]
  by (simp add: hash_val_zeros)

section \<open>What mining returns\<close>

text \<open>The candidate the miner hashes for a nonce, and the block it returns for it.\<close>

abbreviation candidate :: "Block \<Rightarrow> u32 \<Rightarrow> Block" where
  "candidate block k \<equiv> block\<lparr>b_nonce := k\<rparr>"

definition sealed :: "openssl \<Rightarrow> Block \<Rightarrow> Block" where
  "sealed C block = block\<lparr>b_hash := block_compute_hash C block\<rparr>"

lemma nonce_step: "n < kMaxNonce \<Longrightarrow> n \<le> k \<longleftrightarrow> k = n \<or> n + 1 \<le> (k::u32)"
  using unat_nonce_Suc [of n] by (auto simp: word_le_nat_alt word_unat_eq_iff)

lemma zero_less_kMaxNonce [simp]: "0 < kMaxNonce"
  by (simp add: word_less_nat_alt unat_kMaxNonce)

lemma nonce_Suc_ne: "n < kMaxNonce \<Longrightarrow> n + 1 \<noteq> kMaxNonce \<Longrightarrow> n + 1 < kMaxNonce"
  using unat_nonce_Suc [of n] by (auto simp: word_less_nat_alt word_unat_eq_iff)

lemma mine_loop_cases:
  "case mine_loop C block d n of
     Inr b \<Rightarrow> \<exists>k. n \<le> k \<and> k < kMaxNonce \<and> b = sealed C (candidate block k) \<and>
        meets_target (block_compute_hash C (candidate block k)) d \<and>
        (\<forall>j. n \<le> j \<and> j < k \<longrightarrow> \<not> meets_target (block_compute_hash C (candidate block j)) d)
   | Inl e \<Rightarrow> \<forall>k. n \<le> k \<and> k < kMaxNonce \<longrightarrow>
        \<not> meets_target (block_compute_hash C (candidate block k)) d"
proof (induction C block d n rule: mine_loop.induct)
  case (1 C block d n)
  show ?case
  proof (cases "n < kMaxNonce \<and> \<not> meets_target (block_compute_hash C (candidate block n)) d")
    case True
    then have step: "mine_loop C block d n = mine_loop C (candidate block n) d (n + 1)"
      by (simp add: mine_loop.simps [of C block d n] Let_def)
    have "case mine_loop C (candidate block n) d (n + 1) of
       Inr b \<Rightarrow> \<exists>k. n + 1 \<le> k \<and> k < kMaxNonce \<and> b = sealed C (candidate block k) \<and>
        meets_target (block_compute_hash C (candidate block k)) d \<and>
        (\<forall>j. n + 1 \<le> j \<and> j < k \<longrightarrow> \<not> meets_target (block_compute_hash C (candidate block j)) d)
     | Inl e \<Rightarrow> \<forall>k. n + 1 \<le> k \<and> k < kMaxNonce \<longrightarrow>
        \<not> meets_target (block_compute_hash C (candidate block k)) d"
      using "1.IH" [OF conjunct1 [OF True] refl refl conjunct2 [OF True]]
      by (simp split: sum.splits)
    with True show ?thesis
      unfolding step by (auto simp: nonce_step split: sum.splits)
  next
    case False
    then show ?thesis
      by (auto simp: mine_loop.simps [of C block d n] Let_def sealed_def not_less
          intro!: exI [of _ n])
  qed
qed

definition cancelled :: "(nat \<Rightarrow> bool) option \<Rightarrow> u32 \<Rightarrow> nat \<Rightarrow> bool" where
  "cancelled stop n calls \<longleftrightarrow> (n mod kCancelCheckInterval = 0 \<and> stop \<noteq> None) \<and> the stop calls"

definition next_call :: "(nat \<Rightarrow> bool) option \<Rightarrow> u32 \<Rightarrow> nat \<Rightarrow> nat" where
  "next_call stop n calls =
     (if n mod kCancelCheckInterval = 0 \<and> stop \<noteq> None then Suc calls else calls)"

lemma mine_cancel_unfold:
  "mine_cancel_loop C stop block n bumps calls =
     (if cancelled stop n calls then None
      else if meets_target (block_compute_hash C (candidate block n)) (b_difficulty block)
      then Some (sealed C (candidate block n))
      else if n + 1 = kMaxNonce then
        if bumps = kMaxTimestampBumps then None
        else mine_cancel_loop C stop ((candidate block n)\<lparr>b_timestamp := b_timestamp block + 1\<rparr>) 0
          (bumps + 1) (next_call stop n calls)
      else mine_cancel_loop C stop (candidate block n) (n + 1) bumps (next_call stop n calls))"
  unfolding cancelled_def next_call_def sealed_def
  by (cases stop) (simp_all add: mine_cancel_loop.simps [of C _ block n bumps calls] Let_def)

lemma mine_cancel_induct [case_names step]:
  assumes "\<And>C stop block n bumps calls.
    (\<lbrakk>\<not> cancelled stop n calls;
      \<not> meets_target (block_compute_hash C (candidate block n)) (b_difficulty block);
      n + 1 = kMaxNonce; bumps \<noteq> kMaxTimestampBumps\<rbrakk>
      \<Longrightarrow> P C stop ((candidate block n)\<lparr>b_timestamp := b_timestamp block + 1\<rparr>) 0 (bumps + 1)
          (next_call stop n calls)) \<Longrightarrow>
    (\<lbrakk>\<not> cancelled stop n calls;
      \<not> meets_target (block_compute_hash C (candidate block n)) (b_difficulty block);
      n + 1 \<noteq> kMaxNonce\<rbrakk>
      \<Longrightarrow> P C stop (candidate block n) (n + 1) bumps (next_call stop n calls)) \<Longrightarrow>
    P C stop block n bumps calls"
  shows "P C stop block n bumps calls"
proof (induction C stop block n bumps calls rule: mine_cancel_loop.induct)
  case (1 C stop block n bumps calls)
  note ih = "1.IH" [OF refl refl refl refl, folded cancelled_def next_call_def]
  show ?case by (rule assms) (use ih in \<open>simp_all\<close>)
qed

lemma mine_cancel_sound:
  assumes "mine_cancel_loop C stop block n bumps calls = Some b" and "n < kMaxNonce"
  shows "\<exists>k i. k < kMaxNonce \<and> i \<le> unat (kMaxTimestampBumps - bumps) \<and>
    b = sealed C ((candidate block k)\<lparr>b_timestamp := b_timestamp block + word_of_nat i\<rparr>) \<and>
    meets_target (b_hash b) (b_difficulty block)"
  using assms
proof (induction C stop block n bumps calls rule: mine_cancel_induct)
  case (step C stop block n bumps calls)
  show ?case
  proof (cases "meets_target (block_compute_hash C (candidate block n)) (b_difficulty block)")
    case True
    then show ?thesis using step.prems mine_cancel_unfold [of C stop block n bumps calls]
      by (intro exI [of _ n] exI [of _ 0]) (auto simp: sealed_def split: if_splits)
  next
    case miss: False
    show ?thesis
    proof (cases "n + 1 = kMaxNonce")
      case True
      then have b: "\<not> cancelled stop n calls" "bumps \<noteq> kMaxTimestampBumps" and
        "mine_cancel_loop C stop ((candidate block n)\<lparr>b_timestamp := b_timestamp block + 1\<rparr>) 0
          (bumps + 1) (next_call stop n calls) = Some b"
        using step.prems(1) miss mine_cancel_unfold [of C stop block n bumps calls]
        by (auto split: if_splits)
      from step.IH(1) [OF b(1) miss True b(2) this(3)] obtain k i where
        ki: "k < kMaxNonce" "i \<le> unat (kMaxTimestampBumps - (bumps + 1))"
        "b = sealed C ((candidate block k)\<lparr>b_timestamp := b_timestamp block + 1 + word_of_nat i\<rparr>)"
        "meets_target (b_hash b) (b_difficulty block)"
        by auto
      moreover have "Suc i \<le> unat (kMaxTimestampBumps - bumps)"
        using ki(2) unat_diff_decreases [OF b(2)] by simp
      ultimately show ?thesis by (intro exI [of _ k] exI [of _ "Suc i"]) (simp add: add.assoc)
    next
      case False
      then show ?thesis
        using step.prems step.IH(2) miss nonce_Suc_ne [OF step.prems(2)]
          mine_cancel_unfold [of C stop block n bumps calls]
        by (simp split: if_splits)
    qed
  qed
qed

lemma mine_cancel_complete:
  assumes "n < kMaxNonce" and "k < kMaxNonce"
    and "i = 0 \<Longrightarrow> n \<le> k" and "i \<le> unat (kMaxTimestampBumps - bumps)"
    and "meets_target (block_compute_hash C
      ((candidate block k)\<lparr>b_timestamp := b_timestamp block + word_of_nat i\<rparr>)) (b_difficulty block)"
    and "\<And>m c. \<not> cancelled stop m c"
  shows "mine_cancel_loop C stop block n bumps calls \<noteq> None"
  using assms
proof (induction C stop block n bumps calls arbitrary: i rule: mine_cancel_induct)
  case (step C stop block n bumps calls)
  show ?case
  proof (cases "meets_target (block_compute_hash C (candidate block n)) (b_difficulty block)")
    case True
    then show ?thesis using step.prems(6) mine_cancel_unfold [of C stop block n bumps calls] by simp
  next
    case miss: False
    then have ne: "\<not> (i = 0 \<and> k = n)" using step.prems(5) by auto
    show ?thesis
    proof (cases "n + 1 = kMaxNonce")
      case True
      have "i \<noteq> 0"
        using True ne step.prems(2,3) nonce_step [OF step.prems(1), of k] by auto
      then obtain j where j: "i = Suc j" by (cases i) auto
      then have "bumps \<noteq> kMaxTimestampBumps" using step.prems(4) by auto
      moreover have "j \<le> unat (kMaxTimestampBumps - (bumps + 1))"
        using step.prems(4) j unat_diff_Suc [OF calculation] by simp
      ultimately show ?thesis
        using step.IH(1) [OF _ miss True, of j] step.prems miss True j
          mine_cancel_unfold [of C stop block n bumps calls]
        by (simp add: add.assoc)
    next
      case False
      then show ?thesis
        using step.prems step.IH(2) [of i] miss ne nonce_Suc_ne [OF step.prems(1) False]
          nonce_step [OF step.prems(1), of k] mine_cancel_unfold [of C stop block n bumps calls]
        by auto
    qed
  qed
qed

text \<open>Mining without cancellation tries the nonces below 2^32 - 1 in order. It returns the
  candidate of the first nonce whose hash meets the target, carrying that hash, and throws exactly
  when no nonce does.\<close>

theorem mine_block_first:
  "let blk = candidate ((mk_Block C v p t txs)\<lparr>b_difficulty := d\<rparr>);
       hit = (\<lambda>k. meets_target (block_compute_hash C (blk k)) d)
   in case mine_block C v p t d txs of
        Inr b \<Rightarrow> \<exists>k<kMaxNonce. hit k \<and> (\<forall>j<k. \<not> hit j) \<and> b = sealed C (blk k)
      | Inl e \<Rightarrow> \<forall>k<kMaxNonce. \<not> hit k"
  using mine_loop_cases [where n = 0 and block = "(mk_Block C v p t txs)\<lparr>b_difficulty := d\<rparr>" and C = C and d = d]
  unfolding Let_def mine_block_def by (auto split: sum.splits)

theorem mine_block_first_witness:
  "\<exists>b. mine_block sample_openssl 1 zero_hash 7 0 [] = Inr b \<and> b_nonce b = 0"
proof (cases "mine_block sample_openssl 1 zero_hash 7 0 []")
  case (Inl e)
  then show ?thesis
    using mine_block_first [where d = 0, of sample_openssl 1 zero_hash 7 "[]"] zero_less_kMaxNonce
    by (auto simp: Let_def meets_target_def simp del: zero_less_kMaxNonce)
next
  case (Inr b)
  then show ?thesis
    using mine_block_first [where d = 0, of sample_openssl 1 zero_hash 7 "[]"]
    by (auto simp: Let_def meets_target_def sealed_def word_gt_0 dest: spec [of _ "0 :: u32"])
qed

lemma kMaxTimestampBumps_eq: "unat (kMaxTimestampBumps - 0) = 60"
  by (simp add: kMaxTimestampBumps_def)

text \<open>A block the cancellable miner returns is a child of the given parent with the given
  transactions and difficulty, its hash is its own and meets the target, and its timestamp is at
  most 60 seconds later than asked for.\<close>

theorem mine_block_cancel_sound:
  assumes "mine_block_cancel C v p t d txs should_stop = Some b"
  shows "b_hash b = block_compute_hash C b \<and> meets_target (b_hash b) d \<and>
    b_version b = v \<and> b_prev_hash b = p \<and> b_difficulty b = d \<and> b_transactions b = txs \<and>
    b_merkle_root b = b_merkle_root (mk_Block C v p t txs) \<and> b_cumulative_work b = 0 \<and>
    b_nonce b < kMaxNonce \<and> (\<exists>i\<le>60. b_timestamp b = t + word_of_nat i)"
  using mine_cancel_sound [OF assms [unfolded mine_block_cancel_def]]
  by (auto simp: sealed_def kMaxTimestampBumps_eq [simplified])

theorem mine_block_cancel_sound_witness:
  "\<exists>b. mine_block_cancel sample_openssl 1 zero_hash 7 0 [] (Some (\<lambda>n. n = 3)) = Some b \<and>
    b_prev_hash b = zero_hash \<and> b_hash b = block_compute_hash sample_openssl b"
proof -
  have "mine_block_cancel sample_openssl 1 zero_hash 7 0 [] (Some (\<lambda>n. n = 3)) \<noteq> None"
    by (simp add: mine_block_cancel_def mine_cancel_unfold cancelled_def meets_target_def)
  with mine_block_cancel_sound [of sample_openssl 1 zero_hash 7 0 "[]" "Some (\<lambda>n. n = 3)"]
  show ?thesis by auto
qed

text \<open>C31: The cancellable miner, when never asked to stop, ends, and it finds a block exactly when
  some nonce below 2^32 - 1 meets the target at one of the 61 timestamps it goes through.\<close>

theorem mine_block_cancel_complete:
  assumes "\<And>f n. should_stop = Some f \<Longrightarrow> \<not> f n"
  shows "mine_block_cancel C v p t d txs should_stop \<noteq> None \<longleftrightarrow>
    (\<exists>k<kMaxNonce. \<exists>i\<le>60. meets_target (block_compute_hash C
       ((mk_Block C v p t txs)\<lparr>b_difficulty := d, b_nonce := k, b_timestamp := t + word_of_nat i\<rparr>)) d)"
    (is "_ \<longleftrightarrow> ?found")
proof
  assume "mine_block_cancel C v p t d txs should_stop \<noteq> None"
  then show ?found
    using mine_cancel_sound [of C should_stop "(mk_Block C v p t txs)\<lparr>b_difficulty := d\<rparr>" 0 0 0]
    by (fastforce simp: mine_block_cancel_def sealed_def kMaxTimestampBumps_eq [simplified])
next
  assume ?found
  then obtain k i where "k < kMaxNonce" "i \<le> 60" "meets_target (block_compute_hash C
       ((mk_Block C v p t txs)\<lparr>b_difficulty := d, b_nonce := k, b_timestamp := t + word_of_nat i\<rparr>)) d"
    by blast
  moreover have "\<not> cancelled should_stop m c" for m c
    using assms unfolding cancelled_def by (metis option.collapse)
  ultimately show "mine_block_cancel C v p t d txs should_stop \<noteq> None"
    unfolding mine_block_cancel_def
    by (intro mine_cancel_complete [where k = k and i = i]) (simp_all add: kMaxTimestampBumps_eq [simplified])
qed

theorem mine_block_cancel_complete_witness:
  "mine_block_cancel sample_openssl 1 zero_hash 7 0 [] None \<noteq> None"
  using mine_block_cancel_complete [of None sample_openssl 1 zero_hash 7 0 "[]"]
    zero_less_kMaxNonce by (auto simp: meets_target_def simp del: zero_less_kMaxNonce)

section \<open>What retargeting does\<close>

lemma unat_ucast_u64: "unat (ucast (x :: u32) :: u64) = unat x"
  by (simp add: unsigned_ucast_eq take_bit_nat_eq_self_iff less_trans [OF unat_lt])

lemma unat_ucast_u32: "unat (ucast (x :: u64) :: u32) = unat x mod 2 ^ 32"
  by (simp add: unsigned_ucast_eq take_bit_eq_mod)

lemma retarget_up:
  fixes old :: u32
  assumes "d = 1 \<or> d = 2"
  shows "unat (ucast (min 0xFFFFFFFF ((ucast old :: u64) + word_of_int d)) :: u32) =
    min 0xFFFFFFFF (unat old + nat d)"
proof -
  let ?nd = "(ucast old :: u64) + word_of_int d"
  have "unat (word_of_int d :: u64) = nat d" using assms by auto
  then have "unat ?nd = (unat old + nat d) mod 2 ^ 64"
    by (simp add: unat_word_ariths(1) unat_ucast_u64)
  also have "\<dots> = unat old + nat d" using assms unat_lt [of old] by auto
  finally have "unat (min 0xFFFFFFFF ?nd) = min 0xFFFFFFFF (unat old + nat d)"
    by (simp add: min_def word_le_nat_alt)
  then show ?thesis by (simp add: unat_ucast_u32)
qed

lemma retarget_down:
  fixes old :: u32
  assumes "d = 1 \<or> d = 2"
  shows "unat (if word_of_int d \<ge> (ucast old :: u64) then 0 else old - ucast (word_of_int d :: u64)) =
    unat old - nat d"
proof -
  have d: "unat (word_of_int d :: u64) = nat d" "(ucast (word_of_int d :: u64) :: u32) = word_of_int d"
    "unat (word_of_int d :: u32) = nat d"
    using assms by auto
  have "unat old \<le> nat d \<or> unat (old - word_of_int d) = unat old - nat d"
    using unat_sub [of "word_of_int d" old] d(3) nat_le_linear [of "unat old" "nat d"]
    by (auto simp: word_le_nat_alt)
  then show ?thesis by (auto simp: word_le_nat_alt unat_ucast_u64 d(1,2))
qed

lemma clamp_arith:
  fixes n m :: nat and d :: int
  shows "d = 1 \<or> d = 2 \<Longrightarrow> m = min 0xFFFFFFFF (n + nat d) \<Longrightarrow>
      int m = max 0 (min (2 ^ 32 - 1) (int n + d))"
    and "- d = 1 \<or> - d = 2 \<Longrightarrow> n < 2 ^ 32 \<Longrightarrow> m = n - nat (- d) \<Longrightarrow>
      int m = max 0 (min (2 ^ 32 - 1) (int n + d))"
    and "d = 0 \<Longrightarrow> n < 2 ^ 32 \<Longrightarrow> m = n \<Longrightarrow> int m = max 0 (min (2 ^ 32 - 1) (int n + d))"
  by (auto simp: min_def max_def)

lemma clamp_sign:
  fixes n m :: nat and f :: int
  assumes "int m = max 0 (min (2 ^ 32 - 1) (int n + max (- 2) (min 2 f)))"
  shows "0 < f \<Longrightarrow> n < 2 ^ 32 - 1 \<Longrightarrow> n < m" and "f < 0 \<Longrightarrow> 0 < n \<Longrightarrow> n < 2 ^ 32 \<Longrightarrow> m < n"
    and "f = 0 \<Longrightarrow> n < 2 ^ 32 \<Longrightarrow> m = n" and "n < 2 ^ 32 \<Longrightarrow> m \<le> n + 2 \<and> n \<le> m + 2"
  using assms by (auto simp: min_def max_def split: if_splits)

lemma retarget_int:
  assumes "e \<noteq> 0"
  shows "int (unat (retarget fp old a e)) =
    max 0 (min (2 ^ 32 - 1) (int (unat old) + max (- 2) (min 2 (fp e (if a = 0 then 1 else a)))))"
proof -
  let ?f = "fp e (if a = 0 then 1 else a)"
  let ?d = "max (- 2) (min 2 ?f)"
  have lt: "unat old < 2 ^ 32" using unat_lt [of old] by simp
  have clamp: "(if ?f > 2 then 2 else if ?f < - 2 then - 2 else ?f) = ?d" by auto
  have cap: "(if 0xFFFFFFFF < x then 0xFFFFFFFF else x) = min 0xFFFFFFFF x" for x :: u64
    by (auto simp: min_def)
  have eq: "retarget fp old a e =
     (if ?d > 0 then ucast (min 0xFFFFFFFF ((ucast old :: u64) + word_of_int ?d))
      else if ?d < 0 then
        (if word_of_int (- ?d) \<ge> (ucast old :: u64) then 0 else old - ucast (word_of_int (- ?d) :: u64))
      else old)"
    unfolding retarget_def Let_def kMaxStepBits_def clamp cap using assms by (simp only: if_False)
  consider "?d = 1 \<or> ?d = 2" | "- ?d = 1 \<or> - ?d = 2" | "?d = 0" by linarith
  then show ?thesis
  proof cases
    case 1
    then have "retarget fp old a e = ucast (min 0xFFFFFFFF ((ucast old :: u64) + word_of_int ?d))"
      unfolding eq by auto
    with retarget_up [OF 1, of old] have "unat (retarget fp old a e) = min 0xFFFFFFFF (unat old + nat ?d)"
      by (simp only:)
    with 1 show ?thesis by (rule clamp_arith(1))
  next
    case 2
    then have "retarget fp old a e = (if word_of_int (- ?d) \<ge> (ucast old :: u64) then 0
        else old - ucast (word_of_int (- ?d) :: u64))"
      unfolding eq by auto
    with retarget_down [OF 2, of old] have "unat (retarget fp old a e) = unat old - nat (- ?d)"
      by (simp only:)
    with 2 lt show ?thesis by (rule clamp_arith(2))
  next
    case 3
    then have "unat (retarget fp old a e) = unat old" unfolding eq 3 by simp
    with 3 lt show ?thesis by (rule clamp_arith(3))
  qed
qed

text \<open>Retargeting moves the difficulty by at most two bits.\<close>

theorem retarget_bounded:
  "unat (retarget fp old a e) \<le> unat old + 2 \<and> unat old \<le> unat (retarget fp old a e) + 2"
proof (cases "e = 0")
  case True
  then show ?thesis by (simp add: retarget_def Let_def)
next
  case False
  from clamp_sign(4) [OF retarget_int [OF False]] show ?thesis using unat_lt [of old] by simp
qed

text \<open>
  The floating-point computation is close enough to the real logarithm: rounding to the nearest
  integer costs one half, and the errors of the conversions, the division and \<open>log2\<close> are far below
  another half.
\<close>

definition fp_accurate :: "llround_log2 \<Rightarrow> bool" where
  "fp_accurate fp \<longleftrightarrow> (\<forall>e a. e \<noteq> 0 \<longrightarrow> a \<noteq> 0 \<longrightarrow>
     \<bar>real_of_int (fp e a) - log 2 (real (unat e) / real (unat a))\<bar> < 1)"

definition fp_exact :: llround_log2 where
  "fp_exact e a = round (log 2 (real (unat e) / real (unat a)))"

lemma fp_exact_accurate: "fp_accurate fp_exact"
proof -
  have "\<bar>real_of_int (round x) - x\<bar> < 1" for x :: real
    using of_int_round_abs_le [of x] by linarith
  then show ?thesis by (simp add: fp_accurate_def fp_exact_def)
qed

lemma fp_accurate_sign:
  assumes "fp_accurate fp" and "e \<noteq> 0" and "a \<noteq> 0"
  shows "2 * unat a \<le> unat e \<Longrightarrow> 0 < fp e a" and "2 * unat e \<le> unat a \<Longrightarrow> fp e a < 0"
    and "e = a \<Longrightarrow> fp e a = 0"
proof -
  note of_nat_unat [simp del]
  have pos: "0 < real (unat e)" "0 < real (unat a)" using assms(2,3) by (simp_all add: unat_gt_0)
  have acc: "\<bar>real_of_int (fp e a) - log 2 (real (unat e) / real (unat a))\<bar> < 1"
    using assms unfolding fp_accurate_def by blast
  have div: "log 2 (real (unat e) / real (unat a)) = log 2 (real (unat e)) - log 2 (real (unat a))"
    using pos by (simp add: log_divide)
  show "0 < fp e a" if "2 * unat a \<le> unat e"
  proof -
    have "log 2 (2 * real (unat a)) \<le> log 2 (real (unat e))" using that pos by simp
    then show ?thesis using acc div pos by (simp add: log_mult)
  qed
  show "fp e a < 0" if "2 * unat e \<le> unat a"
  proof -
    have "log 2 (2 * real (unat e)) \<le> log 2 (real (unat a))" using that pos by simp
    then show ?thesis using acc div pos by (simp add: log_mult)
  qed
  show "fp e a = 0" if "e = a"
    using acc div that by simp
qed

text \<open>C33: Retargeting moves the difficulty the right way: up when the blocks took at most half the
  expected time, down when they took at least twice it, and not at all when they took exactly it;
  except at the ends of the 32-bit range. An actual time of zero counts as one second.\<close>

theorem retarget_direction:
  assumes "fp_accurate fp" and "expected \<noteq> 0" and "a = (if actual = 0 then 1 else actual)"
  shows "(2 * unat a \<le> unat expected \<and> old \<noteq> - 1 \<longrightarrow> old < retarget fp old actual expected) \<and>
    (2 * unat expected \<le> unat a \<and> old \<noteq> 0 \<longrightarrow> retarget fp old actual expected < old) \<and>
    (a = expected \<longrightarrow> retarget fp old actual expected = old)"
proof -
  have "a \<noteq> 0" using assms(3) by simp
  note sign = fp_accurate_sign [OF assms(1,2) this]
  note r = retarget_int [OF assms(2), of fp old actual, folded assms(3)]
  have lt: "unat old < 2 ^ 32" using unat_lt [of old] by simp
  have m: "unat old < 2 ^ 32 - 1" if "old \<noteq> - 1"
  proof -
    have "unat old \<noteq> 2 ^ 32 - 1" using that unat_kMaxNonce by (metis kMaxNonce_def unsigned_word_eqI)
    with unat_lt [of old] show ?thesis by simp
  qed
  show ?thesis
  proof (intro conjI impI)
    assume *: "2 * unat a \<le> unat expected \<and> old \<noteq> - 1"
    then have "unat old < unat (retarget fp old actual expected)"
      using clamp_sign(1) [OF r] sign(1) m by blast
    then show "old < retarget fp old actual expected" by (simp add: word_less_nat_alt)
  next
    assume *: "2 * unat expected \<le> unat a \<and> old \<noteq> 0"
    then have "0 < unat old" by (simp add: unat_gt_0)
    then have "unat (retarget fp old actual expected) < unat old"
      using clamp_sign(2) [OF r] * sign(2) lt by blast
    then show "retarget fp old actual expected < old" by (simp add: word_less_nat_alt)
  next
    assume "a = expected"
    then have "unat (retarget fp old actual expected) = unat old"
      using clamp_sign(3) [OF r] sign(3) lt by blast
    then show "retarget fp old actual expected = old" by (simp add: word_unat_eq_iff)
  qed
qed

theorem retarget_direction_witness:
  "18 < retarget fp_exact 18 5 19 \<and> retarget fp_exact 18 100 19 < 18"
  using retarget_direction [OF fp_exact_accurate, of 19 5 5 18]
    retarget_direction [OF fp_exact_accurate, of 19 100 100 18] by simp

section \<open>Median time past\<close>

definition window_times :: "Block list \<Rightarrow> nat \<Rightarrow> nat \<Rightarrow> u64 list" where
  "window_times bs w h = map (\<lambda>i. b_timestamp (bs ! i)) [h - w..<h]"

lemma timestamps_of_chain:
  "(\<And>i. i \<in> set is \<Longrightarrow> i < length bs) \<Longrightarrow>
     timestamps_of (vec_at bs) is = Inr (map (\<lambda>i. b_timestamp (bs ! i)) is)"
  by (induction "is") (simp_all add: vec_at_def)

lemma median_chain:
  assumes "0 < h" and "h \<le> length bs" and "0 < w"
  shows "median_time_past h w (vec_at bs) =
    Inr (sort (window_times bs w h) ! (length (window_times bs w h) div 2))"
proof -
  have "(if h > w then h - w else 0) = h - w" by simp
  moreover have "timestamps_of (vec_at bs) [h - w..<h] = Inr (window_times bs w h)"
    using assms(2) unfolding window_times_def by (intro timestamps_of_chain) auto
  ultimately show ?thesis
    using assms by (simp add: median_time_past_def Let_def)
qed

text \<open>The k-th smallest is at least \<open>m\<close> exactly when at most k elements are below \<open>m\<close>.\<close>

lemma sorted_nth_ge_iff:
  fixes m :: "'a::linorder"
  assumes "sorted xs" and "k < length xs"
  shows "m \<le> xs ! k \<longleftrightarrow> length (filter (\<lambda>t. t < m) xs) \<le> k"
  using assms
proof (induction xs arbitrary: k)
  case (Cons x xs)
  show ?case
  proof (cases "x < m")
    case True
    with Cons show ?thesis by (cases k) auto
  next
    case False
    then have "filter (\<lambda>t. t < m) (x # xs) = []"
      using Cons.prems(1) by (auto simp: filter_empty_conv)
    moreover have "x \<le> (x # xs) ! k"
      using Cons.prems by (cases k) auto
    ultimately show ?thesis using False by simp
  qed
qed simp

lemma sort_nth_ge_iff:
  fixes m :: "'a::linorder"
  assumes "k < length xs"
  shows "m \<le> sort xs ! k \<longleftrightarrow> length (filter (\<lambda>t. t < m) xs) \<le> k"
proof -
  have "length (filter (\<lambda>t. t < m) (sort xs)) = length (filter (\<lambda>t. t < m) xs)"
    by (metis mset_filter mset_sort size_mset)
  with sorted_nth_ge_iff [of "sort xs" k m] assms show ?thesis by simp
qed

lemma median_le:
  fixes m :: "'a::linorder"
  assumes "m = sort xs ! (length xs div 2)" and "xs \<noteq> []" and "length xs \<le> length ys"
    and "length (filter (\<lambda>t. t < m) ys) \<le> length (filter (\<lambda>t. t < m) xs)"
  shows "m \<le> sort ys ! (length ys div 2)"
proof -
  have "length xs div 2 < length xs" "length ys div 2 < length ys"
    using assms(2,3) length_greater_0_conv [of xs] by linarith+
  moreover have "length xs div 2 \<le> length ys div 2" using assms(3) by (rule div_le_mono)
  ultimately show ?thesis
    using sort_nth_ge_iff [of "length xs div 2" xs m] sort_nth_ge_iff [of "length ys div 2" ys m] assms(1,4)
    by (metis le_trans order_refl)
qed

lemma window_times_Suc:
  assumes "0 < w"
  shows "window_times bs w (Suc h) =
    (if w \<le> h then tl (window_times bs w h) else window_times bs w h) @ [b_timestamp (bs ! h)]"
proof (cases "w \<le> h")
  case True
  with assms have "[h - w..<h] = (h - w) # [Suc h - w..<h]"
    by (simp add: upt_conv_Cons Suc_diff_le)
  with True assms show ?thesis by (simp add: window_times_def Suc_diff_le)
qed (simp add: window_times_def)

lemma length_window_times [simp]: "length (window_times bs w h) = min w h"
  by (simp add: window_times_def min_def)

text \<open>Median time past never goes back: a block whose timestamp is valid leaves a median at least as
  large as the one it was checked against, for every window size.\<close>

theorem median_time_past_mono:
  assumes "timestamp_is_valid (bs ! h) h now params (vec_at bs) = Inr True" and "h < length bs"
    and "median_time_past h (cp_mtp_window params) (vec_at bs) = Inr m"
    and "median_time_past (Suc h) (cp_mtp_window params) (vec_at bs) = Inr m'"
  shows "m \<le> m' \<and> m < b_timestamp (bs ! h)"
proof -
  let ?w = "cp_mtp_window params" and ?t = "b_timestamp (bs ! h)"
  let ?A = "window_times bs ?w h" and ?B = "window_times bs ?w (Suc h)"
  have later: "m < ?t"
    using assms(1,3) by (auto simp: timestamp_is_valid_def Let_def split: if_splits)
  have "m \<le> m'"
  proof (cases "?w = 0 \<or> h = 0")
    case True
    then show ?thesis using assms(3) by (auto simp: median_time_past_def)
  next
    case False
    have m: "m = sort ?A ! (length ?A div 2)" "m' = sort ?B ! (length ?B div 2)"
      using median_chain [of h bs ?w] median_chain [of "Suc h" bs ?w] assms(2,3,4) False by auto
    have "length (filter (\<lambda>t. t < m) ?B) \<le> length (filter (\<lambda>t. t < m) ?A)"
      using later False by (cases ?A) (auto simp: window_times_Suc)
    moreover have "?A \<noteq> []" using False by (simp flip: length_greater_0_conv)
    ultimately show ?thesis using median_le [of m ?A ?B] m by simp
  qed
  with later show ?thesis by simp
qed

text \<open>A chain whose timestamps are the given ones.\<close>

definition timed_chain :: "u64 list \<Rightarrow> Block list" where
  "timed_chain = map (\<lambda>t. mk_Block sample_openssl 1 zero_hash t [])"

theorem median_time_past_mono_witness:
  "median_time_past 3 11 (vec_at (timed_chain [10, 30, 20, 40])) = Inr 20 \<and>
   median_time_past 4 11 (vec_at (timed_chain [10, 30, 20, 40])) = Inr 30 \<and> (20::u64) \<le> 30 \<and>
   (20::u64) < 40"
proof -
  let ?c = "timed_chain [10, 30, 20, 40]"
  have m: "median_time_past 3 (cp_mtp_window kMainParams) (vec_at ?c) = Inr 20"
    "median_time_past (Suc 3) (cp_mtp_window kMainParams) (vec_at ?c) = Inr 30"
    by (simp_all add: kMainParams_def median_chain timed_chain_def window_times_def upt_rec insort_key.simps)
  moreover have "timestamp_is_valid (?c ! 3) 3 0 kMainParams (vec_at ?c) = Inr True"
    using m(1) by (simp add: timestamp_is_valid_def timed_chain_def kMainParams_def)
  ultimately show ?thesis
    using median_time_past_mono [of ?c 3 0 kMainParams 20 30]
    by (simp add: timed_chain_def kMainParams_def)
qed

section \<open>The coinbase rule bounds the money supply\<close>

abbreviation is_coinbase :: "Transaction \<Rightarrow> bool" where
  "is_coinbase tx \<equiv> tx_sender tx = kCoinbaseSender"

lemma coinbase_scan_Some:
  "coinbase_scan txs i (Some j) = Some r \<Longrightarrow> r = Some j \<and> (\<forall>tx\<in>set txs. \<not> is_coinbase tx)"
  by (induction txs arbitrary: i) (auto split: if_splits)

lemma coinbase_scan_None:
  assumes "coinbase_scan txs i None = Some r"
  shows "case r of None \<Rightarrow> \<forall>tx\<in>set txs. \<not> is_coinbase tx
    | Some k \<Rightarrow> \<exists>pre tx post. txs = pre @ tx # post \<and> k = i + length pre \<and> is_coinbase tx \<and>
        (\<forall>tx\<in>set (pre @ post). \<not> is_coinbase tx)"
  using assms
proof (induction txs arbitrary: i)
  case (Cons tx txs)
  show ?case
  proof (cases "is_coinbase tx")
    case True
    with Cons.prems coinbase_scan_Some [of txs "Suc i" i r] show ?thesis
      by (auto intro!: exI [of _ "[]"])
  next
    case False
    with Cons.prems Cons.IH [of "Suc i"] show ?thesis
      by (auto split: option.splits) (metis (no_types, lifting) Un_iff add_Suc_shift append_Cons length_Cons set_ConsD)
  qed
qed simp

lemma fees_except_other:
  "(\<And>j. j < length txs \<Longrightarrow> i + j \<noteq> index) \<Longrightarrow>
     fees_except txs i index a = a + sum_list (map tx_fee txs)"
proof (induction txs arbitrary: i a)
  case (Cons tx txs)
  have "i \<noteq> index" using Cons.prems [of 0] by simp
  moreover have "fees_except txs (Suc i) index (a + tx_fee tx) = a + tx_fee tx + sum_list (map tx_fee txs)"
    using Cons.prems by (intro Cons.IH) (metis Suc_less_eq add_Suc_shift length_Cons)
  ultimately show ?case by (simp add: add.assoc)
qed simp

lemma fees_except_append:
  "fees_except (xs @ ys) i index a = fees_except ys (i + length xs) index (fees_except xs i index a)"
  by (induction xs arbitrary: i a) simp_all

lemma fees_except_index:
  "fees_except (pre @ tx # post) 0 (length pre) 0 = sum_list (map tx_fee (pre @ post))"
  by (simp add: fees_except_append fees_except_other)

lemma fees_paid_word:
  "\<forall>tx\<in>set txs. \<not> is_coinbase tx \<Longrightarrow> sum_list (map tx_fee txs) = word_of_nat (fees_paid txs)"
  by (induction txs) simp_all

lemma minted_append [simp]: "minted (xs @ ys) = minted xs + minted ys"
  and fees_paid_append [simp]: "fees_paid (xs @ ys) = fees_paid xs + fees_paid ys"
  by (simp_all add: minted_def fees_paid_def)

lemma minted_none: "\<forall>tx\<in>set txs. \<not> is_coinbase tx \<Longrightarrow> minted txs = 0"
  by (induction txs) simp_all

lemma validate_coinbase_minted:
  assumes "validate_coinbase_amount txs" and "fees_paid txs + 50 < 2 ^ 64"
  shows "minted txs \<le> fees_paid txs + 50"
proof -
  from assms(1) obtain r where r: "coinbase_scan txs 0 None = Some r"
    by (auto simp: validate_coinbase_amount_def split: option.splits)
  show ?thesis
  proof (cases r)
    case None
    with coinbase_scan_None [OF r] show ?thesis by (simp add: minted_none)
  next
    case (Some k)
    with coinbase_scan_None [OF r] obtain pre tx post where
      txs: "txs = pre @ tx # post" "k = length pre" "is_coinbase tx"
      and no: "\<forall>tx\<in>set (pre @ post). \<not> is_coinbase tx"
      by auto
    have "tx_amount tx \<le> 50 + word_of_nat (fees_paid (pre @ post))"
      using assms(1) r Some fees_paid_word [OF no]
      by (simp add: validate_coinbase_amount_def txs fees_except_index mining_reward_def)
    then have "unat (tx_amount tx) \<le> 50 + fees_paid (pre @ post)"
      using assms(2) txs(3)
      by (simp add: word_le_nat_alt unat_word_ariths(1) unat_of_nat txs(1))
    then show ?thesis using no txs(3) by (simp add: txs(1) minted_none)
  qed
qed

end
