(* ===== verification/FC_Mempool.thy ===== *)
theory FC_Mempool
  imports FC_Transaction "HOL-Library.Multiset"
begin

text \<open>
  src/include/core/Mempool.hpp and src/src/core/Mempool.cpp: the pool of pending transactions, a
  \<open>std::multiset\<close> ordered by descending fee and bounded in size. The list \<open>mp_pending\<close> is the
  multiset in iteration order.
\<close>

section \<open>State and operations\<close>

record Mempool =
  mp_pending :: "Transaction list"
  mp_max_size :: nat

definition mk_Mempool :: "nat \<Rightarrow> Mempool" where
  "mk_Mempool max_size = \<lparr>mp_pending = [], mp_max_size = max_size\<rparr>"

text \<open>
  \<open>FeeDescendingComparator\<close> orders \<open>a\<close> before \<open>b\<close> when its fee is larger. \<open>insert\<close> places a new
  element at the upper bound of its equals.
\<close>

definition fee_insert :: "Transaction \<Rightarrow> Transaction list \<Rightarrow> Transaction list" where
  "fee_insert tx ts =
     takeWhile (\<lambda>t. \<not> tx_fee tx > tx_fee t) ts @ tx # dropWhile (\<lambda>t. \<not> tx_fee tx > tx_fee t) ts"

definition mp_find :: "openssl \<Rightarrow> Mempool \<Rightarrow> HashBytes \<Rightarrow> Transaction option" where
  "mp_find C m hash = List.find (\<lambda>tx. tx_hash C tx = hash) (mp_pending m)"

definition mp_has_transaction :: "openssl \<Rightarrow> Mempool \<Rightarrow> HashBytes \<Rightarrow> bool" where
  "mp_has_transaction C m hash \<longleftrightarrow> List.find (\<lambda>tx. tx_hash C tx = hash) (mp_pending m) \<noteq> None"

definition mp_size :: "Mempool \<Rightarrow> nat" where
  "mp_size m = length (mp_pending m)"

definition mp_empty :: "Mempool \<Rightarrow> bool" where
  "mp_empty m \<longleftrightarrow> mp_pending m = []"

text \<open>
  \<open>add_transaction\<close>: the signature check may throw. With room for no transaction at all the code
  dereferences \<open>rbegin()\<close> of an empty multiset.
\<close>

definition add_transaction :: "openssl \<Rightarrow> Mempool \<Rightarrow> Transaction \<Rightarrow> Mempool \<times> bool result" where
  "add_transaction C m tx =
     (case has_valid_signature C tx of
        Inl e \<Rightarrow> (m, Inl e)
      | Inr False \<Rightarrow> (m, Inr False)
      | Inr True \<Rightarrow>
          if mp_has_transaction C m (tx_hash C tx) then (m, Inr False)
          else if length (mp_pending m) \<ge> mp_max_size m then
            if mp_pending m = [] then (m, Inl Undefined_behaviour)
            else if tx_fee tx > tx_fee (last (mp_pending m))
            then (m\<lparr>mp_pending := fee_insert tx (butlast (mp_pending m))\<rparr>, Inr True)
            else (m, Inr False)
          else (m\<lparr>mp_pending := fee_insert tx (mp_pending m)\<rparr>, Inr True))"

fun erase_first :: "('a \<Rightarrow> bool) \<Rightarrow> 'a list \<Rightarrow> 'a list" where
  "erase_first P [] = []"
| "erase_first P (x # xs) = (if P x then xs else x # erase_first P xs)"

definition remove_transaction :: "openssl \<Rightarrow> Mempool \<Rightarrow> Transaction \<Rightarrow> Mempool" where
  "remove_transaction C m tx =
     m\<lparr>mp_pending := erase_first (\<lambda>t. tx_hash C tx = tx_hash C t) (mp_pending m)\<rparr>"

definition get_transactions_for_block :: "Mempool \<Rightarrow> nat \<Rightarrow> Transaction list" where
  "get_transactions_for_block m limit = take (min limit (mp_size m)) (mp_pending m)"

section \<open>The invariant\<close>

text \<open>Fees never increase along the list.\<close>

abbreviation fee_sorted :: "Transaction list \<Rightarrow> bool" where
  "fee_sorted ts \<equiv> sorted (map tx_fee (rev ts))"

definition mempool_inv :: "openssl \<Rightarrow> Mempool \<Rightarrow> bool" where
  "mempool_inv C m \<longleftrightarrow> fee_sorted (mp_pending m) \<and> length (mp_pending m) \<le> mp_max_size m \<and>
     distinct (map (tx_hash C) (mp_pending m)) \<and>
     (\<forall>tx\<in>set (mp_pending m). has_valid_signature C tx = Inr True)"

lemma mp_find_Some:
  "mp_find C m h = Some tx \<Longrightarrow> tx \<in> set (mp_pending m) \<and> tx_hash C tx = h"
  by (auto simp: mp_find_def find_Some_iff)

lemma mp_has_transaction_iff:
  "mp_has_transaction C m h \<longleftrightarrow> h \<in> tx_hash C ` set (mp_pending m)"
  by (auto simp: mp_has_transaction_def find_None_iff image_iff)

lemma mset_fee_insert [simp]: "mset (fee_insert tx ts) = add_mset tx (mset ts)"
  unfolding fee_insert_def by (metis mset_append mset.simps(2) takeWhile_dropWhile_id union_mset_add_mset_right)

lemma set_fee_insert [simp]: "set (fee_insert tx ts) = insert tx (set ts)"
  by (metis mset_fee_insert set_mset_add_mset_insert set_mset_mset)

lemma length_fee_insert [simp]: "length (fee_insert tx ts) = Suc (length ts)"
  by (metis mset_fee_insert size_add_mset size_mset)

lemma distinct_map_fee_insert:
  "distinct (map f (fee_insert tx ts)) \<longleftrightarrow> f tx \<notin> f ` set ts \<and> distinct (map f ts)"
proof -
  have "mset (map f (fee_insert tx ts)) = mset (map f (tx # ts))" by simp
  then show ?thesis by (metis distinct_map list.simps(9) distinct.simps(2) mset_eq_imp_distinct_iff set_map)
qed

text \<open>Over the reversed list, insertion is the library's stable insertion by key.\<close>

lemma insort_key_append_last:
  assumes "\<forall>y\<in>set ys. f y \<ge> f x"
  shows "insort_key f x (zs @ ys) = insort_key f x zs @ ys"
proof (induction zs)
  case Nil
  then show ?case using assms by (cases ys) auto
qed simp

lemma fee_insert_rev:
  assumes "fee_sorted ts"
  shows "fee_insert tx ts = rev (insort_key tx_fee tx (rev ts))"
  using assms
proof (induction ts)
  case Nil
  then show ?case by (simp add: fee_insert_def)
next
  case (Cons t ts)
  have s: "fee_sorted ts" and top: "\<forall>y\<in>set ts. tx_fee y \<le> tx_fee t"
    using Cons.prems by (auto simp: sorted_append)
  show ?case
  proof (cases "tx_fee t < tx_fee tx")
    case True
    have "insort_key tx_fee tx (rev ts @ [t]) = rev ts @ [t, tx]"
    proof -
      have "insort_key tx_fee tx zs = zs @ [tx]" if "\<forall>y\<in>set zs. tx_fee y < tx_fee tx" for zs
        using that by (induction zs) auto
      moreover have "\<forall>y\<in>set (rev ts @ [t]). tx_fee y < tx_fee tx" using True top by auto
      ultimately have "insort_key tx_fee tx (rev ts @ [t]) = (rev ts @ [t]) @ [tx]" by blast
      then show ?thesis by simp
    qed
    then show ?thesis using True by (simp add: fee_insert_def)
  next
    case False
    then have "insort_key tx_fee tx (rev ts @ [t]) = insort_key tx_fee tx (rev ts) @ [t]"
      by (intro insort_key_append_last) auto
    then show ?thesis using False Cons.IH [OF s] by (simp add: fee_insert_def)
  qed
qed

lemma fee_sorted_insert [simp]: "fee_sorted ts \<Longrightarrow> fee_sorted (fee_insert tx ts)"
  by (simp add: fee_insert_rev sorted_insort_key)

lemma fee_sorted_butlast: "fee_sorted ts \<Longrightarrow> fee_sorted (butlast ts)"
  by (cases ts rule: rev_cases) auto

lemma erase_first_subset: "set (erase_first P xs) \<subseteq> set xs"
  by (induction xs) auto

lemma erase_first_sublist:
  "distinct (map f xs) \<Longrightarrow> distinct (map f (erase_first P xs))"
  "fee_sorted ts \<Longrightarrow> fee_sorted (erase_first Q ts)"
  "length (erase_first P xs) \<le> length xs"
proof -
  show "distinct (map f xs) \<Longrightarrow> distinct (map f (erase_first P xs))"
    by (induction xs) (auto dest: subsetD [OF erase_first_subset])
  show "fee_sorted ts \<Longrightarrow> fee_sorted (erase_first Q ts)"
    by (induction ts) (auto simp: sorted_append dest: subsetD [OF erase_first_subset])
  show "length (erase_first P xs) \<le> length xs"
    by (induction xs) auto
qed

lemma mempool_inv_new [simp]: "mempool_inv C (mk_Mempool n)"
  by (simp add: mempool_inv_def mk_Mempool_def)

lemma mempool_inv_insert:
  assumes "mempool_inv C (m\<lparr>mp_pending := ts\<rparr>)" and "length ts < mp_max_size m"
    and "has_valid_signature C tx = Inr True" and "tx_hash C tx \<notin> tx_hash C ` set ts"
  shows "mempool_inv C (m\<lparr>mp_pending := fee_insert tx ts\<rparr>)"
  using assms by (simp add: mempool_inv_def distinct_map_fee_insert)

lemma mempool_inv_butlast:
  assumes "mempool_inv C m" shows "mempool_inv C (m\<lparr>mp_pending := butlast (mp_pending m)\<rparr>)"
  using assms fee_sorted_butlast [of "mp_pending m"]
  by (auto simp: mempool_inv_def map_butlast distinct_butlast dest: in_set_butlastD)

lemma add_transaction_cases:
  obtains (throw) e where "add_transaction C m tx = (m, Inl e)"
  | (reject) "add_transaction C m tx = (m, Inr False)"
  | (insert) "has_valid_signature C tx = Inr True" "tx_hash C tx \<notin> tx_hash C ` set (mp_pending m)"
      "length (mp_pending m) < mp_max_size m"
      "add_transaction C m tx = (m\<lparr>mp_pending := fee_insert tx (mp_pending m)\<rparr>, Inr True)"
  | (evict) "has_valid_signature C tx = Inr True" "tx_hash C tx \<notin> tx_hash C ` set (mp_pending m)"
      "mp_max_size m \<le> length (mp_pending m)" "mp_pending m \<noteq> []"
      "add_transaction C m tx = (m\<lparr>mp_pending := fee_insert tx (butlast (mp_pending m))\<rparr>, Inr True)"
proof (cases "has_valid_signature C tx")
  case (Inl e)
  then show ?thesis by (intro throw) (simp add: add_transaction_def)
next
  case (Inr ok)
  note has = mp_has_transaction_iff [of C m "tx_hash C tx"]
  let ?has = "mp_has_transaction C m (tx_hash C tx)" and ?full = "mp_max_size m \<le> length (mp_pending m)"
    and ?better = "tx_fee tx > tx_fee (last (mp_pending m))"
  consider "\<not> ok" | "ok" ?has | "ok" "\<not> ?has" "\<not> ?full" | "ok" "\<not> ?has" ?full "mp_pending m = []"
    | "ok" "\<not> ?has" ?full "mp_pending m \<noteq> []" ?better | "ok" "\<not> ?has" ?full "mp_pending m \<noteq> []" "\<not> ?better"
    by argo
  then show ?thesis
  proof cases
    case 1
    then show ?thesis using Inr by (intro reject) (simp add: add_transaction_def)
  next
    case 2
    then show ?thesis using Inr by (intro reject) (simp add: add_transaction_def)
  next
    case 3
    then show ?thesis using Inr
      by (intro insert) (simp_all add: add_transaction_def has [symmetric])
  next
    case 4
    then show ?thesis using Inr by (intro throw) (simp add: add_transaction_def)
  next
    case 5
    then show ?thesis using Inr
      by (intro evict) (simp_all add: add_transaction_def has [symmetric])
  next
    case 6
    then show ?thesis using Inr by (intro reject) (simp add: add_transaction_def)
  qed
qed

lemma add_transaction_inv:
  assumes "mempool_inv C m" shows "mempool_inv C (fst (add_transaction C m tx))"
proof (cases rule: add_transaction_cases [of C m tx])
  case (throw e)
  then show ?thesis using assms by (simp only: fst_conv)
next
  case reject
  then show ?thesis using assms by (simp only: fst_conv)
next
  case insert
  have "mempool_inv C (m\<lparr>mp_pending := fee_insert tx (mp_pending m)\<rparr>)"
    by (rule mempool_inv_insert) (use assms insert(1-3) in simp_all)
  then show ?thesis using insert(4) by (simp only: fst_conv)
next
  case evict
  have "mempool_inv C (m\<lparr>mp_pending := fee_insert tx (butlast (mp_pending m))\<rparr>)"
  proof (rule mempool_inv_insert)
    show "tx_hash C tx \<notin> tx_hash C ` set (butlast (mp_pending m))"
      using evict(2) by (auto dest: in_set_butlastD)
    have "length (mp_pending m) \<le> mp_max_size m" "0 < length (mp_pending m)"
      using assms evict(4) by (simp_all add: mempool_inv_def)
    then show "length (butlast (mp_pending m)) < mp_max_size m"
      unfolding length_butlast by linarith
  qed (use mempool_inv_butlast [OF assms] evict(1) in simp_all)
  then show ?thesis using evict(5) by (simp only: fst_conv)
qed

lemma erase_first_distinct:
  "distinct (map f xs) \<Longrightarrow> erase_first (\<lambda>x. k = f x) xs = filter (\<lambda>x. f x \<noteq> k) xs"
proof (induction xs)
  case (Cons x xs)
  have "filter (\<lambda>y. f y \<noteq> k) xs = xs" if "k = f x"
    using Cons.prems that by (metis (mono_tags, lifting) distinct.simps(2) filter_True image_eqI list.set_map list.simps(9))
  then show ?case using Cons by auto
qed simp

lemma remove_transactions_pending:
  "distinct (map (tx_hash C) (mp_pending m)) \<Longrightarrow>
   mp_pending (foldl (remove_transaction C) m txs) = filter (\<lambda>tx. tx_hash C tx \<notin> tx_hash C ` set txs) (mp_pending m)"
proof (induction txs arbitrary: m)
  case (Cons t txs)
  have "mp_pending (remove_transaction C m t) = filter (\<lambda>tx. tx_hash C tx \<noteq> tx_hash C t) (mp_pending m)"
    using erase_first_distinct [OF Cons.prems] by (simp add: remove_transaction_def)
  moreover from this Cons.prems have "distinct (map (tx_hash C) (mp_pending (remove_transaction C m t)))"
    by (simp add: distinct_map_filter)
  ultimately show ?case using Cons.IH by (auto intro: filter_cong)
qed simp

lemma remove_transaction_inv:
  assumes "mempool_inv C m" shows "mempool_inv C (remove_transaction C m tx)"
proof -
  let ?e = "erase_first (\<lambda>t. tx_hash C tx = tx_hash C t) (mp_pending m)"
  have "set ?e \<subseteq> set (mp_pending m)" by (rule erase_first_subset)
  moreover have "length ?e \<le> length (mp_pending m)" by (rule erase_first_sublist)
  ultimately show ?thesis
    using assms erase_first_sublist(1,2) unfolding mempool_inv_def remove_transaction_def by auto
qed

lemma add_transaction_max_size [simp]:
  "mp_max_size (fst (add_transaction C m tx)) = mp_max_size m"
  "mp_max_size (remove_transaction C m tx) = mp_max_size m"
  by (cases rule: add_transaction_cases [of C m tx]) (simp_all add: remove_transaction_def)

section \<open>Properties\<close>

lemma fee_insert_Cons:
  "fee_insert tx (t # ts) = (if tx_fee t < tx_fee tx then tx # t # ts else t # fee_insert tx ts)"
  by (simp add: fee_insert_def)

lemma fee_insert_all_less:
  "\<forall>t\<in>set ts. tx_fee t < tx_fee tx \<Longrightarrow> fee_insert tx ts = tx # ts"
  by (cases ts) (simp_all add: fee_insert_def)

text \<open>Truncating after an insertion is what eviction computes from the truncated list.\<close>

lemma take_fee_insert:
  assumes "fee_sorted ts" and "0 < n"
  shows "take n (fee_insert tx ts) =
    (let p = take n ts in
     if length p < n then fee_insert tx p
     else if tx_fee (last p) < tx_fee tx then fee_insert tx (butlast p) else p)"
  using assms
proof (induction ts arbitrary: n)
  case Nil
  then show ?case by (simp add: fee_insert_def)
next
  case (Cons t ts)
  have s: "fee_sorted ts" and top: "\<forall>y\<in>set ts. tx_fee y \<le> tx_fee t"
    using Cons.prems(1) by (auto simp: sorted_append)
  obtain m where n: "n = Suc m" using Cons.prems(2) gr0_conv_Suc by blast
  show ?case
  proof (cases "tx_fee t < tx_fee tx")
    case True
    have less: "\<forall>y\<in>set (t # ts). tx_fee y < tx_fee tx" using True top by auto
    have l: "tx_fee (last (take n (t # ts))) < tx_fee tx"
    proof -
      have "last (take n (t # ts)) \<in> set (take n (t # ts))" by (rule last_in_set) (simp add: n)
      then show ?thesis using less by (blast dest: in_set_takeD)
    qed
    have b: "fee_insert tx (butlast (take n (t # ts))) = tx # butlast (take n (t # ts))"
      using less by (intro fee_insert_all_less ballI) (blast dest: in_set_takeD in_set_butlastD)
    show ?thesis
    proof (cases "length (t # ts) < n")
      case short: True
      then show ?thesis using True by (simp add: Let_def fee_insert_Cons)
    next
      case long: False
      have "butlast (take n (t # ts)) = take m (t # ts)"
        using butlast_take [of n "t # ts"] long by (simp only: n not_less diff_Suc_1)
      moreover have "take n (tx # t # ts) = tx # take m (t # ts)" by (simp add: n)
      moreover have "\<not> length (take n (t # ts)) < n" using long by simp
      ultimately show ?thesis
        using True l b by (simp only: Let_def fee_insert_Cons if_True if_False)
    qed
  next
    case False
    show ?thesis
    proof (cases "m = 0 \<or> ts = []")
      case True
      then show ?thesis using False n by (cases m) (auto simp: Let_def fee_insert_def)
    next
      case c: False
      then have "take m ts \<noteq> []" "0 < m" by simp_all
      then show ?thesis
        using Cons.IH [OF s, of m] False by (simp add: Let_def fee_insert_Cons n)
    qed
  qed
qed

lemma add_transaction_valid:
  assumes "has_valid_signature C tx = Inr True" and "0 < n"
    and "\<not> mp_has_transaction C \<lparr>mp_pending = p, mp_max_size = n\<rparr> (tx_hash C tx)"
  shows "fst (add_transaction C \<lparr>mp_pending = p, mp_max_size = n\<rparr> tx) =
    \<lparr>mp_pending = (if length p < n then fee_insert tx p
       else if tx_fee (last p) < tx_fee tx then fee_insert tx (butlast p) else p), mp_max_size = n\<rparr>"
  using assms by (auto simp: add_transaction_def not_le)

text \<open>The transactions in order of descending fee, the earlier first among equals.\<close>

definition by_fee :: "Transaction list \<Rightarrow> Transaction list" where
  "by_fee txs = rev (sort_key tx_fee (rev txs))"

lemma by_fee_snoc: "by_fee (txs @ [tx]) = fee_insert tx (by_fee txs)"
  by (simp add: by_fee_def fee_insert_rev)

lemma set_by_fee [simp]: "set (by_fee txs) = set txs"
  by (simp add: by_fee_def)

definition add_all :: "openssl \<Rightarrow> Mempool \<Rightarrow> Transaction list \<Rightarrow> Mempool" where
  "add_all C m txs = foldl (\<lambda>m tx. fst (add_transaction C m tx)) m txs"

text \<open>C16: A pool with room for \<open>n > 0\<close> transactions that was offered any sequence of distinct, correctly
  signed transactions holds exactly the \<open>n\<close> of them with the highest fees, in order of descending
  fee, the earlier first among equal fees.\<close>

theorem mempool_keeps_best:
  assumes "0 < n" and "distinct (map (tx_hash C) txs)"
    and "\<forall>tx\<in>set txs. has_valid_signature C tx = Inr True"
  shows "add_all C (mk_Mempool n) txs = \<lparr>mp_pending = take n (by_fee txs), mp_max_size = n\<rparr>"
  using assms(2,3)
proof (induction txs rule: rev_induct)
  case Nil
  then show ?case by (simp add: add_all_def mk_Mempool_def by_fee_def)
next
  case (snoc tx txs)
  let ?m = "\<lparr>mp_pending = take n (by_fee txs), mp_max_size = n\<rparr>"
  have IH: "add_all C (mk_Mempool n) txs = ?m" using snoc by simp
  have "tx_hash C tx \<notin> tx_hash C ` set txs" using snoc.prems(1) by simp
  moreover have "set (mp_pending ?m) \<subseteq> set txs" by (auto dest: in_set_takeD)
  ultimately have new: "\<not> mp_has_transaction C ?m (tx_hash C tx)"
    by (auto simp: mp_has_transaction_iff)
  have "fee_sorted (by_fee txs)" by (simp add: by_fee_def)
  note t = take_fee_insert [OF this assms(1), of tx]
  have "fst (add_transaction C ?m tx) = \<lparr>mp_pending = take n (fee_insert tx (by_fee txs)), mp_max_size = n\<rparr>"
    unfolding t Let_def by (rule add_transaction_valid) (use new snoc.prems(2) assms(1) in simp_all)
  then show ?case using IH by (simp add: add_all_def by_fee_snoc)
qed

theorem mempool_keeps_best_witness:
  "mp_pending (add_all sample_openssl (mk_Mempool 2)
     [sample_tx 1 2 30 1 0, sample_tx 1 2 30 5 0, sample_tx 1 2 30 3 0]) =
   [sample_tx 1 2 30 5 0, sample_tx 1 2 30 3 0]"
proof -
  have "distinct (map (tx_hash sample_openssl)
      [sample_tx 1 2 30 1 0, sample_tx 1 2 30 5 0, sample_tx 1 2 30 3 0])"
    by (simp add: tx_hash_def tx_serialize_def serialize_for_signing_def sample_tx_def mk_Transaction_def
        sample_sha_def u64_le_small)
  then show ?thesis
    using mempool_keeps_best [of 2 sample_openssl
      "[sample_tx 1 2 30 1 0, sample_tx 1 2 30 5 0, sample_tx 1 2 30 3 0]"]
    by (simp add: by_fee_def word_le_nat_alt)
qed

end
