(* ===== verification/FC_Storage.thy ===== *)
theory FC_Storage
  imports FC_Block
begin

text \<open>
  src/include/storage/Storage.hpp and src/src/storage/Storage.cpp: the block and balance tables.
  SQLite is a parameter: a function that runs one prepared statement with its bound values on a
  database and says how it ended. FC_Sqlite has the same operations as the sqlite3 calls they make.
\<close>

section \<open>Statements and outcomes\<close>

datatype sql =
    Insert_block int bytes bytes
  | Select_block int
  | Count_blocks
  | Delete_blocks_from int
  | Begin_tx
  | Commit_tx
  | Rollback_tx
  | Insert_balance str int
  | Select_balance str
  | Select_balances
  | Create_blocks
  | Create_balances

text \<open>
  A statement that does not prepare, one that ends with \<open>SQLITE_DONE\<close>, one that gives a row
  (a blob, an integer, or the rows of the balance table one after the other), or any other code.
\<close>

datatype sql_outcome =
    Not_prepared
  | Done
  | Row_blob bytes
  | Row_int int
  | Rows_balance "(str \<times> int) list"
  | Other_code

type_synonym 'db sqlite = "'db \<Rightarrow> sql \<Rightarrow> 'db \<times> sql_outcome"

section \<open>Operations\<close>

text \<open>Run a statement that must end with \<open>SQLITE_DONE\<close>.\<close>

definition exec_done :: "'db sqlite \<Rightarrow> 'db \<Rightarrow> sql \<Rightarrow> string \<Rightarrow> string \<Rightarrow> 'db \<times> unit result" where
  "exec_done Q db stmt prepare_msg step_msg =
     (case Q db stmt of
        (db, Not_prepared) \<Rightarrow> (db, Inl (Runtime_error prepare_msg))
      | (db, Done) \<Rightarrow> (db, Inr ())
      | (db, _) \<Rightarrow> (db, Inl (Runtime_error step_msg)))"

definition create_schema :: "'db sqlite \<Rightarrow> 'db \<Rightarrow> 'db \<times> unit result" where
  "create_schema Q db =
     (case exec_done Q db Create_blocks ''failed to prepare blocks table schema''
             ''failed to create blocks table'' of
        (db, Inl e) \<Rightarrow> (db, Inl e)
      | (db, Inr _) \<Rightarrow> exec_done Q db Create_balances ''failed to prepare balances table schema''
             ''failed to create balances table'')"

text \<open>The storage constructor: \<open>opened\<close> is the database, or \<open>None\<close> when it cannot be opened.\<close>

definition open_storage :: "'db sqlite \<Rightarrow> 'db option \<Rightarrow> str \<Rightarrow> 'db result" where
  "open_storage Q opened path =
     (case opened of
        None \<Rightarrow> Inl (Runtime_error (''failed to open storage database: '' @ path))
      | Some db \<Rightarrow> (case create_schema Q db of (db, Inl e) \<Rightarrow> Inl e | (db, Inr _) \<Rightarrow> Inr db))"

definition save_block :: "'db sqlite \<Rightarrow> 'db \<Rightarrow> Block \<Rightarrow> nat \<Rightarrow> 'db \<times> unit result" where
  "save_block Q db block height =
     exec_done Q db (Insert_block (int height) (b_hash block) (block_serialize block))
       ''failed to prepare INSERT for blocks'' ''failed to insert block''"

definition load_block :: "openssl \<Rightarrow> 'db sqlite \<Rightarrow> 'db \<Rightarrow> nat \<Rightarrow> 'db \<times> Block option result" where
  "load_block C Q db height =
     (case Q db (Select_block (int height)) of
        (db, Not_prepared) \<Rightarrow> (db, Inl (Runtime_error ''failed to prepare SELECT for blocks''))
      | (db, Row_blob raw) \<Rightarrow> (db, Inr (block_deserialize C raw))
      | (db, _) \<Rightarrow> (db, Inr None))"

definition block_count :: "'db sqlite \<Rightarrow> 'db \<Rightarrow> 'db \<times> nat result" where
  "block_count Q db =
     (case Q db Count_blocks of
        (db, Not_prepared) \<Rightarrow> (db, Inl (Runtime_error ''failed to prepare SELECT for block''))
      | (db, Row_int n) \<Rightarrow> (db, Inr (nat n))
      | (db, _) \<Rightarrow> (db, Inl (Runtime_error ''failed to count blocks'')))"

definition delete_blocks_from :: "'db sqlite \<Rightarrow> 'db \<Rightarrow> nat \<Rightarrow> 'db \<times> unit result" where
  "delete_blocks_from Q db height =
     exec_done Q db (Delete_blocks_from (int height)) ''failed to prepare DELETE for blocks''
       ''failed to delete blocks''"

fun save_blocks :: "'db sqlite \<Rightarrow> 'db \<Rightarrow> nat \<Rightarrow> Block list \<Rightarrow> 'db \<times> unit result" where
  "save_blocks Q db height [] = (db, Inr ())"
| "save_blocks Q db height (block # blocks) =
     (case save_block Q db block height of
        (db, Inl e) \<Rightarrow> (db, Inl e)
      | (db, Inr _) \<Rightarrow> save_blocks Q db (height + 1) blocks)"

definition replace_blocks_from :: "'db sqlite \<Rightarrow> 'db \<Rightarrow> nat \<Rightarrow> Block list \<Rightarrow> 'db \<times> unit result" where
  "replace_blocks_from Q db height blocks =
     (case Q db Begin_tx of
        (db, Done) \<Rightarrow>
          (case (case delete_blocks_from Q db height of
                   (db, Inl e) \<Rightarrow> (db, Inl e)
                 | (db, Inr _) \<Rightarrow> save_blocks Q db height blocks) of
             (db, Inl e) \<Rightarrow> (fst (Q db Rollback_tx), Inl e)
           | (db, Inr _) \<Rightarrow>
               (case Q db Commit_tx of
                  (db, Done) \<Rightarrow> (db, Inr ())
                | (db, _) \<Rightarrow> (db, Inl (Runtime_error ''failed to commit transaction''))))
      | (db, _) \<Rightarrow> (db, Inl (Runtime_error ''failed to begin transaction'')))"

definition save_balance :: "'db sqlite \<Rightarrow> 'db \<Rightarrow> str \<Rightarrow> u64 \<Rightarrow> 'db \<times> unit result" where
  "save_balance Q db address amount =
     exec_done Q db (Insert_balance (c_str address) (sint amount))
       ''failed to prepare INSERT for balances'' ''failed to insert balance''"

definition load_balance :: "'db sqlite \<Rightarrow> 'db \<Rightarrow> str \<Rightarrow> 'db \<times> u64 option result" where
  "load_balance Q db address =
     (case Q db (Select_balance (c_str address)) of
        (db, Not_prepared) \<Rightarrow> (db, Inl (Runtime_error ''failed to prepare SELECT for balances''))
      | (db, Row_int n) \<Rightarrow> (db, Inr (Some (word_of_int n)))
      | (db, _) \<Rightarrow> (db, Inr None))"

definition load_all_balances :: "'db sqlite \<Rightarrow> 'db \<Rightarrow> 'db \<times> (str \<times> u64) list result" where
  "load_all_balances Q db =
     (case Q db Select_balances of
        (db, Not_prepared) \<Rightarrow> (db, Inl (Runtime_error ''failed to prepare SELECT for balances''))
      | (db, Rows_balance rows) \<Rightarrow> (db, Inr (map (\<lambda>(address, n). (c_str address, word_of_int n)) rows))
      | (db, _) \<Rightarrow> (db, Inr []))"

section \<open>What SQLite promises\<close>

text \<open>
  A database has visible rows of the block table, the rows that are durable, and may be inside a
  transaction. Outside a transaction the two agree. A statement that fails leaves the durable rows
  as they are; inside a transaction nothing becomes durable before the commit.
\<close>

type_synonym block_rows = "(int \<times> bytes \<times> bytes) set"

definition insert_row :: "int \<Rightarrow> bytes \<Rightarrow> bytes \<Rightarrow> block_rows \<Rightarrow> block_rows" where
  "insert_row h k s R = insert (h, k, s) {(h', k', s') \<in> R. h' \<noteq> h \<and> k' \<noteq> k}"

record 'db sqlite_view =
  sv_rows :: "'db \<Rightarrow> block_rows"
  sv_durable :: "'db \<Rightarrow> block_rows"
  sv_in_tx :: "'db \<Rightarrow> bool"
  sv_balance :: "'db \<Rightarrow> str \<Rightarrow> int option"

definition sqlite_write_laws :: "'db sqlite \<Rightarrow> 'db sqlite_view \<Rightarrow> bool" where
  "sqlite_write_laws Q V \<longleftrightarrow>
     (\<forall>db h k s db'. Q db (Insert_block h k s) = (db', Done) \<longrightarrow>
        sv_rows V db' = insert_row h k s (sv_rows V db) \<and> sv_in_tx V db' = sv_in_tx V db) \<and>
     (\<forall>db h db'. Q db (Delete_blocks_from h) = (db', Done) \<longrightarrow>
        sv_rows V db' = {r \<in> sv_rows V db. fst r < h} \<and> sv_in_tx V db' = sv_in_tx V db)"

definition sqlite_tx_laws :: "'db sqlite \<Rightarrow> 'db sqlite_view \<Rightarrow> bool" where
  "sqlite_tx_laws Q V \<longleftrightarrow>
     (\<forall>db. \<not> sv_in_tx V db \<longrightarrow> sv_durable V db = sv_rows V db) \<and>
     (\<forall>db db'. Q db Begin_tx = (db', Done) \<longrightarrow>
        sv_rows V db' = sv_rows V db \<and> sv_durable V db' = sv_durable V db \<and> sv_in_tx V db') \<and>
     (\<forall>db db'. Q db Commit_tx = (db', Done) \<longrightarrow>
        sv_rows V db' = sv_rows V db \<and> \<not> sv_in_tx V db') \<and>
     (\<forall>db stmt. snd (Q db stmt) \<noteq> Done \<longrightarrow> sv_durable V (fst (Q db stmt)) = sv_durable V db) \<and>
     (\<forall>db. sv_durable V (fst (Q db Rollback_tx)) = sv_durable V db) \<and>
     (\<forall>db stmt. stmt \<noteq> Commit_tx \<longrightarrow> sv_in_tx V db \<longrightarrow>
        sv_durable V (fst (Q db stmt)) = sv_durable V db)"

definition sqlite_read_laws :: "'db sqlite \<Rightarrow> 'db sqlite_view \<Rightarrow> bool" where
  "sqlite_read_laws Q V \<longleftrightarrow>
     (\<forall>db h raw. snd (Q db (Select_block h)) = Row_blob raw \<longrightarrow> (\<exists>k. (h, k, raw) \<in> sv_rows V db)) \<and>
     (\<forall>db h. snd (Q db (Select_block h)) = Done \<longrightarrow> h \<notin> fst ` sv_rows V db) \<and>
     (\<forall>db n. snd (Q db Count_blocks) = Row_int n \<longrightarrow> n = int (card (sv_rows V db))) \<and>
     (\<forall>db. sv_rows V (fst (Q db Count_blocks)) = sv_rows V db \<and>
        sv_in_tx V (fst (Q db Count_blocks)) = sv_in_tx V db) \<and>
     (\<forall>db a n db'. Q db (Insert_balance a n) = (db', Done) \<longrightarrow>
        sv_balance V db' = (sv_balance V db)(a \<mapsto> n)) \<and>
     (\<forall>db a n. snd (Q db (Select_balance a)) = Row_int n \<longrightarrow> sv_balance V db a = Some n)"

definition sqlite_laws :: "'db sqlite \<Rightarrow> 'db sqlite_view \<Rightarrow> bool" where
  "sqlite_laws Q V \<longleftrightarrow> sqlite_write_laws Q V \<and> sqlite_tx_laws Q V \<and> sqlite_read_laws Q V"

text \<open>A database that is not full, locked or damaged: writes succeed, and so do a transaction's begin and end in their places.\<close>

definition accepts_writes :: "'db sqlite \<Rightarrow> 'db sqlite_view \<Rightarrow> bool" where
  "accepts_writes Q V \<longleftrightarrow>
     (\<forall>db h k s. snd (Q db (Insert_block h k s)) = Done) \<and> (\<forall>db h. snd (Q db (Delete_blocks_from h)) = Done) \<and>
     (\<forall>db. \<not> sv_in_tx V db \<longrightarrow> snd (Q db Begin_tx) = Done) \<and> (\<forall>db. sv_in_tx V db \<longrightarrow> snd (Q db Commit_tx) = Done)"

section \<open>Facts\<close>

lemma exec_done_cases:
  obtains (ok) db' where "Q db stmt = (db', Done)" "exec_done Q db stmt p m = (db', Inr ())"
  | (fail) e where "snd (Q db stmt) \<noteq> Done" "exec_done Q db stmt p m = (fst (Q db stmt), Inl e)"
proof (cases "Q db stmt")
  case (Pair db' out)
  then show ?thesis using ok fail by (cases out) (auto simp: exec_done_def)
qed

lemma exec_done_Inr: "exec_done Q db stmt p m = (db', Inr u) \<longleftrightarrow> Q db stmt = (db', Done)"
  by (cases rule: exec_done_cases [of Q db stmt p m]) auto

text \<open>The rows of consecutive blocks from a height on.\<close>

fun block_rows_from :: "nat \<Rightarrow> Block list \<Rightarrow> block_rows" where
  "block_rows_from h [] = {}"
| "block_rows_from h (b # bs) = insert (int h, b_hash b, block_serialize b) (block_rows_from (Suc h) bs)"

lemma block_rows_from_iff:
  "(i, k, s) \<in> block_rows_from h bs \<longleftrightarrow>
     (\<exists>j<length bs. i = int (h + j) \<and> k = b_hash (bs ! j) \<and> s = block_serialize (bs ! j))"
proof (induction bs arbitrary: h)
  case (Cons b bs)
  show ?case (is "?l \<longleftrightarrow> ?r")
  proof
    assume ?l
    then show ?r using Cons.IH [of "Suc h"]
      by (auto intro: exI [of _ 0] exI [of _ "Suc _"])
  next
    assume ?r
    then obtain j where "j < length (b # bs)" "i = int (h + j)" "k = b_hash ((b # bs) ! j)"
      "s = block_serialize ((b # bs) ! j)" by blast
    then show ?l using Cons.IH [of "Suc h"] by (cases j) auto
  qed
qed simp

lemma block_rows_from_append:
  "block_rows_from h (xs @ ys) = block_rows_from h xs \<union> block_rows_from (h + length xs) ys"
  by (induction xs arbitrary: h) auto

lemma block_rows_from_below: "{r \<in> block_rows_from h (xs @ ys). fst r < int (h + length xs)} = block_rows_from h xs"
  by (force simp: block_rows_from_append block_rows_from_iff)

lemma insert_row_fresh:
  "h \<notin> fst ` R \<Longrightarrow> k \<notin> (fst \<circ> snd) ` R \<Longrightarrow> insert_row h k s R = insert (h, k, s) R"
  by (force simp: insert_row_def)

lemma save_blocks_rows:
  assumes "sqlite_write_laws Q V" and "save_blocks Q db h bs = (db', Inr u)"
    and "\<forall>r\<in>sv_rows V db. fst r < int h \<and> fst (snd r) \<notin> b_hash ` set bs"
    and "distinct (map b_hash bs)"
  shows "sv_rows V db' = sv_rows V db \<union> block_rows_from h bs \<and> sv_in_tx V db' = sv_in_tx V db"
  using assms(2-)
proof (induction bs arbitrary: db h)
  case (Cons b bs)
  from Cons.prems(1) obtain db1 where s: "Q db (Insert_block (int h) (b_hash b) (block_serialize b)) = (db1, Done)"
    and r: "save_blocks Q db1 (Suc h) bs = (db', Inr u)"
    by (auto simp: save_block_def exec_done_Inr split: prod.splits sum.splits)
  have rows: "sv_rows V db1 = insert_row (int h) (b_hash b) (block_serialize b) (sv_rows V db)"
    and tx: "sv_in_tx V db1 = sv_in_tx V db"
    using assms(1) s unfolding sqlite_write_laws_def by blast+
  have "insert_row (int h) (b_hash b) (block_serialize b) (sv_rows V db) =
      insert (int h, b_hash b, block_serialize b) (sv_rows V db)"
    using Cons.prems(2) by (intro insert_row_fresh) force+
  with rows have rows1: "sv_rows V db1 = insert (int h, b_hash b, block_serialize b) (sv_rows V db)" by simp
  have "sv_rows V db' = sv_rows V db1 \<union> block_rows_from (Suc h) bs \<and> sv_in_tx V db' = sv_in_tx V db1"
    by (rule Cons.IH [OF r]) (use Cons.prems rows1 in auto)
  with rows1 tx show ?case by auto
qed simp

lemma save_blocks_durable:
  assumes "sqlite_tx_laws Q V" and "sv_in_tx V db" and "sqlite_write_laws Q V"
  shows "sv_durable V (fst (save_blocks Q db h bs)) = sv_durable V db"
  using assms(2)
proof (induction bs arbitrary: db h)
  case (Cons b bs)
  let ?ins = "Insert_block (int h) (b_hash b) (block_serialize b)"
  have keep: "sv_durable V (fst (Q db ?ins)) = sv_durable V db"
    using assms(1) Cons.prems unfolding sqlite_tx_laws_def by blast
  show ?case
  proof (cases rule: exec_done_cases [of Q db ?ins "''failed to prepare INSERT for blocks''" "''failed to insert block''"])
    case (ok db1)
    then have "sv_in_tx V db1" using assms(3) Cons.prems unfolding sqlite_write_laws_def by metis
    with Cons.IH [OF this, of "h + 1"] ok keep show ?thesis by (simp add: save_block_def)
  next
    case (fail e)
    then show ?thesis using keep by (simp add: save_block_def)
  qed
qed simp

lemma save_blocks_succeeds:
  assumes "accepts_writes Q V" and "sqlite_write_laws Q V" and "sv_in_tx V db"
  obtains db' where "save_blocks Q db h bs = (db', Inr ())" "sv_in_tx V db'"
  using assms(3)
proof (induction bs arbitrary: db h thesis)
  case (Cons b bs)
  obtain db1 where q: "Q db (Insert_block (int h) (b_hash b) (block_serialize b)) = (db1, Done)"
    using assms(1) unfolding accepts_writes_def by (metis prod.collapse)
  then have "sv_in_tx V db1" using assms(2) Cons.prems(2) unfolding sqlite_write_laws_def by metis
  then obtain db' where "save_blocks Q db1 (Suc h) bs = (db', Inr ())" "sv_in_tx V db'" by (rule Cons.IH [rotated])
  then show ?case using q Cons.prems(1) by (simp add: save_block_def exec_done_def)
qed simp

lemma replace_blocks_succeeds:
  assumes "accepts_writes Q V" and "sqlite_laws Q V" and "\<not> sv_in_tx V db"
  shows "\<exists>db'. replace_blocks_from Q db h bs = (db', Inr ())"
proof -
  have laws: "sqlite_write_laws Q V" "sqlite_tx_laws Q V" using assms(2) by (simp_all add: sqlite_laws_def)
  obtain db1 where b: "Q db Begin_tx = (db1, Done)"
    using assms(1,3) unfolding accepts_writes_def by (metis prod.collapse)
  then have "sv_in_tx V db1" using laws(2) unfolding sqlite_tx_laws_def by blast
  moreover obtain db2 where d: "Q db1 (Delete_blocks_from (int h)) = (db2, Done)"
    using assms(1) unfolding accepts_writes_def by (metis prod.collapse)
  ultimately have "sv_in_tx V db2" using laws(1) unfolding sqlite_write_laws_def by metis
  then obtain db3 where s: "save_blocks Q db2 h bs = (db3, Inr ())" "sv_in_tx V db3"
    by (rule save_blocks_succeeds [OF assms(1) laws(1)])
  then obtain db4 where "Q db3 Commit_tx = (db4, Done)"
    using assms(1) unfolding accepts_writes_def by (metis prod.collapse)
  with b d s(1) show ?thesis by (simp add: replace_blocks_from_def delete_blocks_from_def exec_done_def)
qed

section \<open>A database in memory\<close>

text \<open>An instance that keeps every promise: the rows, and their copy at the start of a transaction.\<close>

record mem_db =
  md_rows :: "(int \<times> bytes \<times> bytes) list"
  md_saved :: "(int \<times> bytes \<times> bytes) list option"
  md_balances :: "(str \<times> int) list"

definition empty_db :: mem_db where
  "empty_db = \<lparr>md_rows = [], md_saved = None, md_balances = []\<rparr>"

fun mem_sqlite :: "mem_db sqlite" where
  "mem_sqlite db (Insert_block h k s) =
     (db\<lparr>md_rows := (h, k, s) # filter (\<lambda>(h', k', s'). h' \<noteq> h \<and> k' \<noteq> k) (md_rows db)\<rparr>, Done)"
| "mem_sqlite db (Select_block h) =
     (db, case List.find (\<lambda>r. fst r = h) (md_rows db) of None \<Rightarrow> Done | Some r \<Rightarrow> Row_blob (snd (snd r)))"
| "mem_sqlite db Count_blocks = (db, Row_int (int (length (remdups (md_rows db)))))"
| "mem_sqlite db (Delete_blocks_from h) = (db\<lparr>md_rows := filter (\<lambda>r. fst r < h) (md_rows db)\<rparr>, Done)"
| "mem_sqlite db Begin_tx =
     (case md_saved db of None \<Rightarrow> (db\<lparr>md_saved := Some (md_rows db)\<rparr>, Done) | Some _ \<Rightarrow> (db, Other_code))"
| "mem_sqlite db Commit_tx =
     (case md_saved db of None \<Rightarrow> (db, Other_code) | Some _ \<Rightarrow> (db\<lparr>md_saved := None\<rparr>, Done))"
| "mem_sqlite db Rollback_tx =
     (case md_saved db of None \<Rightarrow> (db, Other_code) | Some r \<Rightarrow> (db\<lparr>md_rows := r, md_saved := None\<rparr>, Done))"
| "mem_sqlite db (Insert_balance a n) = (db\<lparr>md_balances := AList.update a n (md_balances db)\<rparr>, Done)"
| "mem_sqlite db (Select_balance a) =
     (db, case map_of (md_balances db) a of None \<Rightarrow> Done | Some n \<Rightarrow> Row_int n)"
| "mem_sqlite db Select_balances = (db, Rows_balance (md_balances db))"
| "mem_sqlite db Create_blocks = (db, Done)"
| "mem_sqlite db Create_balances = (db, Done)"

definition mem_view :: "mem_db sqlite_view" where
  "mem_view = \<lparr>sv_rows = (\<lambda>db. set (md_rows db)),
     sv_durable = (\<lambda>db. set (case md_saved db of None \<Rightarrow> md_rows db | Some r \<Rightarrow> r)),
     sv_in_tx = (\<lambda>db. md_saved db \<noteq> None), sv_balance = (\<lambda>db. map_of (md_balances db))\<rparr>"

lemma mem_write_laws: "sqlite_write_laws mem_sqlite mem_view"
  by (auto simp: sqlite_write_laws_def mem_view_def insert_row_def)

lemma mem_accepts_writes: "accepts_writes mem_sqlite mem_view"
  by (auto simp: accepts_writes_def mem_view_def)

lemma mem_durable_in_tx:
  assumes "stmt \<noteq> Commit_tx" and "md_saved db = Some r"
  shows "sv_durable mem_view (fst (mem_sqlite db stmt)) = sv_durable mem_view db"
  using assms by (cases stmt) (simp_all add: mem_view_def)

lemma mem_durable_failed:
  assumes "snd (mem_sqlite db stmt) \<noteq> Done"
  shows "sv_durable mem_view (fst (mem_sqlite db stmt)) = sv_durable mem_view db"
  using assms by (cases stmt) (auto split: option.splits)

lemma mem_tx_laws: "sqlite_tx_laws mem_sqlite mem_view"
proof -
  have "sv_durable mem_view (fst (mem_sqlite db Rollback_tx)) = sv_durable mem_view db" for db
    by (cases "md_saved db") (simp_all add: mem_view_def)
  moreover have "sv_rows mem_view db' = sv_rows mem_view db \<and> sv_durable mem_view db' = sv_durable mem_view db \<and>
      sv_in_tx mem_view db'" if "mem_sqlite db Begin_tx = (db', Done)" for db db'
    using that by (auto simp: mem_view_def split: option.splits)
  moreover have "sv_rows mem_view db' = sv_rows mem_view db \<and> \<not> sv_in_tx mem_view db'"
    if "mem_sqlite db Commit_tx = (db', Done)" for db db'
    using that by (auto simp: mem_view_def split: option.splits)
  moreover have "\<not> sv_in_tx mem_view db \<Longrightarrow> sv_durable mem_view db = sv_rows mem_view db" for db
    by (simp add: mem_view_def)
  moreover have "sv_durable mem_view (fst (mem_sqlite db stmt)) = sv_durable mem_view db"
    if "stmt \<noteq> Commit_tx" "sv_in_tx mem_view db" for db stmt
    using that mem_durable_in_tx [of stmt db] by (auto simp: mem_view_def)
  ultimately show ?thesis
    unfolding sqlite_tx_laws_def using mem_durable_failed by blast
qed

lemma mem_read_laws: "sqlite_read_laws mem_sqlite mem_view"
proof -
  have "\<exists>k. (h, k, raw) \<in> sv_rows mem_view db"
    if "snd (mem_sqlite db (Select_block h)) = Row_blob raw" for db h raw
  proof -
    from that obtain r where "List.find (\<lambda>r. fst r = h) (md_rows db) = Some r" "raw = snd (snd r)"
      by (auto split: option.splits)
    then have "r \<in> set (md_rows db)" "fst r = h" by (auto simp: find_Some_iff)
    with \<open>raw = snd (snd r)\<close> show ?thesis by (auto simp: mem_view_def intro: exI [of _ "fst (snd r)"])
  qed
  moreover have "h \<notin> fst ` sv_rows mem_view db"
    if "snd (mem_sqlite db (Select_block h)) = Done" for db h
    using that by (auto simp: mem_view_def find_None_iff split: option.splits)
  moreover have "n = int (card (sv_rows mem_view db))" if "snd (mem_sqlite db Count_blocks) = Row_int n" for db n
    using that by (simp add: mem_view_def length_remdups_card_conv)
  moreover have "sv_balance mem_view db' = (sv_balance mem_view db)(a \<mapsto> n)"
    if "mem_sqlite db (Insert_balance a n) = (db', Done)" for db a n db'
    using that by (auto simp: mem_view_def update_conv')
  moreover have "sv_balance mem_view db a = Some n" if "snd (mem_sqlite db (Select_balance a)) = Row_int n" for db a n
    using that by (simp add: mem_view_def split: option.splits)
  ultimately show ?thesis unfolding sqlite_read_laws_def by simp
qed

lemma mem_laws [simp]: "sqlite_laws mem_sqlite mem_view"
  by (simp add: sqlite_laws_def mem_write_laws mem_tx_laws mem_read_laws)

section \<open>Properties\<close>

lemma sqlite_tx_lawsD:
  assumes "sqlite_tx_laws Q V"
  shows "\<not> sv_in_tx V db \<Longrightarrow> sv_durable V db = sv_rows V db"
    and "Q db Begin_tx = (db', Done) \<Longrightarrow> sv_rows V db' = sv_rows V db"
    and "Q db Begin_tx = (db', Done) \<Longrightarrow> sv_durable V db' = sv_durable V db"
    and "Q db Begin_tx = (db', Done) \<Longrightarrow> sv_in_tx V db'"
    and "Q db Commit_tx = (db', Done) \<Longrightarrow> sv_rows V db' = sv_rows V db"
    and "Q db Commit_tx = (db', Done) \<Longrightarrow> \<not> sv_in_tx V db'"
    and "Q db stmt = (db', out) \<Longrightarrow> out \<noteq> Done \<Longrightarrow> sv_durable V db' = sv_durable V db"
    and "sv_durable V (fst (Q db Rollback_tx)) = sv_durable V db"
    and "stmt \<noteq> Commit_tx \<Longrightarrow> sv_in_tx V db \<Longrightarrow> sv_durable V (fst (Q db stmt)) = sv_durable V db"
proof -
  note l = assms [unfolded sqlite_tx_laws_def]
  note l2 = conjunct2 [OF l] and l3 = conjunct2 [OF conjunct2 [OF l]]
  note l4 = conjunct2 [OF l3] note l5 = conjunct2 [OF l4] note l6 = conjunct2 [OF l5]
  note commit = conjunct1 [OF l3, rule_format]
  note begin_tx = conjunct1 [OF l2, rule_format]
  show "\<not> sv_in_tx V db \<Longrightarrow> sv_durable V db = sv_rows V db" by (rule conjunct1 [OF l, rule_format])
  show "Q db Begin_tx = (db', Done) \<Longrightarrow> sv_rows V db' = sv_rows V db"
    and "Q db Begin_tx = (db', Done) \<Longrightarrow> sv_durable V db' = sv_durable V db"
    and "Q db Begin_tx = (db', Done) \<Longrightarrow> sv_in_tx V db'"
    using begin_tx [of db db'] by simp_all
  show "Q db Commit_tx = (db', Done) \<Longrightarrow> sv_rows V db' = sv_rows V db"
    and "Q db Commit_tx = (db', Done) \<Longrightarrow> \<not> sv_in_tx V db'"
    using commit [of db db'] by simp_all
  show "Q db stmt = (db', out) \<Longrightarrow> out \<noteq> Done \<Longrightarrow> sv_durable V db' = sv_durable V db"
    using conjunct1 [OF l4, rule_format, of db stmt] by simp
  show "sv_durable V (fst (Q db Rollback_tx)) = sv_durable V db" by (rule conjunct1 [OF l5, rule_format])
  show "stmt \<noteq> Commit_tx \<Longrightarrow> sv_in_tx V db \<Longrightarrow> sv_durable V (fst (Q db stmt)) = sv_durable V db"
    by (rule l6 [rule_format])
qed

lemma replace_body:
  assumes "sqlite_write_laws Q V" and "sqlite_tx_laws Q V" and "sv_in_tx V db"
    and "(case delete_blocks_from Q db h of (db, Inl e) \<Rightarrow> (db, Inl e)
          | (db, Inr _) \<Rightarrow> save_blocks Q db h bs) = (db2, r)"
  shows "sv_durable V db2 = sv_durable V db"
    and "r = Inr u \<Longrightarrow> distinct (map b_hash bs) \<Longrightarrow>
      \<forall>r\<in>sv_rows V db. fst r < int h \<longrightarrow> fst (snd r) \<notin> b_hash ` set bs \<Longrightarrow>
      sv_rows V db2 = {r \<in> sv_rows V db. fst r < int h} \<union> block_rows_from h bs"
proof -
  let ?del = "Delete_blocks_from (int h)"
  have keep: "sv_durable V (fst (Q db ?del)) = sv_durable V db"
    using sqlite_tx_lawsD(9) [OF assms(2) _ assms(3)] by simp
  consider (fail) e where "db2 = fst (Q db ?del)" "r = Inl e"
    | (ok) db1 where "Q db ?del = (db1, Done)" "save_blocks Q db1 h bs = (db2, r)"
    using assms(4) unfolding delete_blocks_from_def
    by (cases rule: exec_done_cases [of Q db ?del "''failed to prepare DELETE for blocks''" "''failed to delete blocks''"])
      auto
  note del = this
  have d: "sv_rows V db1 = {r \<in> sv_rows V db. fst r < int h}" "sv_in_tx V db1"
    if "Q db ?del = (db1, Done)" for db1
    using assms(1,3) that unfolding sqlite_write_laws_def by blast+
  show "sv_durable V db2 = sv_durable V db"
  proof (cases rule: del)
    case (ok db1)
    then show ?thesis
      using save_blocks_durable [OF assms(2) d(2) [OF ok(1)] assms(1), of h bs] keep by simp
  qed (use keep in simp)
  show "sv_rows V db2 = {r \<in> sv_rows V db. fst r < int h} \<union> block_rows_from h bs"
    if "r = Inr u" "distinct (map b_hash bs)"
      "\<forall>r\<in>sv_rows V db. fst r < int h \<longrightarrow> fst (snd r) \<notin> b_hash ` set bs"
  proof (cases rule: del)
    case (ok db1)
    then show ?thesis
      using save_blocks_rows [OF assms(1), of db1 h bs db2 u] that d [OF ok(1)] by simp
  qed (use that in simp)
qed

lemma replace_blocks_outcome:
  assumes "sqlite_laws Q V" and "\<not> sv_in_tx V db"
    and "distinct (map b_hash bs)"
    and "\<forall>r\<in>sv_rows V db. fst r < int h \<longrightarrow> fst (snd r) \<notin> b_hash ` set bs"
  shows "case replace_blocks_from Q db h bs of
      (db', Inr u) \<Rightarrow> sv_durable V db' = {r \<in> sv_rows V db. fst r < int h} \<union> block_rows_from h bs \<and>
        sv_rows V db' = sv_durable V db' \<and> \<not> sv_in_tx V db'
    | (db', Inl e) \<Rightarrow> sv_durable V db' = sv_durable V db"
proof -
  have w: "sqlite_write_laws Q V" and t: "sqlite_tx_laws Q V" using assms(1) by (simp_all add: sqlite_laws_def)
  obtain db1 o1 where b: "Q db Begin_tx = (db1, o1)" by fastforce
  show ?thesis
  proof (cases "o1 = Done")
    case False
    then have "sv_durable V db1 = sv_durable V db" using sqlite_tx_lawsD(7) [OF t b] by simp
    moreover have "\<exists>e. replace_blocks_from Q db h bs = (db1, Inl e)"
      using False b by (cases o1) (simp_all add: replace_blocks_from_def)
    ultimately show ?thesis by auto
  next
    case True
    then have d1: "sv_rows V db1 = sv_rows V db" "sv_durable V db1 = sv_durable V db" "sv_in_tx V db1"
      using sqlite_tx_lawsD(2-4) [OF t] b by simp_all
    define body where "body = (case delete_blocks_from Q db1 h of
        (db, Inl e) \<Rightarrow> (db, Inl e) | (db, Inr _) \<Rightarrow> save_blocks Q db h bs)"
    obtain db2 r where r: "body = (db2, r)" by fastforce
    have un: "replace_blocks_from Q db h bs =
        (case r of Inl e \<Rightarrow> (fst (Q db2 Rollback_tx), Inl e)
         | Inr _ \<Rightarrow> (case Q db2 Commit_tx of (db, Done) \<Rightarrow> (db, Inr ())
             | (db, _) \<Rightarrow> (db, Inl (Runtime_error ''failed to commit transaction''))))"
      unfolding replace_blocks_from_def b True prod.case sql_outcome.case body_def [symmetric] r ..
    note body = replace_body [OF w t d1(3) r [unfolded body_def]]
    have dur: "sv_durable V db2 = sv_durable V db" using body(1) d1(2) by simp
    have rows: "sv_rows V db2 = {r \<in> sv_rows V db. fst r < int h} \<union> block_rows_from h bs" if "r = Inr u" for u
      using body(2) [OF that assms(3)] assms(4) d1(1) by simp
    show ?thesis
    proof (cases r)
      case (Inl e)
      have "sv_durable V (fst (Q db2 Rollback_tx)) = sv_durable V db2"
        using t by (rule sqlite_tx_lawsD)
      then show ?thesis using un Inl dur by simp
    next
      case (Inr u)
      obtain db3 o3 where c: "Q db2 Commit_tx = (db3, o3)" by fastforce
      show ?thesis
      proof (cases "o3 = Done")
        case True
        then have "sv_rows V db3 = sv_rows V db2" "\<not> sv_in_tx V db3" "sv_durable V db3 = sv_rows V db3"
          using sqlite_tx_lawsD(1,5,6) [OF t] c by simp_all
        then show ?thesis using un Inr c True rows [OF Inr] by simp
      next
        case False
        then have "sv_durable V db3 = sv_durable V db2"
          using sqlite_tx_lawsD(7) [OF t c] by simp
        moreover have "\<exists>e. replace_blocks_from Q db h bs = (db3, Inl e)"
          using un Inr c False by (cases o3) simp_all
        ultimately show ?thesis using dur by auto
      qed
    qed
  qed
qed

text \<open>C14: Replacing the stored chain from a height on is atomic: outside a transaction, when it returns
  normally the durable rows are the old rows below the height and the new blocks, and when it throws
  they are what they were. The new blocks have distinct hashes, none of which is kept below.\<close>

theorem replace_blocks_atomic:
  assumes "sqlite_laws Q V" and "\<not> sv_in_tx V db"
    and "distinct (map b_hash bs)"
    and "\<forall>r\<in>sv_rows V db. fst r < int h \<longrightarrow> fst (snd r) \<notin> b_hash ` set bs"
  shows "case replace_blocks_from Q db h bs of
      (db', Inr u) \<Rightarrow> sv_durable V db' = {r \<in> sv_rows V db. fst r < int h} \<union> block_rows_from h bs \<and>
        sv_rows V db' = sv_durable V db' \<and> \<not> sv_in_tx V db'
    | (db', Inl e) \<Rightarrow> sv_durable V db' = sv_durable V db"
  using assms by (rule replace_blocks_outcome)

lemma sqlite_lawsD:
  assumes "sqlite_laws Q V"
  shows "Q db (Insert_block h k s) = (db', Done) \<Longrightarrow> sv_rows V db' = insert_row h k s (sv_rows V db)"
    and "snd (Q db (Select_block h)) = Row_blob raw \<Longrightarrow> \<exists>k. (h, k, raw) \<in> sv_rows V db"
    and "snd (Q db (Select_block h)) = Done \<Longrightarrow> h \<notin> fst ` sv_rows V db"
    and "Q db (Insert_balance a n) = (db', Done) \<Longrightarrow> sv_balance V db' = (sv_balance V db)(a \<mapsto> n)"
    and "snd (Q db (Select_balance a)) = Row_int n \<Longrightarrow> sv_balance V db a = Some n"
    and "Q db Count_blocks = (db', out) \<Longrightarrow> sv_rows V db' = sv_rows V db \<and> sv_in_tx V db' = sv_in_tx V db"
    and "Q db (Insert_block h k s) = (db', Done) \<Longrightarrow> sv_in_tx V db' = sv_in_tx V db"
proof -
  note w = assms [unfolded sqlite_laws_def, THEN conjunct1, unfolded sqlite_write_laws_def, THEN conjunct1, rule_format]
  note l1 = assms [unfolded sqlite_laws_def, THEN conjunct2, THEN conjunct2, unfolded sqlite_read_laws_def]
  note l2 = conjunct2 [OF l1] note l3 = conjunct2 [OF l2] note l4 = conjunct2 [OF l3] note l5 = conjunct2 [OF l4]
  show "Q db (Insert_block h k s) = (db', Done) \<Longrightarrow> sv_rows V db' = insert_row h k s (sv_rows V db)"
    and "Q db (Insert_block h k s) = (db', Done) \<Longrightarrow> sv_in_tx V db' = sv_in_tx V db"
    using w [of db h k s db'] by simp_all
  show "snd (Q db (Select_block h)) = Row_blob raw \<Longrightarrow> \<exists>k. (h, k, raw) \<in> sv_rows V db"
    by (rule conjunct1 [OF l1, rule_format])
  show "snd (Q db (Select_block h)) = Done \<Longrightarrow> h \<notin> fst ` sv_rows V db"
    by (rule conjunct1 [OF l2, rule_format])
  show "Q db Count_blocks = (db', out) \<Longrightarrow> sv_rows V db' = sv_rows V db \<and> sv_in_tx V db' = sv_in_tx V db"
    using conjunct1 [OF l4, rule_format, of db] by simp
  show "Q db (Insert_balance a n) = (db', Done) \<Longrightarrow> sv_balance V db' = (sv_balance V db)(a \<mapsto> n)"
    by (rule conjunct1 [OF l5, rule_format])
  show "snd (Q db (Select_balance a)) = Row_int n \<Longrightarrow> sv_balance V db a = Some n"
    by (rule conjunct2 [OF l5, rule_format])
qed

definition sample_stored :: "u64 \<Rightarrow> Block" where
  "sample_stored t = mk_Block sample_openssl 1 zero_hash t []"

lemma sample_stored_hash: "unat t < 256 \<Longrightarrow> b_hash (sample_stored t) = replicate 31 0 @ [1 + word_of_nat (unat t)]"
  by (simp add: sample_stored_def mk_Block_def Let_def block_compute_hash_def block_serialize_def
      sample_sha_def u32_le_small u64_le_small size_le_def zero_hash_def sum_list_replicate)

theorem replace_blocks_atomic_witness:
  "case replace_blocks_from mem_sqlite empty_db 0 [sample_stored 1, sample_stored 2] of
     (db', Inr u) \<Rightarrow> sv_durable mem_view db' = block_rows_from 0 [sample_stored 1, sample_stored 2]
   | (db', Inl e) \<Rightarrow> False"
proof -
  let ?bs = "[sample_stored 1, sample_stored 2]"
  have d: "distinct (map b_hash ?bs)" by (simp add: sample_stored_hash)
  obtain db' where e: "replace_blocks_from mem_sqlite empty_db 0 ?bs = (db', Inr ())"
    by (simp add: replace_blocks_from_def delete_blocks_from_def exec_done_def save_block_def empty_db_def)
  have t: "\<not> sv_in_tx mem_view empty_db" and r: "sv_rows mem_view empty_db = {}"
    by (simp_all add: mem_view_def empty_db_def)
  have "sv_durable mem_view db' = block_rows_from 0 ?bs"
    using replace_blocks_atomic [OF mem_laws t d, of 0] unfolding e prod.case sum.case r
    by (simp del: block_rows_from.simps)
  then show ?thesis unfolding e by simp
qed

text \<open>A saved block comes back as it was: reading the height it was just saved at returns that very
  block, whatever else the table holds, unless the read itself fails. The block is one the wire format
  can carry, and the table holds one row per height.\<close>

theorem save_load_block:
  assumes "sqlite_laws Q V" and "wf_block C b" and "save_block Q db b h = (db1, Inr u)"
    and "snd (Q db1 (Select_block (int h))) \<in> range Row_blob \<union> {Done}"
  shows "snd (load_block C Q db1 h) = Inr (Some b)"
proof -
  have rows: "sv_rows V db1 = insert_row (int h) (b_hash b) (block_serialize b) (sv_rows V db)"
    using assms(3) sqlite_lawsD(1) [OF assms(1)] by (simp add: save_block_def exec_done_Inr)
  obtain db2 out where q: "Q db1 (Select_block (int h)) = (db2, out)" by fastforce
  have "int h \<in> fst ` sv_rows V db1" unfolding rows insert_row_def by force
  then have "out \<noteq> Done" using sqlite_lawsD(3) [OF assms(1), of db1 "int h"] q by auto
  with assms(4) q obtain raw where raw: "out = Row_blob raw" by auto
  with sqlite_lawsD(2) [OF assms(1), of db1 "int h" raw] q obtain k where
    "(int h, k, raw) \<in> sv_rows V db1" by auto
  then have "raw = block_serialize b" unfolding rows insert_row_def by auto
  then show ?thesis
    using q raw block_deserialize_serialize [OF assms(2)] by (simp add: load_block_def)
qed

theorem save_load_block_witness:
  "snd (load_block sample_openssl mem_sqlite (fst (save_block mem_sqlite empty_db (sample_stored 1) 7)) 7) =
   Inr (Some (sample_stored 1))"
proof -
  have s: "save_block mem_sqlite empty_db (sample_stored 1) 7 =
      (fst (save_block mem_sqlite empty_db (sample_stored 1) 7), Inr ())"
    by (simp add: save_block_def exec_done_def)
  have "wf_block sample_openssl (sample_stored 1)"
    by (simp add: wf_block_def sample_stored_def mk_Block_hash) (simp add: mk_Block_def Let_def zero_hash_def sample_sha_def)
  then show ?thesis
    using save_load_block [OF mem_laws _ s] by (simp add: save_block_def exec_done_def)
qed

text \<open>A saved balance comes back as it was over the whole range of 64-bit amounts, although the column
  is a signed integer.\<close>

theorem save_load_balance:
  assumes "sqlite_laws Q V" and "save_balance Q db a amount = (db1, Inr u)"
    and "load_balance Q db1 a = (db2, Inr (Some amount'))"
  shows "amount' = amount"
proof -
  have "sv_balance V db1 (c_str a) = Some (sint amount)"
    using sqlite_lawsD(4) [OF assms(1)] assms(2) by (simp add: save_balance_def exec_done_Inr)
  moreover obtain n where "snd (Q db1 (Select_balance (c_str a))) = Row_int n" "amount' = word_of_int n"
    using assms(3) by (auto simp: load_balance_def split: prod.splits sql_outcome.splits)
  moreover from this(1) have "sv_balance V db1 (c_str a) = Some n" by (rule sqlite_lawsD(5) [OF assms(1)])
  ultimately show ?thesis by simp
qed

theorem save_load_balance_witness:
  "snd (load_balance mem_sqlite (fst (save_balance mem_sqlite empty_db ''ab'' (- 1))) ''ab'') = Inr (Some (- 1))"
proof -
  have s: "save_balance mem_sqlite empty_db ''ab'' (- 1) =
      (fst (save_balance mem_sqlite empty_db ''ab'' (- 1)), Inr ())"
    by (simp add: save_balance_def exec_done_def)
  obtain x where "load_balance mem_sqlite (fst (save_balance mem_sqlite empty_db ''ab'' (- 1))) ''ab'' =
      (fst (save_balance mem_sqlite empty_db ''ab'' (- 1)), Inr (Some x))"
    by (simp add: load_balance_def save_balance_def exec_done_def empty_db_def)
  with save_load_balance [OF mem_laws s] show ?thesis by simp
qed

end
