(* ===== verification/FC_ChainManager.thy ===== *)
theory FC_ChainManager
  imports FC_Consensus FC_Mempool FC_Blockchain FC_Storage
begin

text \<open>
  src/include/chain/ChainManager.hpp and src/src/chain/ChainManager.cpp: the owner of chain, mempool,
  orphan pool, ledger and storage, and every operation the node, the miner and the wallet call on it.
  An operation takes the state and returns the state with a value or the exception thrown, so that
  what a throwing operation leaves behind is visible. Each public method runs under the chain mutex
  and is one atomic step here; the clock reading is an argument \<open>now\<close>.
\<close>

section \<open>State\<close>

text \<open>What the process runs on: OpenSSL, the floating-point library, hash-map iteration, SQLite.\<close>

record 'db platform =
  pf_crypto :: openssl
  pf_log2 :: llround_log2
  pf_iter :: iteration
  pf_sqlite :: "'db sqlite"

record 'db ChainManager =
  cm_blockchain :: Blockchain
  cm_mempool :: Mempool
  cm_orphans :: OrphanPool
  cm_ledger :: Ledger
  cm_storage :: "'db option"
  cm_params :: ConsensusParams
  cm_tip_version :: u64

datatype Status = Rejected | Accepted | Reorged | NeedParent

record BlockOutcome =
  bo_status :: Status
  bo_to_broadcast :: "HashBytes list"
  bo_missing_parent :: "HashBytes option"

definition new_outcome :: BlockOutcome where
  "new_outcome = \<lparr>bo_status = Rejected, bo_to_broadcast = [], bo_missing_parent = None\<rparr>"

record BlockTemplate =
  tm_prev_hash :: HashBytes
  tm_height :: nat
  tm_timestamp :: u64
  tm_difficulty :: u32
  tm_tip_version :: u64
  tm_transactions :: "Transaction list"

definition new_ChainManager ::
  "'db platform \<Rightarrow> nat \<Rightarrow> ConsensusParams \<Rightarrow> 'db option \<Rightarrow> 'db ChainManager result" where
  "new_ChainManager P mempool_max_size params storage =
     (let m = \<lparr>cm_blockchain = new_Blockchain (pf_crypto P), cm_mempool = mk_Mempool mempool_max_size,
               cm_orphans = mk_OrphanPool kDefaultMaxOrphans, cm_ledger = empty_ledger,
               cm_storage = storage, cm_params = params, cm_tip_version = 0\<rparr>
      in case storage of
           None \<Rightarrow> Inr m
         | Some db \<Rightarrow>
             (case block_count (pf_sqlite P) db of
                (db, Inl e) \<Rightarrow> Inl e
              | (db, Inr n) \<Rightarrow>
                  if n = 0 then
                    (case save_block (pf_sqlite P) db (bc_blocks (cm_blockchain m) ! 0) 0 of
                       (db, Inl e) \<Rightarrow> Inl e
                     | (db, Inr _) \<Rightarrow> Inr (m\<lparr>cm_storage := Some db\<rparr>))
                  else Inr (m\<lparr>cm_storage := Some db\<rparr>)))"

section \<open>Applying a block\<close>

text \<open>The loop of \<open>apply_block_to_ledger\<close>; \<open>undo\<close> is what was applied so far, latest first.\<close>

fun apply_txs :: "openssl \<Rightarrow> Ledger \<Rightarrow> Transaction list \<Rightarrow> Transaction list \<Rightarrow> Ledger \<times> bool result" where
  "apply_txs C L undo [] = (L, Inr True)"
| "apply_txs C L undo (tx # txs) =
     (case (if tx_sender tx = kCoinbaseSender then Inr True else has_valid_signature C tx) of
        Inl e \<Rightarrow> (L, Inl e)
      | Inr ok \<Rightarrow>
          if \<not> ok then (undo_all reverse_transaction L undo, Inr False)
          else (case apply_transaction L tx of
                  (L, applied) \<Rightarrow>
                    if \<not> applied then (undo_all reverse_transaction L undo, Inr False)
                    else apply_txs C L (tx # undo) txs))"

definition apply_block_to_ledger :: "openssl \<Rightarrow> Ledger \<Rightarrow> Block \<Rightarrow> Ledger \<times> bool result" where
  "apply_block_to_ledger C L block = apply_txs C L [] (b_transactions block)"

section \<open>Reorganization\<close>

fun branch_signed :: "openssl \<Rightarrow> Transaction list \<Rightarrow> bool result" where
  "branch_signed C [] = Inr True"
| "branch_signed C (tx # txs) =
     (if tx_sender tx \<noteq> kCoinbaseSender
      then bindE (has_valid_signature C tx) (\<lambda>ok. if \<not> ok then Inr False else branch_signed C txs)
      else branch_signed C txs)"

definition payment_hashes :: "openssl \<Rightarrow> Transaction list \<Rightarrow> HashBytes set" where
  "payment_hashes C txs = tx_hash C ` set (filter (\<lambda>tx. tx_sender tx \<noteq> kCoinbaseSender) txs)"

abbreviation branch_txs :: "Block list \<Rightarrow> Transaction list" where
  "branch_txs blocks \<equiv> concat (map b_transactions blocks)"

text \<open>Take the discarded transactions back, latest first, and offer the payments to the mempool again.\<close>

fun undo_discarded ::
  "openssl \<Rightarrow> HashBytes set \<Rightarrow> Ledger \<Rightarrow> Mempool \<Rightarrow> Transaction list \<Rightarrow> Ledger \<times> Mempool \<times> unit result" where
  "undo_discarded C new_branch_hashes L mp [] = (L, mp, Inr ())"
| "undo_discarded C new_branch_hashes L mp (tx # txs) =
     (if tx_hash C tx \<in> new_branch_hashes then undo_discarded C new_branch_hashes L mp txs
      else
        let L = fst (reverse_transaction L tx) in
        if tx_sender tx \<noteq> kCoinbaseSender then
          (case add_transaction C mp tx of
             (mp, Inl e) \<Rightarrow> (L, mp, Inl e)
           | (mp, Inr _) \<Rightarrow> undo_discarded C new_branch_hashes L mp txs)
        else undo_discarded C new_branch_hashes L mp txs)"

fun apply_new :: "openssl \<Rightarrow> HashBytes set \<Rightarrow> Ledger \<Rightarrow> Transaction list \<Rightarrow> Ledger" where
  "apply_new C discarded_hashes L [] = L"
| "apply_new C discarded_hashes L (tx # txs) =
     (if tx_hash C tx \<in> discarded_hashes then apply_new C discarded_hashes L txs
      else apply_new C discarded_hashes (fst (apply_transaction L tx)) txs)"

definition try_reorg ::
  "'db platform \<Rightarrow> 'db ChainManager \<Rightarrow> ForkChain \<Rightarrow> 'db ChainManager \<times> HashBytes list option result" where
  "try_reorg P m fork_chain =
     (let C = pf_crypto P in
      if \<not> is_fork_heavier (cm_blockchain m) fork_chain then (m, Inr None)
      else
        let new_hashes = map b_hash (fc_blocks fork_chain);
            new_branch_txs = branch_txs (fc_blocks fork_chain);
            new_branch_hashes = payment_hashes C new_branch_txs
        in case branch_signed C new_branch_txs of
             Inl e \<Rightarrow> (m, Inl e)
           | Inr False \<Rightarrow> (m, Inr None)
           | Inr True \<Rightarrow>
               (case reorganize_to (cm_blockchain m) fork_chain of
                  (bc, None) \<Rightarrow> (m\<lparr>cm_blockchain := bc\<rparr>, Inr None)
                | (bc, Some discarded) \<Rightarrow>
                    let m = m\<lparr>cm_blockchain := bc, cm_tip_version := cm_tip_version m + 1\<rparr>;
                        discarded_hashes = payment_hashes C (branch_txs discarded)
                    in case undo_discarded C new_branch_hashes (cm_ledger m) (cm_mempool m)
                              (rev (branch_txs discarded)) of
                         (L, mp, Inl e) \<Rightarrow> (m\<lparr>cm_ledger := L, cm_mempool := mp\<rparr>, Inl e)
                       | (L, mp, Inr _) \<Rightarrow>
                           let m = m\<lparr>cm_ledger := apply_new C discarded_hashes L new_branch_txs,
                                     cm_mempool := mp\<rparr>
                           in case cm_storage m of
                                None \<Rightarrow> (m, Inr (Some new_hashes))
                              | Some db \<Rightarrow>
                                  let fork_point = bc_size bc - length new_hashes;
                                      new_branch = drop fork_point (bc_blocks bc)
                                  in case replace_blocks_from (pf_sqlite P) db fork_point new_branch of
                                       (db, Inl e) \<Rightarrow> (m\<lparr>cm_storage := Some db\<rparr>, Inl e)
                                     | (db, Inr _) \<Rightarrow> (m\<lparr>cm_storage := Some db\<rparr>, Inr (Some new_hashes))))"

section \<open>Fork candidates\<close>

text \<open>The stack of \<open>find_fork_tips\<close> is a list with its top first.\<close>

function fork_tips_loop ::
  "iteration \<Rightarrow> OrphanPool \<Rightarrow> Block list \<Rightarrow> Block list \<Rightarrow> nat \<Rightarrow> Block list" where
  "fork_tips_loop iter pool stack tips visited =
     (if stack \<noteq> [] \<and> visited < kMaxForkDepth then
        let block = hd stack; stack = tl stack; result = children_of iter pool (b_hash block) in
        if result = [] then fork_tips_loop iter pool stack (tips @ [block]) (visited + 1)
        else fork_tips_loop iter pool (rev result @ stack) tips (visited + 1)
      else tips @ stack)"
  by pat_completeness auto
termination by (relation "measure (\<lambda>(_, _, _, _, visited). kMaxForkDepth - visited)") auto

declare fork_tips_loop.simps [simp del]

definition find_fork_tips :: "iteration \<Rightarrow> OrphanPool \<Rightarrow> Block \<Rightarrow> Block list" where
  "find_fork_tips iter pool start = fork_tips_loop iter pool [start] [] 0"

fun valid_prefix_loop ::
  "llround_log2 \<Rightarrow> ConsensusParams \<Rightarrow> (nat \<Rightarrow> Block result) \<Rightarrow> u64 \<Rightarrow> nat \<Rightarrow> nat \<Rightarrow> Block list \<Rightarrow> nat result" where
  "valid_prefix_loop fp params fork_block_at now base i [] = Inr i"
| "valid_prefix_loop fp params fork_block_at now base i (block # blocks) =
     bindE (timestamp_is_valid block (base + i) now params fork_block_at) (\<lambda>ok.
       if \<not> ok then Inr i
       else bindE (next_difficulty fp (base + i) params fork_block_at) (\<lambda>difficulty.
         if b_difficulty block \<noteq> difficulty then Inr i
         else valid_prefix_loop fp params fork_block_at now base (i + 1) blocks))"

definition fork_block_at :: "Blockchain \<Rightarrow> ForkChain \<Rightarrow> nat \<Rightarrow> nat \<Rightarrow> Block result" where
  "fork_block_at bc fork base index =
     (if base > index then bc_at bc index else vec_at (fc_blocks fork) (index - base))"

definition valid_prefix_length ::
  "llround_log2 \<Rightarrow> ConsensusParams \<Rightarrow> Blockchain \<Rightarrow> ForkChain \<Rightarrow> u64 \<Rightarrow> nat result" where
  "valid_prefix_length fp params bc fork now =
     (case find_height bc (b_hash (fc_common_ancestor fork)) of
        None \<Rightarrow> Inr 0
      | Some height \<Rightarrow>
          let base = height + 1 in
          valid_prefix_loop fp params (fork_block_at bc fork base) now base 0 (fc_blocks fork))"

definition keep_prefix :: "nat \<Rightarrow> ForkChain \<Rightarrow> ForkChain" where
  "keep_prefix prefix fork =
     (if prefix < length (fc_blocks fork) then fork\<lparr>fc_blocks := take prefix (fc_blocks fork)\<rparr> else fork)"

fun best_fork ::
  "'db platform \<Rightarrow> 'db ChainManager \<Rightarrow> u64 \<Rightarrow> Block list \<Rightarrow> ForkChain option \<Rightarrow> u64 \<Rightarrow> ForkChain option result" where
  "best_fork P m now [] best best_work = Inr best"
| "best_fork P m now (tip # tips) best best_work =
     (case build_fork_chain (cm_blockchain m) (cm_orphans m) tip of
        None \<Rightarrow> best_fork P m now tips best best_work
      | Some result \<Rightarrow>
          bindE (valid_prefix_length (pf_log2 P) (cm_params m) (cm_blockchain m) result now) (\<lambda>prefix.
            if prefix = 0 then best_fork P m now tips best best_work
            else
              let result = keep_prefix prefix result; work = fork_work result in
              if best = None \<or> work > best_work then best_fork P m now tips (Some result) work
              else best_fork P m now tips best best_work))"

definition handle_fork_candidate ::
  "'db platform \<Rightarrow> u64 \<Rightarrow> 'db ChainManager \<Rightarrow> Block \<Rightarrow> 'db ChainManager \<times> BlockOutcome result" where
  "handle_fork_candidate P now m block =
     (case add_orphan (cm_orphans m) block of
        Inl e \<Rightarrow> (m, Inl e)
      | Inr pool \<Rightarrow>
          let m = m\<lparr>cm_orphans := pool\<rparr> in
          case build_fork_chain (cm_blockchain m) (cm_orphans m) block of
            None \<Rightarrow> (m, Inr (new_outcome\<lparr>bo_status := NeedParent,
                                          bo_missing_parent := Some (b_prev_hash block)\<rparr>))
          | Some _ \<Rightarrow>
              let tips = find_fork_tips (pf_iter P) (cm_orphans m) block in
              (case best_fork P m now tips None 0 of
                 Inl e \<Rightarrow> (m, Inl e)
               | Inr None \<Rightarrow> (m, Inr new_outcome)
               | Inr (Some best) \<Rightarrow>
                   (case try_reorg P m best of
                      (m, Inl e) \<Rightarrow> (m, Inl e)
                    | (m, Inr None) \<Rightarrow> (m, Inr new_outcome)
                    | (m, Inr (Some reorg_hashes)) \<Rightarrow>
                        (m\<lparr>cm_orphans := foldl remove_orphan (cm_orphans m) reorg_hashes\<rparr>,
                         Inr (new_outcome\<lparr>bo_status := Reorged, bo_to_broadcast := reorg_hashes\<rparr>)))))"

section \<open>Submitting\<close>

definition submit_block ::
  "'db platform \<Rightarrow> u64 \<Rightarrow> 'db ChainManager \<Rightarrow> Block \<Rightarrow> 'db ChainManager \<times> BlockOutcome result" where
  "submit_block P now m block =
     (let C = pf_crypto P; bc = cm_blockchain m; outcome = new_outcome in
      if \<not> meets_target (b_hash block) (b_difficulty block) then (m, Inr outcome)
      else if \<not> validate_coinbase_amount (b_transactions block) then (m, Inr outcome)
      else case classify_new_block C bc block of
        Valid \<Rightarrow>
          (case timestamp_is_valid block (bc_size bc) now (cm_params m) (bc_at bc) of
             Inl e \<Rightarrow> (m, Inl e)
           | Inr timestamp_ok \<Rightarrow>
               if \<not> timestamp_ok then (m, Inr outcome)
               else case next_difficulty (pf_log2 P) (bc_size bc) (cm_params m) (bc_at bc) of
                 Inl e \<Rightarrow> (m, Inl e)
               | Inr expected_difficulty \<Rightarrow>
                   if b_difficulty block \<noteq> expected_difficulty then (m, Inr outcome)
                   else case apply_block_to_ledger C (cm_ledger m) block of
                     (L, Inl e) \<Rightarrow> (m\<lparr>cm_ledger := L\<rparr>, Inl e)
                   | (L, Inr applied) \<Rightarrow>
                       if \<not> applied then (m\<lparr>cm_ledger := L\<rparr>, Inr outcome)
                       else
                         let m = m\<lparr>cm_ledger := L,
                                   cm_mempool := foldl (remove_transaction C) (cm_mempool m) (b_transactions block),
                                   cm_blockchain := add_block bc block,
                                   cm_tip_version := cm_tip_version m + 1\<rparr>;
                             outcome = outcome\<lparr>bo_status := Accepted, bo_to_broadcast := [b_hash block]\<rparr>
                         in case cm_storage m of
                              None \<Rightarrow> (m, Inr outcome)
                            | Some db \<Rightarrow>
                                (case save_block (pf_sqlite P) db block (bc_size (cm_blockchain m) - 1) of
                                   (db, Inl e) \<Rightarrow> (m\<lparr>cm_storage := Some db\<rparr>, Inl e)
                                 | (db, Inr _) \<Rightarrow> (m\<lparr>cm_storage := Some db\<rparr>, Inr outcome)))
      | ForkCandidate \<Rightarrow> handle_fork_candidate P now m block
      | Invalid \<Rightarrow> (m, Inr outcome))"

definition submit_transaction ::
  "'db platform \<Rightarrow> 'db ChainManager \<Rightarrow> Transaction \<Rightarrow> 'db ChainManager \<times> bool result" where
  "submit_transaction P m tx =
     (case add_transaction (pf_crypto P) (cm_mempool m) tx of (mp, r) \<Rightarrow> (m\<lparr>cm_mempool := mp\<rparr>, r))"

definition cm_set_balance :: "'db ChainManager \<Rightarrow> str \<Rightarrow> u64 \<Rightarrow> 'db ChainManager" where
  "cm_set_balance m address amount = m\<lparr>cm_ledger := set_balance (cm_ledger m) address amount\<rparr>"

definition restore_block :: "'db platform \<Rightarrow> 'db ChainManager \<Rightarrow> Block \<Rightarrow> 'db ChainManager \<times> bool result" where
  "restore_block P m block =
     (case apply_block_to_ledger (pf_crypto P) (cm_ledger m) block of
        (L, Inl e) \<Rightarrow> (m\<lparr>cm_ledger := L\<rparr>, Inl e)
      | (L, Inr applied) \<Rightarrow>
          if \<not> applied then (m\<lparr>cm_ledger := L\<rparr>, Inr False)
          else (m\<lparr>cm_ledger := L, cm_blockchain := add_block (cm_blockchain m) block,
                  cm_tip_version := cm_tip_version m + 1\<rparr>, Inr True))"

definition adopt_branch ::
  "'db platform \<Rightarrow> u64 \<Rightarrow> 'db ChainManager \<Rightarrow> Block list \<Rightarrow> 'db ChainManager \<times> bool result" where
  "adopt_branch P now m blocks =
     (let bc = cm_blockchain m in
      if blocks = [] then (m, Inr False)
      else
        let start = length (takeWhile (\<lambda>block. bc_has_block bc (b_hash block)) blocks) in
        if start = length blocks then (m, Inr False)
        else case find_height bc (b_prev_hash (blocks ! start)) of
          None \<Rightarrow> (m, Inr False)
        | Some height \<Rightarrow>
            if list_ex (\<lambda>i. b_prev_hash (blocks ! i) \<noteq> b_hash (blocks ! (i - 1))) [start + 1..<length blocks]
            then (m, Inr False)
            else case bc_at bc height of
              Inl e \<Rightarrow> (m, Inl e)
            | Inr ancestor \<Rightarrow>
                let fork = \<lparr>fc_blocks = drop start blocks, fc_common_ancestor = ancestor\<rparr> in
                (case valid_prefix_length (pf_log2 P) (cm_params m) bc fork now of
                   Inl e \<Rightarrow> (m, Inl e)
                 | Inr prefix \<Rightarrow>
                     if prefix = 0 then (m, Inr False)
                     else case try_reorg P m (keep_prefix prefix fork) of
                       (m, Inl e) \<Rightarrow> (m, Inl e)
                     | (m, Inr hashes) \<Rightarrow> (m, Inr (hashes \<noteq> None))))"

section \<open>Queries\<close>

definition chain_height :: "'db ChainManager \<Rightarrow> nat" where
  "chain_height m = bc_size (cm_blockchain m)"

definition latest_hash :: "'db ChainManager \<Rightarrow> HashBytes" where
  "latest_hash m = b_hash (latest (cm_blockchain m))"

definition cm_has_block :: "'db ChainManager \<Rightarrow> HashBytes \<Rightarrow> bool" where
  "cm_has_block m hash = bc_has_block (cm_blockchain m) hash"

text \<open>
  \<open>find_block\<close> releases the chain mutex before it takes the orphan mutex, so the orphan pool is
  read in a later state \<open>m'\<close>.
\<close>

definition find_block :: "'db ChainManager \<Rightarrow> 'db ChainManager \<Rightarrow> HashBytes \<Rightarrow> Block option" where
  "find_block m m' hash =
     (case bc_find (cm_blockchain m) hash of
        Some block \<Rightarrow> Some block
      | None \<Rightarrow> find_orphan (cm_orphans m') hash)"

text \<open>\<open>from + limit\<close> is a 64-bit sum; when it wraps below \<open>from\<close>, \<open>reserve\<close> is asked for more than it can give.\<close>

definition blocks_between :: "Block list \<Rightarrow> nat \<Rightarrow> nat \<Rightarrow> Block list result" where
  "blocks_between bs from limit =
     (let end = min (length bs) ((from + limit) mod 2 ^ 64) in
      if end < from then Inl Length_error else Inr (map (\<lambda>i. bs ! i) [from..<end]))"

definition blocks_from :: "'db ChainManager \<Rightarrow> nat \<Rightarrow> nat \<Rightarrow> Block list result" where
  "blocks_from m from limit =
     (if from \<ge> bc_size (cm_blockchain m) then Inr []
      else blocks_between (bc_blocks (cm_blockchain m)) from limit)"

definition cm_has_transaction :: "'db platform \<Rightarrow> 'db ChainManager \<Rightarrow> HashBytes \<Rightarrow> bool" where
  "cm_has_transaction P m hash = mp_has_transaction (pf_crypto P) (cm_mempool m) hash"

definition find_transaction :: "'db platform \<Rightarrow> 'db ChainManager \<Rightarrow> HashBytes \<Rightarrow> Transaction option" where
  "find_transaction P m hash = mp_find (pf_crypto P) (cm_mempool m) hash"

fun select_loop :: "Ledger \<Rightarrow> Transaction list \<Rightarrow> Transaction list \<Rightarrow> Transaction list" where
  "select_loop simulated valid [] = valid"
| "select_loop simulated valid (tx # candidates) =
     (case apply_transaction simulated tx of
        (simulated, ok) \<Rightarrow> select_loop simulated (if ok then valid @ [tx] else valid) candidates)"

definition select_transactions :: "'db ChainManager \<Rightarrow> nat \<Rightarrow> Transaction list" where
  "select_transactions m limit =
     select_loop (cm_ledger m) [] (get_transactions_for_block (cm_mempool m) limit)"

definition transactions_for_block :: "'db ChainManager \<Rightarrow> nat \<Rightarrow> Transaction list" where
  "transactions_for_block m limit = select_transactions m limit"

definition mempool_snapshot :: "'db ChainManager \<Rightarrow> Transaction list" where
  "mempool_snapshot m = get_transactions_for_block (cm_mempool m) (mp_size (cm_mempool m))"

definition cm_get_balance :: "'db ChainManager \<Rightarrow> str \<Rightarrow> u64 option" where
  "cm_get_balance m address = get_balance (cm_ledger m) address"

definition block_at :: "'db ChainManager \<Rightarrow> nat \<Rightarrow> Block result" where
  "block_at m index = bc_at (cm_blockchain m) index"

definition cm_all_balances ::
  "((str \<times> u64) list \<Rightarrow> (str \<times> u64) list) \<Rightarrow> 'db ChainManager \<Rightarrow> (str \<times> u64) list" where
  "cm_all_balances order m = all_balances order (cm_ledger m)"

definition next_block_difficulty :: "'db platform \<Rightarrow> 'db ChainManager \<Rightarrow> u32 result" where
  "next_block_difficulty P m =
     next_difficulty (pf_log2 P) (bc_size (cm_blockchain m)) (cm_params m) (bc_at (cm_blockchain m))"

definition block_template :: "'db platform \<Rightarrow> u64 \<Rightarrow> 'db ChainManager \<Rightarrow> nat \<Rightarrow> BlockTemplate result" where
  "block_template P now m max_txs =
     (let bc = cm_blockchain m; height = bc_size bc in
      bindE (next_difficulty (pf_log2 P) height (cm_params m) (bc_at bc)) (\<lambda>difficulty.
        bindE (median_time_past height (cp_mtp_window (cm_params m)) (bc_at bc)) (\<lambda>median.
          Inr \<lparr>tm_prev_hash = b_hash (latest bc), tm_height = height, tm_timestamp = max now (median + 1),
               tm_difficulty = difficulty, tm_tip_version = cm_tip_version m,
               tm_transactions = select_transactions m max_txs\<rparr>)))"

definition cm_next_nonce :: "'db ChainManager \<Rightarrow> str \<Rightarrow> u64" where
  "cm_next_nonce m address = next_nonce (cm_ledger m) address"

definition cm_locator :: "'db ChainManager \<Rightarrow> HashBytes list result" where
  "cm_locator m = build_locator (cm_blockchain m)"

definition blocks_after_locator :: "'db ChainManager \<Rightarrow> HashBytes list \<Rightarrow> nat \<Rightarrow> Block list result" where
  "blocks_after_locator m locator limit =
     (case find_locator_match (cm_blockchain m) locator of
        None \<Rightarrow> Inr []
      | Some match \<Rightarrow>
          if match + 1 \<ge> bc_size (cm_blockchain m) then Inr []
          else blocks_between (bc_blocks (cm_blockchain m)) (match + 1) limit)"

definition tip_version :: "'db ChainManager \<Rightarrow> u64" where
  "tip_version m = cm_tip_version m"

section \<open>The ledger under blocks\<close>

lemma undo_all_inv: "ledger_inv L \<Longrightarrow> ledger_inv (undo_all reverse_transaction L txs)"
  by (induction txs arbitrary: L) (simp_all add: reverse_transaction_inv)

lemma apply_txs_inv: "ledger_inv L \<Longrightarrow> ledger_inv (fst (apply_txs C L undo txs))"
proof (induction txs arbitrary: L undo)
  case (Cons tx txs)
  have "ledger_inv (fst (apply_transaction L tx))" using Cons.prems by (rule apply_transaction_inv)
  with Cons show ?case by (auto simp: undo_all_inv split: sum.splits prod.splits)
qed simp

lemma apply_txs_True:
  assumes "apply_txs C L undo txs = (L', Inr True)"
  shows "run_all apply_transaction L txs = Some L' \<and>
    (\<forall>tx\<in>set txs. tx_sender tx = kCoinbaseSender \<or> has_valid_signature C tx = Inr True)"
  using assms
proof (induction txs arbitrary: L undo)
  case (Cons tx txs)
  then show ?case by (auto split: sum.splits prod.splits if_splits)
qed simp

lemma apply_txs_complete:
  assumes "run_all apply_transaction L txs = Some L'"
    and "\<forall>tx\<in>set txs. tx_sender tx = kCoinbaseSender \<or> has_valid_signature C tx = Inr True"
  shows "apply_txs C L undo txs = (L', Inr True)"
  using assms
proof (induction txs arbitrary: L undo)
  case (Cons tx txs)
  then show ?case by (auto split: prod.splits if_splits)
qed simp

lemma apply_txs_False:
  assumes "apply_txs C L undo txs = (L', Inr False)"
  shows "\<exists>pre post L1. txs = pre @ post \<and> run_all apply_transaction L pre = Some L1 \<and>
    L' = undo_all reverse_transaction L1 (rev pre @ undo)"
  using assms
proof (induction txs arbitrary: L undo)
  case (Cons tx txs)
  show ?case
  proof (cases "snd (apply_transaction L tx) \<and>
      (tx_sender tx = kCoinbaseSender \<or> has_valid_signature C tx = Inr True)")
    case True
    then obtain L1 where a: "apply_transaction L tx = (L1, True)" by (cases "apply_transaction L tx") auto
    with True Cons.prems have "apply_txs C L1 (tx # undo) txs = (L', Inr False)"
      by (auto split: if_splits)
    from Cons.IH [OF this] obtain pre post L2 where "txs = pre @ post"
      "run_all apply_transaction L1 pre = Some L2" "L' = undo_all reverse_transaction L2 (rev pre @ tx # undo)"
      by blast
    with a show ?thesis by (intro exI [of _ "tx # pre"] exI [of _ post] exI [of _ L2]) simp
  next
    case False
    then have "L' = undo_all reverse_transaction L undo"
      using Cons.prems apply_transaction_False [of L tx]
      by (auto split: sum.splits prod.splits if_splits)
    then show ?thesis by (intro exI [of _ "[]"] exI [of _ "tx # txs"] exI [of _ L]) simp
  qed
qed simp

lemma apply_block_inv: "ledger_inv L \<Longrightarrow> ledger_inv (fst (apply_block_to_ledger C L b))"
  by (simp add: apply_block_to_ledger_def apply_txs_inv)

lemma undo_discarded_ledger_inv: "ledger_inv L \<Longrightarrow> ledger_inv (fst (undo_discarded C H L mp txs))"
  by (induction txs arbitrary: L mp) (auto simp: Let_def reverse_transaction_inv split: prod.splits sum.splits)

lemma undo_discarded_mempool_inv:
  "mempool_inv C mp \<Longrightarrow> mempool_inv C (fst (snd (undo_discarded C H L mp txs)))"
proof (induction txs arbitrary: L mp)
  case (Cons tx txs)
  have "mempool_inv C (fst (add_transaction C mp tx))" using Cons.prems by (rule add_transaction_inv)
  with Cons show ?case by (auto simp: Let_def split: prod.splits sum.splits)
qed simp

lemma apply_new_inv: "ledger_inv L \<Longrightarrow> ledger_inv (apply_new C H L txs)"
  by (induction txs arbitrary: L) (simp_all add: apply_transaction_inv)

lemma mempool_snapshot_pending: "mempool_snapshot m = mp_pending (cm_mempool m)"
  by (simp add: mempool_snapshot_def get_transactions_for_block_def mp_size_def)

lemma remove_transactions_inv: "mempool_inv C mp \<Longrightarrow> mempool_inv C (foldl (remove_transaction C) mp txs)"
  by (induction txs arbitrary: mp) (simp_all add: remove_transaction_inv)

lemma remove_orphans_inv: "orphan_inv p \<Longrightarrow> orphan_inv (foldl remove_orphan p hs)"
  by (induction hs arbitrary: p) (simp_all add: remove_orphan_inv)

lemma remove_orphans_pool: "set (op_pool (foldl remove_orphan p hs)) \<subseteq> set (op_pool p)"
proof (induction hs arbitrary: p)
  case (Cons h hs)
  then show ?case using remove_orphan_pool [of p h] by fastforce
qed simp

lemma remove_orphans_max_size [simp]: "op_max_size (foldl remove_orphan p hs) = op_max_size p"
  by (induction hs arbitrary: p) simp_all

section \<open>How operations end\<close>

lemma reorganize_to_None: "reorganize_to bc fork = (bc', None) \<Longrightarrow> bc' = bc"
  by (auto simp: reorganize_to_def Let_def split: option.splits)

text \<open>Either nothing changed, or the chain was switched; a storage failure shows after the switch.\<close>

lemma try_reorg_cases:
  assumes "try_reorg P m fork = (m', r)"
  obtains (none) "m' = m" "\<forall>hs. r \<noteq> Inr (Some hs)"
  | (switch) bc discarded L mp u where
    "is_fork_heavier (cm_blockchain m) fork"
    "branch_signed (pf_crypto P) (branch_txs (fc_blocks fork)) = Inr True"
    "reorganize_to (cm_blockchain m) fork = (bc, Some discarded)"
    "undo_discarded (pf_crypto P) (payment_hashes (pf_crypto P) (branch_txs (fc_blocks fork)))
       (cm_ledger m) (cm_mempool m) (rev (branch_txs discarded)) = (L, mp, u)"
    "cm_blockchain m' = bc" "cm_tip_version m' = cm_tip_version m + 1" "cm_orphans m' = cm_orphans m"
    "cm_params m' = cm_params m" "cm_mempool m' = mp"
    "cm_ledger m' = (case u of Inl e \<Rightarrow> L | Inr _ \<Rightarrow>
       apply_new (pf_crypto P) (payment_hashes (pf_crypto P) (branch_txs discarded)) L
         (branch_txs (fc_blocks fork)))"
    "\<forall>hs. r = Inr (Some hs) \<longrightarrow> u = Inr () \<and> hs = map b_hash (fc_blocks fork) \<and>
       (case cm_storage m of None \<Rightarrow> cm_storage m' = None
        | Some db \<Rightarrow> \<exists>db'. cm_storage m' = Some db' \<and>
            replace_blocks_from (pf_sqlite P) db (bc_size bc - length (fc_blocks fork))
              (drop (bc_size bc - length (fc_blocks fork)) (bc_blocks bc)) = (db', Inr ()))"
    "r \<noteq> Inr None"
proof -
  let ?C = "pf_crypto P" and ?txs = "branch_txs (fc_blocks fork)"
  note d = assms [unfolded try_reorg_def Let_def]
  show ?thesis
  proof (cases "is_fork_heavier (cm_blockchain m) fork \<and> branch_signed ?C ?txs = Inr True")
    case False
    then have "m' = m \<and> (\<forall>hs. r \<noteq> Inr (Some hs))"
      using d by (cases "branch_signed ?C ?txs") (auto split: if_splits bool.splits)
    then show ?thesis using none by blast
  next
    case True
    obtain bc res where re: "reorganize_to (cm_blockchain m) fork = (bc, res)" by fastforce
    show ?thesis
    proof (cases res)
      case None
      with re reorganize_to_None have "bc = cm_blockchain m" by blast
      with True re None d show ?thesis by (intro none) auto
    next
      case (Some discarded)
      obtain L mp u where u: "undo_discarded ?C (payment_hashes ?C ?txs) (cm_ledger m) (cm_mempool m)
          (rev (branch_txs discarded)) = (L, mp, u)" by (metis prod_cases3)
      have heavy: "is_fork_heavier (cm_blockchain m) fork" and signed: "branch_signed ?C ?txs = Inr True"
        using True by simp_all
      show ?thesis
      proof (cases u)
        case (Inl e)
        then have "m' = m\<lparr>cm_blockchain := bc, cm_tip_version := cm_tip_version m + 1, cm_ledger := L,
            cm_mempool := mp\<rparr>" "r = Inl e"
          using d heavy signed re Some u by auto
        then show ?thesis using heavy signed re Some u Inl by (intro switch [of bc discarded L mp u]) (simp_all split: sum.splits)
      next
        case (Inr v)
        let ?m = "m\<lparr>cm_blockchain := bc, cm_tip_version := cm_tip_version m + 1,
          cm_ledger := apply_new ?C (payment_hashes ?C (branch_txs discarded)) L ?txs, cm_mempool := mp\<rparr>"
        show ?thesis
        proof (cases "cm_storage m")
          case None
          then have "m' = ?m" "r = Inr (Some (map b_hash (fc_blocks fork)))"
            using d heavy signed re Some u Inr by auto
          then show ?thesis using heavy signed re Some u Inr None by (intro switch [of bc discarded L mp u]) simp_all
        next
          case st: (Some db)
          obtain db' sr where sr: "replace_blocks_from (pf_sqlite P) db (bc_size bc - length (fc_blocks fork))
              (drop (bc_size bc - length (fc_blocks fork)) (bc_blocks bc)) = (db', sr)" by fastforce
          then have "m' = ?m\<lparr>cm_storage := Some db'\<rparr>"
            "r = (case sr of Inl e \<Rightarrow> Inl e | Inr _ \<Rightarrow> Inr (Some (map b_hash (fc_blocks fork))))"
            using d heavy signed re Some u Inr st by (auto split: sum.splits)
          then show ?thesis using heavy signed re Some u Inr st sr
            by (intro switch [of bc discarded L mp u]) (simp_all split: sum.splits)
        qed
      qed
    qed
  qed
qed

end
