(* ===== verification/FC_ChainInv.thy ===== *)
theory FC_ChainInv
  imports FC_ChainManager
begin

text \<open>
  The state invariant of the chain manager (src/src/chain/ChainManager.cpp), how each operation ends,
  and that every operation keeps the invariant, on success, refusal and exception alike. The step
  relation \<open>cm_step\<close> interleaves the operations in any order; the invariant holds in every state it
  reaches from a constructed manager.
\<close>

section \<open>The state invariant\<close>

text \<open>
  The chain is well formed, mempool, orphan pool and ledger keep their own invariants, and every block
  waiting in the orphan pool carries its own hash.
\<close>

definition pool_sound :: "openssl \<Rightarrow> bytes set \<Rightarrow> OrphanPool \<Rightarrow> bool" where
  "pool_sound C S pool \<longleftrightarrow> orphan_inv pool \<and> op_max_size pool = kDefaultMaxOrphans \<and>
     (\<forall>(k, b)\<in>set (op_pool pool). sound_block C S b)"

definition cm_inv :: "'db platform \<Rightarrow> bytes set \<Rightarrow> 'db ChainManager \<Rightarrow> bool" where
  "cm_inv P S m \<longleftrightarrow> chain_inv (pf_crypto P) S (cm_blockchain m) \<and>
     mempool_inv (pf_crypto P) (cm_mempool m) \<and> pool_sound (pf_crypto P) S (cm_orphans m) \<and>
     ledger_inv (cm_ledger m)"

lemma cm_inv_frame [simp]:
  "cm_inv P S (m\<lparr>cm_storage := db\<rparr>) \<longleftrightarrow> cm_inv P S m"
  "cm_inv P S (m\<lparr>cm_tip_version := v\<rparr>) \<longleftrightarrow> cm_inv P S m"
  by (simp_all add: cm_inv_def)

lemma pool_sound_add:
  assumes "pool_sound C S pool" and "sound_block C S b" and "add_orphan pool b = Inr pool'"
  shows "pool_sound C S pool'"
  using assms add_orphan_inv [of pool b pool'] add_orphan_pool [OF assms(3)]
  by (auto simp: pool_sound_def)

lemma pool_sound_remove: "pool_sound C S pool \<Longrightarrow> pool_sound C S (foldl remove_orphan pool hs)"
  using remove_orphans_inv [of pool hs] remove_orphans_pool [of pool hs] by (auto simp: pool_sound_def)

lemma try_reorg_inv:
  assumes "cm_inv P S m" and "fork_of (pf_crypto P) S (cm_blockchain m) fork"
    and "try_reorg P m fork = (m', r)"
  shows "cm_inv P S m' \<and> cm_orphans m' = cm_orphans m"
  using assms(3)
proof (cases rule: try_reorg_cases)
  case none
  then show ?thesis using assms(1) by simp
next
  case (switch bc discarded L mp u)
  let ?C = "pf_crypto P"
  have inv: "chain_inv ?C S (cm_blockchain m)" "mempool_inv ?C (cm_mempool m)" "ledger_inv (cm_ledger m)"
    using assms(1) by (simp_all add: cm_inv_def)
  have bc: "chain_inv ?C S bc" using reorganize_to_fork [OF inv(1) assms(2)] switch(3) by auto
  have L: "ledger_inv L" and mp: "mempool_inv ?C mp"
    using undo_discarded_ledger_inv [OF inv(3)] undo_discarded_mempool_inv [OF inv(2)] switch(4)
    by (metis fst_conv, metis fst_conv snd_conv)
  have "ledger_inv (cm_ledger m')" unfolding switch(10) using L by (simp add: apply_new_inv split: sum.splits)
  then show ?thesis using assms(1) bc mp switch(5,7,9) by (simp add: cm_inv_def)
qed

section \<open>Fork candidates\<close>

lemma fork_tips_sound:
  assumes "iteration_ok iter" and "pool_sound C S pool"
    and "\<forall>b\<in>set stack \<union> set tips. sound_block C S b"
  shows "\<forall>b\<in>set (fork_tips_loop iter pool stack tips visited). sound_block C S b"
  using assms
proof (induction iter pool stack tips visited rule: fork_tips_loop.induct)
  case (1 iter pool stack tips visited)
  show ?case
  proof (cases "stack \<noteq> [] \<and> visited < kMaxForkDepth")
    case False
    then show ?thesis using "1.prems" by (auto simp: fork_tips_loop.simps [of iter pool stack])
  next
    case True
    then obtain b st where st: "stack = b # st" by (cases stack) auto
    let ?r = "children_of iter pool (b_hash b)"
    have "\<forall>c\<in>set ?r. sound_block C S c"
      using "1.prems"(2) orphan_pool_in [of pool]
      unfolding pool_sound_def children_of_set [OF "1.prems"(1) "1.prems"(2) [unfolded pool_sound_def, THEN conjunct1]]
      by (auto simp: find_orphan_def)
    moreover have "fork_tips_loop iter pool stack tips visited =
        (if ?r = [] then fork_tips_loop iter pool st (tips @ [b]) (visited + 1)
         else fork_tips_loop iter pool (rev ?r @ st) tips (visited + 1))"
      using True st by (subst fork_tips_loop.simps) (simp add: Let_def)
    ultimately show ?thesis using st "1.prems" "1.IH" [OF True refl refl refl] by auto
  qed
qed

lemma find_fork_tips_sound:
  assumes "iteration_ok iter" and "pool_sound C S pool" and "sound_block C S b"
  shows "\<forall>t\<in>set (find_fork_tips iter pool b). sound_block C S t"
  unfolding find_fork_tips_def using assms by (intro fork_tips_sound) simp_all

lemma keep_prefix_fork_of:
  "fork_of C S bc fork \<Longrightarrow> 0 < n \<Longrightarrow> fork_of C S bc (keep_prefix n fork)"
  by (simp add: keep_prefix_def fork_of_prefix)

lemma best_fork_of:
  assumes "best_fork P m now tips best w = Inr (Some fork)" and "cm_inv P S m"
    and "\<forall>t\<in>set tips. sound_block (pf_crypto P) S t"
    and "\<forall>f. best = Some f \<longrightarrow> fork_of (pf_crypto P) S (cm_blockchain m) f"
  shows "fork_of (pf_crypto P) S (cm_blockchain m) fork"
  using assms
proof (induction tips arbitrary: best w)
  case (Cons tip tips)
  show ?case
  proof (cases "build_fork_chain (cm_blockchain m) (cm_orphans m) tip")
    case None
    then show ?thesis using Cons by simp
  next
    case (Some f)
    then have f: "fork_of (pf_crypto P) S (cm_blockchain m) f"
      using build_fork_chain_Some [OF Some, of "pf_crypto P" S] Cons.prems(2,3)
      by (simp add: cm_inv_def pool_sound_def)
    obtain n where n: "valid_prefix_length (pf_log2 P) (cm_params m) (cm_blockchain m) f now = Inr n"
      using Cons.prems(1) Some by (auto simp: bindE_def split: sum.splits)
    let ?k = "keep_prefix n f"
    show ?thesis
    proof (cases "n = 0 \<or> \<not> (best = None \<or> w < fork_work ?k)")
      case True
      then have "best_fork P m now tips best w = Inr (Some fork)"
        using Cons.prems(1) Some n by (auto simp: Let_def split: if_splits)
      then show ?thesis using Cons by simp
    next
      case False
      then have "best_fork P m now tips (Some ?k) (fork_work ?k) = Inr (Some fork)"
        using Cons.prems(1) Some n by (auto simp: Let_def)
      then show ?thesis using Cons.IH Cons.prems(2,3) keep_prefix_fork_of [OF f, of n] False by simp
    qed
  qed
qed simp

text \<open>A fork candidate is refused, or parked, or parked and then a best branch is tried.\<close>

lemma handle_fork_cases:
  assumes "handle_fork_candidate P now m block = (m', r)"
  obtains (refused) e where "add_orphan (cm_orphans m) block = Inl e" "m' = m" "r = Inl e"
  | (parked) pool where "add_orphan (cm_orphans m) block = Inr pool" "m' = m\<lparr>cm_orphans := pool\<rparr>"
    "\<forall>out. r = Inr out \<longrightarrow> bo_status out \<in> {Rejected, NeedParent}"
  | (tried) pool best m1 r1 where "add_orphan (cm_orphans m) block = Inr pool"
    "best_fork P (m\<lparr>cm_orphans := pool\<rparr>) now (find_fork_tips (pf_iter P) pool block) None 0 = Inr (Some best)"
    "try_reorg P (m\<lparr>cm_orphans := pool\<rparr>) best = (m1, r1)"
    "m' = (case r1 of Inr (Some hs) \<Rightarrow> m1\<lparr>cm_orphans := foldl remove_orphan (cm_orphans m1) hs\<rparr> | _ \<Rightarrow> m1)"
    "r = (case r1 of Inl e \<Rightarrow> Inl e | Inr None \<Rightarrow> Inr new_outcome
          | Inr (Some hs) \<Rightarrow> Inr (new_outcome\<lparr>bo_status := Reorged, bo_to_broadcast := hs\<rparr>))"
proof (cases "add_orphan (cm_orphans m) block")
  case (Inl e)
  then show ?thesis using assms by (intro refused [of e]) (auto simp: handle_fork_candidate_def)
next
  case (Inr pool)
  let ?m = "m\<lparr>cm_orphans := pool\<rparr>"
  note d = assms [unfolded handle_fork_candidate_def Let_def]
  show ?thesis
  proof (cases "build_fork_chain (cm_blockchain m) pool block")
    case None
    then show ?thesis using d Inr by (intro parked [of pool]) (auto simp: new_outcome_def)
  next
    case (Some f)
    show ?thesis
    proof (cases "\<exists>best. best_fork P ?m now (find_fork_tips (pf_iter P) pool block) None 0 = Inr (Some best)")
      case False
      then show ?thesis using d Inr Some
        by (intro parked [of pool]) (auto simp: new_outcome_def split: sum.splits option.splits)
    next
      case True
      then obtain best where b: "best_fork P ?m now (find_fork_tips (pf_iter P) pool block) None 0 = Inr (Some best)"
        by blast
      obtain m1 r1 where t: "try_reorg P ?m best = (m1, r1)" by fastforce
      show ?thesis using d Inr Some b t
        by (intro tried [of pool best m1 r1]) (auto split: sum.splits option.splits)
    qed
  qed
qed

lemma handle_fork_best:
  assumes "cm_inv P S m" and "iteration_ok (pf_iter P)" and "sound_block (pf_crypto P) S block"
    and "add_orphan (cm_orphans m) block = Inr pool"
    and "best_fork P (m\<lparr>cm_orphans := pool\<rparr>) now (find_fork_tips (pf_iter P) pool block) None 0 = Inr (Some best)"
  shows "cm_inv P S (m\<lparr>cm_orphans := pool\<rparr>)" and "fork_of (pf_crypto P) S (cm_blockchain m) best"
proof -
  let ?m = "m\<lparr>cm_orphans := pool\<rparr>"
  show inv: "cm_inv P S ?m" using assms(1) pool_sound_add [OF _ assms(3,4)] by (simp add: cm_inv_def)
  then have "\<forall>t\<in>set (find_fork_tips (pf_iter P) pool block). sound_block (pf_crypto P) S t"
    using assms(2,3) by (intro find_fork_tips_sound) (simp_all add: cm_inv_def)
  then show "fork_of (pf_crypto P) S (cm_blockchain m) best" using best_fork_of [OF assms(5) inv] by simp
qed

lemma handle_fork_inv:
  assumes "cm_inv P S m" and "iteration_ok (pf_iter P)" and "sound_block (pf_crypto P) S block"
    and "handle_fork_candidate P now m block = (m', r)"
  shows "cm_inv P S m'"
  using assms(4)
proof (cases rule: handle_fork_cases)
  case refused
  then show ?thesis using assms(1) by simp
next
  case (parked pool)
  then show ?thesis using assms(1) pool_sound_add [OF _ assms(3)] by (auto simp: cm_inv_def)
next
  case (tried pool best m1 r1)
  note best = handle_fork_best [OF assms(1-3) tried(1,2)]
  have "cm_inv P S m1" using try_reorg_inv [OF best(1) _ tried(3)] best(2) by simp
  then show ?thesis unfolding tried(4)
    by (simp add: cm_inv_def pool_sound_remove split: sum.splits option.splits)
qed

section \<open>Submitting a block\<close>

text \<open>The rules a block that extends the tip has to keep, apart from its transactions.\<close>

definition tip_rules :: "'db platform \<Rightarrow> u64 \<Rightarrow> 'db ChainManager \<Rightarrow> Block \<Rightarrow> bool" where
  "tip_rules P now m block \<longleftrightarrow>
     meets_target (b_hash block) (b_difficulty block) \<and>
     validate_coinbase_amount (b_transactions block) \<and>
     classify_new_block (pf_crypto P) (cm_blockchain m) block = Valid \<and>
     timestamp_is_valid block (bc_size (cm_blockchain m)) now (cm_params m) (bc_at (cm_blockchain m)) = Inr True \<and>
     next_difficulty (pf_log2 P) (bc_size (cm_blockchain m)) (cm_params m) (bc_at (cm_blockchain m)) =
       Inr (b_difficulty block)"

definition extended :: "'db platform \<Rightarrow> 'db ChainManager \<Rightarrow> Block \<Rightarrow> Ledger \<Rightarrow> 'db ChainManager" where
  "extended P m block L = m\<lparr>cm_ledger := L,
     cm_mempool := foldl (remove_transaction (pf_crypto P)) (cm_mempool m) (b_transactions block),
     cm_blockchain := add_block (cm_blockchain m) block, cm_tip_version := cm_tip_version m + 1\<rparr>"

lemma extended_sel [simp]:
  "cm_ledger (extended P m block L) = L"
  "cm_mempool (extended P m block L) = foldl (remove_transaction (pf_crypto P)) (cm_mempool m) (b_transactions block)"
  "cm_blockchain (extended P m block L) = add_block (cm_blockchain m) block"
  "cm_tip_version (extended P m block L) = cm_tip_version m + 1"
  "cm_storage (extended P m block L) = cm_storage m"
  "cm_orphans (extended P m block L) = cm_orphans m"
  "cm_params (extended P m block L) = cm_params m"
  by (simp_all add: extended_def)

lemma bc_size_add_block [simp]: "bc_size (add_block bc block) = Suc (bc_size bc)"
  by (simp add: bc_size_def add_block_def Let_def)

lemma submit_block_cases:
  assumes "submit_block P now m block = (m', r)"
  obtains (unchanged) "\<not> tip_rules P now m block" "m' = m" "\<forall>out. r = Inr out \<longrightarrow> out = new_outcome"
  | (unapplied) L res where "tip_rules P now m block"
    "apply_block_to_ledger (pf_crypto P) (cm_ledger m) block = (L, res)" "res \<noteq> Inr True"
    "m' = m\<lparr>cm_ledger := L\<rparr>" "r = (case res of Inl e \<Rightarrow> Inl e | Inr _ \<Rightarrow> Inr new_outcome)"
  | (extends) L where "tip_rules P now m block"
    "apply_block_to_ledger (pf_crypto P) (cm_ledger m) block = (L, Inr True)"
    "cm_storage m = None" "m' = extended P m block L"
    "r = Inr (new_outcome\<lparr>bo_status := Accepted, bo_to_broadcast := [b_hash block]\<rparr>)"
  | (saves) L db db' res where "tip_rules P now m block"
    "apply_block_to_ledger (pf_crypto P) (cm_ledger m) block = (L, Inr True)"
    "cm_storage m = Some db"
    "save_block (pf_sqlite P) db block (bc_size (cm_blockchain m)) = (db', res)"
    "m' = (extended P m block L)\<lparr>cm_storage := Some db'\<rparr>"
    "r = (case res of Inl e \<Rightarrow> Inl e
          | Inr _ \<Rightarrow> Inr (new_outcome\<lparr>bo_status := Accepted, bo_to_broadcast := [b_hash block]\<rparr>))"
  | (fork) "meets_target (b_hash block) (b_difficulty block)"
    "validate_coinbase_amount (b_transactions block)"
    "classify_new_block (pf_crypto P) (cm_blockchain m) block = ForkCandidate"
    "handle_fork_candidate P now m block = (m', r)"
proof -
  note d = assms [unfolded submit_block_def Let_def]
  let ?f = "meets_target (b_hash block) (b_difficulty block) \<and> validate_coinbase_amount (b_transactions block) \<and>
    classify_new_block (pf_crypto P) (cm_blockchain m) block = ForkCandidate"
  show ?thesis
  proof (cases "tip_rules P now m block")
    case False
    show ?thesis
    proof (cases ?f)
      case True
      then show ?thesis using d by (intro fork) simp_all
    next
      case nf: False
      show ?thesis using d False nf
        by (intro unchanged) (auto simp: tip_rules_def split: if_splits BlockValidation.splits sum.splits)
    qed
  next
    case True
    obtain L res where a: "apply_block_to_ledger (pf_crypto P) (cm_ledger m) block = (L, res)" by fastforce
    show ?thesis
    proof (cases "res = Inr True")
      case False
      then show ?thesis using d True a by (intro unapplied [of L res]) (auto simp: tip_rules_def split: sum.splits)
    next
      case app: True
      show ?thesis
      proof (cases "cm_storage m")
        case None
        then show ?thesis using d True a app by (intro extends [of L]) (auto simp: tip_rules_def extended_def)
      next
        case (Some db)
        obtain db' sr where "save_block (pf_sqlite P) db block (bc_size (cm_blockchain m)) = (db', sr)" by fastforce
        then show ?thesis using d True a app Some
          by (intro saves [of L db db' sr]) (auto simp: tip_rules_def extended_def split: sum.splits)
      qed
    qed
  qed
qed

lemma classify_sound:
  assumes "classify_new_block C bc block \<noteq> Invalid"
  shows "b_hash block = block_compute_hash C block"
  using assms by (auto simp: classify_new_block_def split: if_splits)

lemma classify_Valid_prev: "classify_new_block C bc block = Valid \<Longrightarrow> b_prev_hash block = b_hash (latest bc)"
  by (auto simp: classify_new_block_def split: if_splits)

lemma cm_inv_collision_free: "cm_inv P S m \<Longrightarrow> collision_free (pf_crypto P) S"
  unfolding cm_inv_def chain_inv_def by (auto simp: sound_block_def)

lemma extended_inv:
  assumes "cm_inv P S m" and "sound_block (pf_crypto P) S block"
    and "b_prev_hash block = b_hash (latest (cm_blockchain m))" and "ledger_inv L"
  shows "cm_inv P S (extended P m block L)"
  using assms add_block_inv [OF _ assms(2,3)] by (simp add: cm_inv_def remove_transactions_inv)

lemma submit_block_sound:
  assumes "cm_inv P S m" and "block_serialize block \<in> S" and "length (b_prev_hash block) = 32"
    and "classify_new_block (pf_crypto P) bc block \<noteq> Invalid"
  shows "sound_block (pf_crypto P) S block"
  using classify_sound [OF assms(4)] cm_inv_collision_free [OF assms(1)] assms(2,3) by (simp add: sound_block_def)

lemma submit_block_inv:
  assumes "cm_inv P S m" and "iteration_ok (pf_iter P)"
    and "block_serialize block \<in> S" and "length (b_prev_hash block) = 32"
    and "submit_block P now m block = (m', r)"
  shows "cm_inv P S m'"
proof -
  let ?C = "pf_crypto P"
  have sound: "sound_block ?C S block" if "classify_new_block ?C (cm_blockchain m) block \<noteq> Invalid"
    using assms(1,3,4) that by (rule submit_block_sound)
  have L: "ledger_inv L" if "apply_block_to_ledger ?C (cm_ledger m) block = (L, res)" for L res
    using apply_block_inv [of "cm_ledger m" ?C block] assms(1) that by (simp add: cm_inv_def)
  have ext: "cm_inv P S (extended P m block L)"
    if "tip_rules P now m block" "apply_block_to_ledger ?C (cm_ledger m) block = (L, Inr True)" for L
    using that sound classify_Valid_prev L
    by (intro extended_inv [OF assms(1)]) (auto simp: tip_rules_def)
  show ?thesis
    using assms(5)
  proof (cases rule: submit_block_cases)
    case unchanged
    then show ?thesis using assms(1) by simp
  next
    case unapplied
    then show ?thesis using assms(1) L by (auto simp: cm_inv_def)
  next
    case extends
    then show ?thesis using ext by simp
  next
    case saves
    then show ?thesis using ext by simp
  next
    case fork
    then show ?thesis using handle_fork_inv [OF assms(1,2) sound] by simp
  qed
qed

section \<open>The other operations\<close>

lemma submit_transaction_inv:
  assumes "cm_inv P S m" and "submit_transaction P m tx = (m', r)"
  shows "cm_inv P S m'"
  using assms add_transaction_inv [of "pf_crypto P" "cm_mempool m" tx]
  by (auto simp: cm_inv_def submit_transaction_def split: prod.splits)

lemma set_balance_inv: "cm_inv P S m \<Longrightarrow> cm_inv P S (cm_set_balance m a v)"
  by (simp add: cm_inv_def cm_set_balance_def)

lemma restore_block_inv:
  assumes "cm_inv P S m" and "sound_block (pf_crypto P) S block"
    and "b_prev_hash block = b_hash (latest (cm_blockchain m))"
    and "restore_block P m block = (m', r)"
  shows "cm_inv P S m'"
proof -
  obtain L res where a: "apply_block_to_ledger (pf_crypto P) (cm_ledger m) block = (L, res)" by fastforce
  have L: "ledger_inv L" using apply_block_inv [of "cm_ledger m" "pf_crypto P" block] assms(1) a
    by (simp add: cm_inv_def)
  have "chain_inv (pf_crypto P) S (add_block (cm_blockchain m) block)"
    using assms(1-3) by (intro add_block_inv) (simp_all add: cm_inv_def)
  with L assms(1,4) a show ?thesis
    by (auto simp: restore_block_def cm_inv_def split: sum.splits if_splits)
qed

text \<open>A branch offered by a peer is skipped over, refused, or tried with the prefix that keeps the rules.\<close>

lemma linked_of_nth:
  assumes "\<And>i. i < length bs \<Longrightarrow> prevf (bs ! i) = (if i = 0 then h else hashf (bs ! (i - 1)))"
  shows "linked hashf prevf h bs"
  using assms
proof (induction bs arbitrary: h)
  case (Cons b bs)
  have "prevf (bs ! i) = (if i = 0 then hashf b else hashf (bs ! (i - 1)))" if "i < length bs" for i
    using Cons.prems [of "Suc i"] that by (cases i) simp_all
  then have "linked hashf prevf (hashf b) bs" by (rule Cons.IH)
  moreover have "prevf b = h" using Cons.prems [of 0] by simp
  ultimately show ?case by simp
qed simp

lemma adopt_branch_cases:
  assumes "adopt_branch P now m blocks = (m', r)"
  obtains (refused) "m' = m" "r \<noteq> Inr True"
  | (tried) start height ancestor n r1 where "start < length blocks"
    "find_height (cm_blockchain m) (b_prev_hash (blocks ! start)) = Some height"
    "bc_at (cm_blockchain m) height = Inr ancestor"
    "\<forall>i. start < i \<and> i < length blocks \<longrightarrow> b_prev_hash (blocks ! i) = b_hash (blocks ! (i - 1))"
    "valid_prefix_length (pf_log2 P) (cm_params m) (cm_blockchain m)
       \<lparr>fc_blocks = drop start blocks, fc_common_ancestor = ancestor\<rparr> now = Inr n" "0 < n"
    "try_reorg P m (keep_prefix n \<lparr>fc_blocks = drop start blocks, fc_common_ancestor = ancestor\<rparr>) = (m', r1)"
    "r = (case r1 of Inl e \<Rightarrow> Inl e | Inr hs \<Rightarrow> Inr (hs \<noteq> None))"
proof -
  let ?bc = "cm_blockchain m"
  let ?start = "length (takeWhile (\<lambda>block. bc_has_block ?bc (b_hash block)) blocks)"
  let ?fork = "\<lambda>a. \<lparr>fc_blocks = drop ?start blocks, fc_common_ancestor = a\<rparr>"
  note d = assms [unfolded adopt_branch_def Let_def]
  have le: "?start \<le> length blocks" by (rule length_takeWhile_le)
  show ?thesis
  proof (cases "\<exists>height ancestor n. blocks \<noteq> [] \<and> ?start \<noteq> length blocks \<and>
      find_height ?bc (b_prev_hash (blocks ! ?start)) = Some height \<and>
      \<not> list_ex (\<lambda>i. b_prev_hash (blocks ! i) \<noteq> b_hash (blocks ! (i - 1))) [?start + 1..<length blocks] \<and>
      bc_at ?bc height = Inr ancestor \<and>
      valid_prefix_length (pf_log2 P) (cm_params m) ?bc (?fork ancestor) now = Inr n \<and> 0 < n")
    case False
    then show ?thesis using d
      by (intro refused) (auto split: if_splits option.splits sum.splits)
  next
    case True
    then obtain height ancestor n where t: "blocks \<noteq> []" "?start \<noteq> length blocks"
      "find_height ?bc (b_prev_hash (blocks ! ?start)) = Some height"
      "\<not> list_ex (\<lambda>i. b_prev_hash (blocks ! i) \<noteq> b_hash (blocks ! (i - 1))) [?start + 1..<length blocks]"
      "bc_at ?bc height = Inr ancestor"
      "valid_prefix_length (pf_log2 P) (cm_params m) ?bc (?fork ancestor) now = Inr n" "0 < n"
      by blast
    obtain m1 r1 where r1: "try_reorg P m (keep_prefix n (?fork ancestor)) = (m1, r1)" by fastforce
    have "m' = m1 \<and> r = (case r1 of Inl e \<Rightarrow> Inl e | Inr hs \<Rightarrow> Inr (hs \<noteq> None))"
      using d t r1 by (simp split: sum.splits)
    moreover have "\<forall>i. ?start < i \<and> i < length blocks \<longrightarrow> b_prev_hash (blocks ! i) = b_hash (blocks ! (i - 1))"
      using t(4) by (auto simp: list_ex_iff)
    ultimately show ?thesis using le t r1 by (intro tried [of ?start height ancestor n r1]) simp_all
  qed
qed

lemma adopt_branch_fork:
  assumes "chain_inv C S bc" and "\<forall>b\<in>set blocks. sound_block C S b" and "start < length blocks"
    and "find_height bc (b_prev_hash (blocks ! start)) = Some height" and "bc_at bc height = Inr ancestor"
    and "\<forall>i. start < i \<and> i < length blocks \<longrightarrow> b_prev_hash (blocks ! i) = b_hash (blocks ! (i - 1))"
  shows "fork_of C S bc \<lparr>fc_blocks = drop start blocks, fc_common_ancestor = ancestor\<rparr>"
proof -
  have a: "height < length (bc_blocks bc)" "ancestor = bc_blocks bc ! height"
    "b_hash ancestor = b_prev_hash (blocks ! start)"
    using assms(4,5) find_height_Some [OF assms(1), of "b_prev_hash (blocks ! start)" height]
    by (auto simp: bc_at_def vec_at_def)
  have "linked b_hash b_prev_hash (b_hash ancestor) (drop start blocks)"
  proof (rule linked_of_nth)
    fix i assume "i < length (drop start blocks)"
    then show "b_prev_hash (drop start blocks ! i) =
        (if i = 0 then b_hash ancestor else b_hash (drop start blocks ! (i - 1)))"
      using assms(6) [rule_format, of "start + i"] a(3) by (cases i) simp_all
  qed
  then show ?thesis using a assms(2,3) by (auto simp: fork_of_def dest: in_set_dropD)
qed

lemma adopt_branch_tried_fork:
  assumes "cm_inv P S m" and "\<forall>b\<in>set blocks. sound_block (pf_crypto P) S b" and "start < length blocks"
    and "find_height (cm_blockchain m) (b_prev_hash (blocks ! start)) = Some height"
    and "bc_at (cm_blockchain m) height = Inr ancestor"
    and "\<forall>i. start < i \<and> i < length blocks \<longrightarrow> b_prev_hash (blocks ! i) = b_hash (blocks ! (i - 1))"
    and "0 < n"
  shows "fork_of (pf_crypto P) S (cm_blockchain m)
    (keep_prefix n \<lparr>fc_blocks = drop start blocks, fc_common_ancestor = ancestor\<rparr>)"
  by (rule keep_prefix_fork_of [OF adopt_branch_fork [OF _ assms(2-6)] assms(7)])
    (use assms(1) in \<open>simp add: cm_inv_def\<close>)

lemma adopt_branch_inv:
  assumes "cm_inv P S m" and "\<forall>b\<in>set blocks. sound_block (pf_crypto P) S b"
    and "adopt_branch P now m blocks = (m', r)"
  shows "cm_inv P S m'"
  using assms(3)
proof (cases rule: adopt_branch_cases)
  case refused
  then show ?thesis using assms(1) by simp
next
  case (tried start height ancestor n r1)
  show ?thesis
    using try_reorg_inv [OF assms(1) adopt_branch_tried_fork [OF assms(1,2) tried(1-4,6)] tried(7)] by simp
qed

section \<open>Runs of operations\<close>

text \<open>
  One call of an operation that changes the state, at any time, with any outcome. Block arguments are
  what the deserializer hands over: a 32-byte parent hash and bytes of the universe \<open>S\<close>; those of \<open>adopt_branch\<close>
  carry the hash of their contents, which the deserializer computes. \<open>restore_block\<close> checks nothing but that the
  transactions apply, so the relation takes a predicate \<open>R\<close> on the blocks it is called with: \<open>any_block\<close> for
  what holds whatever the store returns, \<open>next_block\<close> for what needs the store to return the chain in order.
\<close>

definition any_block :: "'db ChainManager \<Rightarrow> Block \<Rightarrow> bool" where
  "any_block m block \<longleftrightarrow> True"

definition next_block :: "openssl \<Rightarrow> bytes set \<Rightarrow> 'db ChainManager \<Rightarrow> Block \<Rightarrow> bool" where
  "next_block C S m block \<longleftrightarrow> sound_block C S block \<and> b_prev_hash block = b_hash (latest (cm_blockchain m))"

inductive cm_step ::
  "'db platform \<Rightarrow> bytes set \<Rightarrow> ('db ChainManager \<Rightarrow> Block \<Rightarrow> bool) \<Rightarrow> 'db ChainManager \<Rightarrow> 'db ChainManager \<Rightarrow> bool"
  for P :: "'db platform" and S :: "bytes set" and R :: "'db ChainManager \<Rightarrow> Block \<Rightarrow> bool" where
  submit_block: "submit_block P now m block = (m', r) \<Longrightarrow> block_serialize block \<in> S \<Longrightarrow>
    length (b_prev_hash block) = 32 \<Longrightarrow> cm_step P S R m m'"
| submit_transaction: "submit_transaction P m tx = (m', r) \<Longrightarrow> cm_step P S R m m'"
| set_balance: "cm_step P S R m (cm_set_balance m address amount)"
| restore_block: "restore_block P m block = (m', r) \<Longrightarrow> R m block \<Longrightarrow> cm_step P S R m m'"
| adopt_branch: "adopt_branch P now m blocks = (m', r) \<Longrightarrow>
    \<forall>b\<in>set blocks. sound_block (pf_crypto P) S b \<Longrightarrow> cm_step P S R m m'"

abbreviation cm_reach ::
  "'db platform \<Rightarrow> bytes set \<Rightarrow> ('db ChainManager \<Rightarrow> Block \<Rightarrow> bool) \<Rightarrow> 'db ChainManager \<Rightarrow> 'db ChainManager \<Rightarrow> bool" where
  "cm_reach P S R \<equiv> rtranclp (cm_step P S R)"

lemma cm_step_inv:
  assumes "iteration_ok (pf_iter P)" and "cm_step P S (next_block (pf_crypto P) S) m m'" and "cm_inv P S m"
  shows "cm_inv P S m'"
  using assms(2,3)
proof cases
  case submit_block
  then show ?thesis using submit_block_inv [OF assms(3,1)] by blast
next
  case submit_transaction
  then show ?thesis using submit_transaction_inv [OF assms(3)] by blast
next
  case set_balance
  then show ?thesis using assms(3) by (simp add: set_balance_inv)
next
  case restore_block
  then show ?thesis using restore_block_inv [OF assms(3)] by (auto simp: next_block_def)
next
  case adopt_branch
  then show ?thesis using adopt_branch_inv [OF assms(3)] by blast
qed

lemma cm_reach_inv:
  assumes "iteration_ok (pf_iter P)" and "cm_reach P S (next_block (pf_crypto P) S) m m'" and "cm_inv P S m"
  shows "cm_inv P S m'"
  using assms(2,3) by (induction rule: rtranclp_induct) (auto intro: cm_step_inv [OF assms(1)])

lemma pool_sound_new: "pool_sound C S (mk_OrphanPool kDefaultMaxOrphans)"
  by (simp add: pool_sound_def) (simp add: mk_OrphanPool_def)

lemma new_ChainManager_inv:
  assumes "collision_free (pf_crypto P) S" and "block_serialize (genesis_block (pf_crypto P)) \<in> S"
    and "new_ChainManager P n params storage = Inr m"
  shows "cm_inv P S m"
  using assms(3) new_chain_inv [OF assms(1,2)] pool_sound_new
  by (auto simp: new_ChainManager_def Let_def cm_inv_def split: option.splits prod.splits sum.splits if_splits)

lemma chain_inv_valid:
  assumes "chain_inv C S bc"
  shows "bc_is_valid C bc"
proof -
  let ?B = "bc_blocks bc"
  have "block_compute_hash C (?B ! h) = b_hash (?B ! h)" if "h < length ?B" for h
    using chain_inv_sound [OF assms nth_mem [OF that]] by (simp add: sound_block_def)
  moreover have "b_prev_hash (?B ! h) = b_hash (?B ! (h - 1))" if "1 \<le> h" "h < length ?B" for h
    using linked_nth [of b_hash b_prev_hash zero_hash ?B h] assms that
    by (simp add: chain_inv_def split: nat.splits)
  ultimately show ?thesis by (simp add: bc_is_valid_def list_all_iff Let_def)
qed

end
