(* ===== verification/FC_Node.thy ===== *)
theory FC_Node
  imports FC_Tcp FC_Text FC_ChainInv
begin

text \<open>
  src/include/network/Node.hpp and src/src/network/Node.cpp: the node that talks to its peers. One
  definition per message handler and per turn of each thread's loop. The threads share the node; each
  definition is what one thread does between two waits, and \<open>node_step\<close> lets the threads take turns in
  any order. A peer is held by its index in \<open>nd_store\<close>, which stands for the objects the shared pointers
  point to. The chain manager the node refers to is part of its state, as is the network with its clock.
  A handler returns the new state and whether it threw; what may not return at all is an option.
  Messages to the logger are not part of the model.
\<close>

section \<open>State\<close>

record ('db, 'net) world =
  w_platform :: "'db platform"
  w_os :: "'net os"
  w_tcp :: "'net tcp"
  w_unix_time :: "'net \<Rightarrow> u64"
  w_can_reserve :: "nat \<Rightarrow> bool"

record PeerEntry =
  pe_peer :: nat
  pe_is_outbound :: bool

record Sync =
  sy_last_sync :: time
  sy_sync_cursor :: nat

record SyncState =
  ss_active :: bool
  ss_peer :: "nat option"
  ss_buffer :: "Block list"
  ss_last_block :: time

definition new_SyncState :: SyncState where
  "new_SyncState = \<lparr>ss_active = False, ss_peer = None, ss_buffer = [], ss_last_block = 0\<rparr>"

definition PING_INTERVAL :: int where "PING_INTERVAL = 5"
definition PING_TIMEOUT :: int where "PING_TIMEOUT = 40"
definition SYNC_INTERVAL :: time where "SYNC_INTERVAL = seconds 8"
definition SYNC_IDLE_TIMEOUT :: time where "SYNC_IDLE_TIMEOUT = milliseconds 300"
definition TARGET_OUTBOUND_PEERS :: nat where "TARGET_OUTBOUND_PEERS = 8"
definition GOSSIP_INTERVAL :: time where "GOSSIP_INTERVAL = seconds 30"
definition MAX_BLOCKS_PER_RESPONSE :: nat where "MAX_BLOCKS_PER_RESPONSE = 2000"

record ('db, 'net) Node =
  nd_listen_port :: u16
  nd_info :: VersionInfo
  nd_listener :: int
  nd_chain :: "'db ChainManager"
  nd_peers :: "PeerEntry list"
  nd_store :: "Peer list"
  nd_sync_state :: SyncState
  nd_running :: bool
  nd_stopping :: bool
  nd_address_book :: AddressBook
  nd_sync :: Sync
  nd_net :: 'net

definition new_Node :: "time \<Rightarrow> 'net \<Rightarrow> u16 \<Rightarrow> VersionInfo \<Rightarrow> 'db ChainManager \<Rightarrow> ('db, 'net) Node" where
  "new_Node now net listen_port info chain =
     \<lparr>nd_listen_port = listen_port, nd_info = info, nd_listener = - 1, nd_chain = chain, nd_peers = [],
      nd_store = [], nd_sync_state = new_SyncState, nd_running = False, nd_stopping = False,
      nd_address_book = [], nd_sync = \<lparr>sy_last_sync = now, sy_sync_cursor = 0\<rparr>, nd_net = net\<rparr>"

abbreviation node_now :: "('db, 'net) world \<Rightarrow> ('db, 'net) Node \<Rightarrow> time" where
  "node_now W n \<equiv> tcp_now (w_tcp W) (nd_net n)"

abbreviation peer_of :: "('db, 'net) Node \<Rightarrow> nat \<Rightarrow> Peer" where
  "peer_of n p \<equiv> nd_store n ! p"

abbreviation entry_peer :: "('db, 'net) Node \<Rightarrow> PeerEntry \<Rightarrow> Peer" where
  "entry_peer n entry \<equiv> peer_of n (pe_peer entry)"

abbreviation peer_address :: "Peer \<Rightarrow> PeerAddress" where
  "peer_address peer \<equiv> \<lparr>pa_host = pr_host peer, pa_port = vi_listen_port (pr_remote_version peer)\<rparr>"

definition mark_dead :: "('db, 'net) Node \<Rightarrow> nat \<Rightarrow> ('db, 'net) Node" where
  "mark_dead n p = n\<lparr>nd_store := (nd_store n)[p := (peer_of n p)\<lparr>pr_alive := False\<rparr>]\<rparr>"

definition close_peer :: "('db, 'net) world \<Rightarrow> ('db, 'net) Node \<Rightarrow> nat \<Rightarrow> ('db, 'net) Node" where
  "close_peer W n p =
     (case close_socket (w_tcp W) (nd_net n) (pr_socket (peer_of n p)) of
        (net, fd) \<Rightarrow> n\<lparr>nd_net := net, nd_store := (nd_store n)[p := (peer_of n p)\<lparr>pr_socket := fd\<rparr>]\<rparr>)"

section \<open>Sending\<close>

definition send_msg ::
  "('db, 'net) world \<Rightarrow> ('db, 'net) Node \<Rightarrow> nat \<Rightarrow> MessageType \<Rightarrow> bytes \<Rightarrow> ('db, 'net) Node \<times> bool" where
  "send_msg W n p type payload =
     (case send_message (w_os W) (nd_net n) (pr_socket (peer_of n p)) \<lparr>msg_type = type, msg_payload = payload\<rparr> of
        (net, ok) \<Rightarrow> (n\<lparr>nd_net := net\<rparr>, ok))"

text \<open>The same message to several peers, results ignored; several messages to one peer.\<close>

definition send_to_all ::
  "('db, 'net) world \<Rightarrow> ('db, 'net) Node \<Rightarrow> nat list \<Rightarrow> MessageType \<Rightarrow> bytes \<Rightarrow> ('db, 'net) Node" where
  "send_to_all W n ps type payload = foldl (\<lambda>n p. fst (send_msg W n p type payload)) n ps"

definition send_each ::
  "('db, 'net) world \<Rightarrow> ('db, 'net) Node \<Rightarrow> nat \<Rightarrow> (MessageType \<times> bytes) list \<Rightarrow> ('db, 'net) Node" where
  "send_each W n p msgs = foldl (\<lambda>n (type, payload). fst (send_msg W n p type payload)) n msgs"

definition broadcast_inv ::
  "('db, 'net) world \<Rightarrow> ('db, 'net) Node \<Rightarrow> nat option \<Rightarrow> InventoryItemType \<Rightarrow> HashBytes \<Rightarrow> ('db, 'net) Node" where
  "broadcast_inv W n exclude type hash =
     (let payload = serialize_inventory [\<lparr>ii_type = type, ii_hash = hash\<rparr>];
          targets = filter (\<lambda>entry. \<not> (Some (pe_peer entry) = exclude \<or> \<not> pr_alive (entry_peer n entry))) (nd_peers n)
      in send_to_all W n (map pe_peer targets) INV payload)"

definition send_peer_list :: "('db, 'net) world \<Rightarrow> ('db, 'net) Node \<Rightarrow> nat \<Rightarrow> PeerAddress \<Rightarrow> ('db, 'net) Node" where
  "send_peer_list W n p peer_addr =
     (let peer_is_local = \<not> is_routable (tcp_pton (w_tcp W)) peer_addr;
          gossip = filter (\<lambda>a. \<not> (pa_host a = pa_host peer_addr \<and> pa_port a = pa_port peer_addr))
            (reachable (tcp_pton (w_tcp W)) peer_is_local (nd_address_book n))
      in if gossip = [] then n else fst (send_msg W n p PEERS (serialize_peer_list gossip)))"

definition gossip_peers :: "('db, 'net) world \<Rightarrow> ('db, 'net) Node \<Rightarrow> ('db, 'net) Node" where
  "gossip_peers W n =
     (let targets = map pe_peer (filter (\<lambda>entry. pr_alive (entry_peer n entry)) (nd_peers n))
      in foldl (\<lambda>n p. send_peer_list W n p (peer_address (peer_of n p))) n targets)"

section \<open>Message handlers\<close>

definition handle_inv :: "('db, 'net) world \<Rightarrow> ('db, 'net) Node \<Rightarrow> nat \<Rightarrow> bytes \<Rightarrow> ('db, 'net) Node" where
  "handle_inv W n p payload =
     (case deserialize_inventory payload of
        None \<Rightarrow> n
      | Some items \<Rightarrow>
          let have_it = (\<lambda>item. case ii_type item of
                Inv_block \<Rightarrow> cm_has_block (nd_chain n) (ii_hash item)
              | Inv_transaction \<Rightarrow> cm_has_transaction (w_platform W) (nd_chain n) (ii_hash item));
              missing = filter (\<lambda>item. \<not> have_it item) items
          in if missing \<noteq> [] then fst (send_msg W n p GETDATA (serialize_inventory missing)) else n)"

definition getdata_answer :: "'db platform \<Rightarrow> 'db ChainManager \<Rightarrow> InventoryItem \<Rightarrow> (MessageType \<times> bytes) option" where
  "getdata_answer P m item =
     (case ii_type item of
        Inv_block \<Rightarrow> map_option (\<lambda>block. (BLOCK, block_serialize block)) (find_block m m (ii_hash item))
      | Inv_transaction \<Rightarrow> map_option (\<lambda>tx. (TX, tx_serialize tx)) (find_transaction P m (ii_hash item)))"

definition handle_getdata :: "('db, 'net) world \<Rightarrow> ('db, 'net) Node \<Rightarrow> nat \<Rightarrow> bytes \<Rightarrow> ('db, 'net) Node" where
  "handle_getdata W n p payload =
     (case deserialize_inventory payload of
        None \<Rightarrow> n
      | Some items \<Rightarrow> send_each W n p (List.map_filter (getdata_answer (w_platform W) (nd_chain n)) items))"

definition buffer_block :: "time \<Rightarrow> SyncState \<Rightarrow> Block \<Rightarrow> SyncState" where
  "buffer_block now ss block =
     (let buffer = ss_buffer ss @ [block] in
      ss\<lparr>ss_buffer := buffer,
         ss_last_block := (if length buffer \<ge> MAX_BLOCKS_PER_RESPONSE then now - SYNC_IDLE_TIMEOUT else now)\<rparr>)"

definition handle_block ::
  "('db, 'net) world \<Rightarrow> ('db, 'net) Node \<Rightarrow> nat \<Rightarrow> bytes \<Rightarrow> ('db, 'net) Node \<times> unit result" where
  "handle_block W n p payload =
     (let C = pf_crypto (w_platform W); ss = nd_sync_state n in
      if ss_active ss \<and> ss_peer ss = Some p
      then (case block_deserialize C payload of
              None \<Rightarrow> (n, Inr ())
            | Some block \<Rightarrow> (n\<lparr>nd_sync_state := buffer_block (node_now W n) ss block\<rparr>, Inr ()))
      else case block_deserialize C payload of
        None \<Rightarrow> (n, Inr ())
      | Some block \<Rightarrow>
          (case submit_block (w_platform W) (w_unix_time W (nd_net n)) (nd_chain n) block of
             (m, Inl e) \<Rightarrow> (n\<lparr>nd_chain := m\<rparr>, Inl e)
           | (m, Inr outcome) \<Rightarrow>
               let n = n\<lparr>nd_chain := m\<rparr> in
               (case bo_status outcome of
                  Accepted \<Rightarrow> foldl (\<lambda>n h. broadcast_inv W n (Some p) Inv_block h) n (bo_to_broadcast outcome)
                | Reorged \<Rightarrow> foldl (\<lambda>n h. broadcast_inv W n (Some p) Inv_block h) n (bo_to_broadcast outcome)
                | NeedParent \<Rightarrow>
                    (case bo_missing_parent outcome of
                       None \<Rightarrow> n
                     | Some parent \<Rightarrow>
                         fst (send_msg W n p GETDATA (serialize_inventory [\<lparr>ii_type = Inv_block, ii_hash = parent\<rparr>])))
                | Rejected \<Rightarrow> n, Inr ())))"

definition handle_tx ::
  "('db, 'net) world \<Rightarrow> ('db, 'net) Node \<Rightarrow> nat \<Rightarrow> bytes \<Rightarrow> ('db, 'net) Node \<times> unit result" where
  "handle_tx W n p payload =
     (case tx_deserialize payload of
        None \<Rightarrow> (n, Inr ())
      | Some tx \<Rightarrow>
          (case submit_transaction (w_platform W) (nd_chain n) tx of
             (m, Inl e) \<Rightarrow> (n\<lparr>nd_chain := m\<rparr>, Inl e)
           | (m, Inr False) \<Rightarrow> (n\<lparr>nd_chain := m\<rparr>, Inr ())
           | (m, Inr True) \<Rightarrow>
               (broadcast_inv W (n\<lparr>nd_chain := m\<rparr>) (Some p) Inv_transaction (tx_hash (pf_crypto (w_platform W)) tx), Inr ())))"

definition handle_getblocks ::
  "('db, 'net) world \<Rightarrow> ('db, 'net) Node \<Rightarrow> nat \<Rightarrow> bytes \<Rightarrow> ('db, 'net) Node \<times> unit result" where
  "handle_getblocks W n p payload =
     (case deserialize_getblocks payload of
        None \<Rightarrow> (n, Inr ())
      | Some locator \<Rightarrow>
          (case blocks_after_locator (nd_chain n) locator MAX_BLOCKS_PER_RESPONSE of
             Inl e \<Rightarrow> (n, Inl e)
           | Inr blocks \<Rightarrow> (send_each W n p (map (\<lambda>block. (BLOCK, block_serialize block)) blocks), Inr ())))"

definition handle_ping :: "('db, 'net) world \<Rightarrow> ('db, 'net) Node \<Rightarrow> nat \<Rightarrow> ('db, 'net) Node" where
  "handle_ping W n p = fst (send_msg W n p PONG [])"

definition handle_peers ::
  "('db, 'net) world \<Rightarrow> ('db, 'net) Node \<Rightarrow> nat \<Rightarrow> bytes \<Rightarrow> ('db, 'net) Node \<times> unit result" where
  "handle_peers W n p payload =
     (case deserialize_peer_list (w_can_reserve W) payload of
        Inl e \<Rightarrow> (n, Inl e)
      | Inr None \<Rightarrow> (n, Inr ())
      | Inr (Some list) \<Rightarrow>
          let pton = tcp_pton (w_tcp W);
              source_is_local = \<not> is_routable pton (peer_address (peer_of n p))
          in (n\<lparr>nd_address_book :=
                  foldl (\<lambda>book a. fst (book_add pton (node_now W n) book a source_is_local)) (nd_address_book n) list\<rparr>,
              Inr ()))"

text \<open>The switch of \<open>peer_loop\<close>, and one turn of that loop.\<close>

definition handle_message ::
  "('db, 'net) world \<Rightarrow> ('db, 'net) Node \<Rightarrow> nat \<Rightarrow> Message \<Rightarrow> ('db, 'net) Node \<times> unit result" where
  "handle_message W n p msg =
     (case msg_type msg of
        INV \<Rightarrow> (handle_inv W n p (msg_payload msg), Inr ())
      | GETDATA \<Rightarrow> (handle_getdata W n p (msg_payload msg), Inr ())
      | BLOCK \<Rightarrow> handle_block W n p (msg_payload msg)
      | TX \<Rightarrow> handle_tx W n p (msg_payload msg)
      | GETBLOCKS \<Rightarrow> handle_getblocks W n p (msg_payload msg)
      | PING \<Rightarrow> (handle_ping W n p, Inr ())
      | PONG \<Rightarrow> (n, Inr ())
      | PEERS \<Rightarrow> handle_peers W n p (msg_payload msg)
      | _ \<Rightarrow> (n, Inr ()))"

definition peer_loop_turn ::
  "('db, 'net) world \<Rightarrow> ('db, 'net) Node \<Rightarrow> nat \<Rightarrow> (('db, 'net) Node \<times> unit result) option" where
  "peer_loop_turn W n p =
     (if \<not> (nd_running n \<and> pr_alive (peer_of n p)) then Some (n, Inr ())
      else do {
        (net, msg) \<leftarrow> receive_message (w_os W) (nd_net n) (pr_socket (peer_of n p));
        let n = n\<lparr>nd_net := net\<rparr>;
        case msg of
          None \<Rightarrow> Some (mark_dead n p, Inr ())
        | Some msg \<Rightarrow>
            let n = n\<lparr>nd_store := (nd_store n)[p := touch (node_now W n) (peer_of n p)]\<rparr>
            in Some (handle_message W n p msg)
      })"

section \<open>Catching up\<close>

definition start_sync_state :: "('db, 'net) world \<Rightarrow> ('db, 'net) Node \<Rightarrow> nat \<Rightarrow> ('db, 'net) Node \<times> bool" where
  "start_sync_state W n p =
     (if ss_active (nd_sync_state n) then (n, False)
      else (n\<lparr>nd_sync_state := \<lparr>ss_active = True, ss_peer = Some p, ss_buffer = [], ss_last_block = node_now W n\<rparr>\<rparr>, True))"

definition reset_sync_state :: "('db, 'net) Node \<Rightarrow> ('db, 'net) Node" where
  "reset_sync_state n = n\<lparr>nd_sync_state := new_SyncState\<rparr>"

text \<open>The block request to a peer once a catch-up with it has started.\<close>

definition ask_blocks ::
  "('db, 'net) world \<Rightarrow> ('db, 'net) Node \<Rightarrow> nat \<Rightarrow> ('db, 'net) Node \<times> unit result" where
  "ask_blocks W n p =
     (case start_sync_state W n p of
        (n, False) \<Rightarrow> (n, Inr ())
      | (n, True) \<Rightarrow>
          (case cm_locator (nd_chain n) of
             Inl e \<Rightarrow> (n, Inl e)
           | Inr locator \<Rightarrow>
               (case send_msg W n p GETBLOCKS (serialize_getblocks locator) of
                  (n, ok) \<Rightarrow> (if ok then n else reset_sync_state n, Inr ()))))"

definition request_sync :: "('db, 'net) world \<Rightarrow> ('db, 'net) Node \<Rightarrow> ('db, 'net) Node \<times> unit result" where
  "request_sync W n =
     (let my_height = (word_of_nat (chain_height (nd_chain n)) :: u64);
          targets = filter (\<lambda>entry. pr_alive (entry_peer n entry) \<and>
            vi_chain_height (pr_remote_version (entry_peer n entry)) > my_height) (nd_peers n)
      in if targets = [] then (n, Inr ())
         else
           let cursor = sy_sync_cursor (nd_sync n);
               target = pe_peer (targets ! (cursor mod length targets))
           in ask_blocks W (n\<lparr>nd_sync := (nd_sync n)\<lparr>sy_sync_cursor := (cursor + 1) mod 2 ^ 64\<rparr>\<rparr>) target)"

definition finish_sync_if_due :: "('db, 'net) world \<Rightarrow> ('db, 'net) Node \<Rightarrow> ('db, 'net) Node \<times> unit result" where
  "finish_sync_if_due W n =
     (let ss = nd_sync_state n in
      if \<not> ss_active ss then (n, Inr ())
      else
        let peer_dead = (case ss_peer ss of None \<Rightarrow> True | Some p \<Rightarrow> \<not> pr_alive (peer_of n p));
            timed_out = node_now W n - ss_last_block ss > SYNC_IDLE_TIMEOUT
        in if \<not> peer_dead \<and> \<not> timed_out then (n, Inr ())
           else
             let n = reset_sync_state n in
             if ss_buffer ss = [] then (n, Inr ())
             else case adopt_branch (w_platform W) (w_unix_time W (nd_net n)) (nd_chain n) (ss_buffer ss) of
                    (m, r) \<Rightarrow> (n\<lparr>nd_chain := m\<rparr>, map_sum id (\<lambda>_. ()) r))"

section \<open>Connections\<close>

definition already_connected :: "('db, 'net) Node \<Rightarrow> str \<Rightarrow> u16 \<Rightarrow> bool" where
  "already_connected n host port \<longleftrightarrow>
     list_ex (\<lambda>entry. pr_alive (entry_peer n entry) \<and> pr_host (entry_peer n entry) = host \<and>
       vi_listen_port (pr_remote_version (entry_peer n entry)) = port) (nd_peers n)"

definition outbound_peer_count :: "('db, 'net) Node \<Rightarrow> nat" where
  "outbound_peer_count n = length (filter (\<lambda>entry. pe_is_outbound entry \<and> pr_alive (entry_peer n entry)) (nd_peers n))"

definition peer_count :: "('db, 'net) Node \<Rightarrow> nat" where
  "peer_count n = length (nd_peers n)"

definition node_peers :: "('db, 'net) Node \<Rightarrow> str list" where
  "node_peers n =
     map (\<lambda>entry. pr_host (entry_peer n entry) @ '':'' @
        to_string (unat (vi_listen_port (pr_remote_version (entry_peer n entry)))) @
        (if pe_is_outbound entry then '' (out)'' else '' (in)''))
       (filter (\<lambda>entry. pr_alive (entry_peer n entry)) (nd_peers n))"

definition book_lines :: "('db, 'net) Node \<Rightarrow> str list" where
  "book_lines n =
     map (\<lambda>info. pa_host (ai_address info) @ '':'' @ to_string (unat (pa_port (ai_address info))) @
        (if ai_verified info then '' verified''
         else '' unverified ('' @ to_string (nat (ai_failures info)) @ '' fails)''))
       (book_snapshot (nd_address_book n))"

definition remember_peer :: "('db, 'net) world \<Rightarrow> ('db, 'net) Node \<Rightarrow> str \<Rightarrow> u16 \<Rightarrow> ('db, 'net) Node" where
  "remember_peer W n host port =
     n\<lparr>nd_address_book := fst (book_add (tcp_pton (w_tcp W)) (node_now W n) (nd_address_book n)
        \<lparr>pa_host = host, pa_port = port\<rparr> True)\<rparr>"

text \<open>A socket that goes out of scope is closed.\<close>

definition drop_socket :: "('db, 'net) world \<Rightarrow> ('db, 'net) Node \<Rightarrow> int \<Rightarrow> ('db, 'net) Node" where
  "drop_socket W n fd = n\<lparr>nd_net := fst (close_socket (w_tcp W) (nd_net n) fd)\<rparr>"

definition duplicate_of :: "('db, 'net) Node \<Rightarrow> str \<Rightarrow> u16 \<Rightarrow> PeerEntry \<Rightarrow> bool" where
  "duplicate_of n host port entry \<longleftrightarrow>
     \<not> (\<not> pr_alive (entry_peer n entry) \<or> vi_listen_port (pr_remote_version (entry_peer n entry)) = 0) \<and>
     \<not> (pr_host (entry_peer n entry) \<noteq> host \<or> vi_listen_port (pr_remote_version (entry_peer n entry)) \<noteq> port)"

text \<open>
  The part of \<open>register_new_peer\<close> under the lock: whether the new peer \<open>p\<close> enters the list, with an older
  connection to the same address given up for it.
\<close>

definition admit_peer ::
  "('db, 'net) world \<Rightarrow> ('db, 'net) Node \<Rightarrow> nat \<Rightarrow> VersionInfo \<Rightarrow> str \<Rightarrow> bool \<Rightarrow> ('db, 'net) Node \<times> bool" where
  "admit_peer W n p incoming host is_outbound =
     (let entry = \<lparr>pe_peer = p, pe_is_outbound = is_outbound\<rparr> in
      case find (duplicate_of n host (vi_listen_port incoming)) (nd_peers n) of
        None \<Rightarrow> (n\<lparr>nd_peers := nd_peers n @ [entry]\<rparr>, True)
      | Some old \<Rightarrow>
          let keep_new = ((vi_node_id (nd_info n) < vi_node_id incoming) = is_outbound) in
          if \<not> keep_new then (n, False)
          else
            let n = close_peer W (mark_dead n (pe_peer old)) (pe_peer old)
            in (n\<lparr>nd_peers := nd_peers n @ [entry]\<rparr>, True))"

definition learn_address ::
  "('db, 'net) world \<Rightarrow> ('db, 'net) Node \<Rightarrow> PeerAddress \<Rightarrow> bool \<Rightarrow> ('db, 'net) Node" where
  "learn_address W n address is_outbound =
     (let pton = tcp_pton (w_tcp W); now = node_now W n; source_is_local = \<not> is_routable pton address in
      n\<lparr>nd_address_book :=
          (if is_outbound then mark_success now (fst (book_add pton now (nd_address_book n) address True)) address
           else fst (book_add pton now (nd_address_book n) address source_is_local))\<rparr>)"

definition register_new_peer ::
  "('db, 'net) world \<Rightarrow> ('db, 'net) Node \<Rightarrow> int \<Rightarrow> str \<Rightarrow> bool \<Rightarrow> (('db, 'net) Node \<times> bool result) option" where
  "register_new_peer W n fd host is_outbound =
     (if \<not> is_valid fd then Some (n, Inr False)
      else do {
        let my_height = (word_of_nat (chain_height (nd_chain n)) :: u64);
        (net, r) \<leftarrow> perform_handshake (w_os W) (set_receive_timeout (w_tcp W) (nd_net n) fd 5) fd
                      ((nd_info n)\<lparr>vi_chain_height := my_height\<rparr>);
        let n = n\<lparr>nd_net := net\<rparr>;
        case r of
          Inl e \<Rightarrow> Some (drop_socket W n fd, Inl e)
        | Inr None \<Rightarrow> Some (drop_socket W n fd, Inr False)
        | Inr (Some incoming) \<Rightarrow>
            if vi_node_id (nd_info n) = vi_node_id incoming then Some (drop_socket W n fd, Inr False)
            else
              let p = length (nd_store n);
                  n = n\<lparr>nd_store := nd_store n @ [new_Peer (node_now W n) fd incoming host]\<rparr>;
                  address = \<lparr>pa_host = host, pa_port = vi_listen_port incoming\<rparr>
              in if nd_stopping n then Some (close_peer W n p, Inr False)
                 else case admit_peer W n p incoming host is_outbound of
                        (n, False) \<Rightarrow> Some (close_peer W n p, Inr False)
                      | (n, True) \<Rightarrow>
                          let n = send_peer_list W (learn_address W n address is_outbound) p address in
                          if my_height < vi_chain_height incoming
                          then case ask_blocks W n p of (n, r) \<Rightarrow> Some (n, map_sum id (\<lambda>_. True) r)
                          else Some (n, Inr True)
      })"

definition accept_one_peer :: "('db, 'net) world \<Rightarrow> ('db, 'net) Node \<Rightarrow> (('db, 'net) Node \<times> bool result) option" where
  "accept_one_peer W n =
     (case accept_connection (w_tcp W) (nd_net n) (nd_listener n) of
        (net, fd) \<Rightarrow>
          let n = n\<lparr>nd_net := net\<rparr> in
          case get_peer_ip (w_tcp W) net fd of
            None \<Rightarrow> Some (drop_socket W n fd, Inr False)
          | Some host \<Rightarrow> register_new_peer W n fd host False)"

definition connect_to_peer ::
  "('db, 'net) world \<Rightarrow> ('db, 'net) Node \<Rightarrow> str \<Rightarrow> u16 \<Rightarrow> (('db, 'net) Node \<times> bool result) option" where
  "connect_to_peer W n host port =
     (if port = nd_listen_port n \<and> (host = ''127.0.0.1'' \<or> host = ''localhost'' \<or> host = ''0.0.0.0'')
      then Some (n, Inr False)
      else if already_connected n host port then Some (n, Inr True)
      else do {
        let n = remember_peer W n host port;
        (net, fd) \<leftarrow> connect_to (w_tcp W) (nd_net n) host port;
        register_new_peer W (n\<lparr>nd_net := net\<rparr>) fd host True
      })"

section \<open>The threads\<close>

definition node_start :: "('db, 'net) world \<Rightarrow> ('db, 'net) Node \<Rightarrow> ('db, 'net) Node \<times> bool" where
  "node_start W n =
     (case listen_on (w_tcp W) (nd_net n) (nd_listen_port n) of
        (net, fd) \<Rightarrow>
          let net = fst (close_socket (w_tcp W) net (nd_listener n)); n = n\<lparr>nd_net := net, nd_listener := fd\<rparr> in
          if \<not> is_valid fd then (n, False)
          else (n\<lparr>nd_net := set_receive_timeout (w_tcp W) net fd 1, nd_running := True, nd_stopping := False\<rparr>, True))"

definition cleaner_turn :: "('db, 'net) world \<Rightarrow> ('db, 'net) Node \<Rightarrow> ('db, 'net) Node \<times> unit result" where
  "cleaner_turn W n =
     (let dead = filter (\<lambda>entry. \<not> pr_alive (entry_peer n entry)) (nd_peers n);
          n' = foldl (close_peer W) n (map pe_peer dead)
      in finish_sync_if_due W (n'\<lparr>nd_peers := filter (\<lambda>entry. pr_alive (entry_peer n entry)) (nd_peers n)\<rparr>))"

text \<open>
  A turn of \<open>ping_loop\<close>: silent peers are pinged or given up, then, when it is time, blocks are requested
  and known addresses passed on. \<open>last_gossip\<close> is the thread's local variable.
\<close>

definition ping_peers :: "('db, 'net) world \<Rightarrow> ('db, 'net) Node \<Rightarrow> ('db, 'net) Node" where
  "ping_peers W n =
     (let alive = filter (\<lambda>entry. pr_alive (entry_peer n entry)) (nd_peers n);
          late = (\<lambda>secs entry. elapsed (node_now W n) (entry_peer n entry) \<ge> secs);
          to_ping = filter (\<lambda>entry. \<not> late PING_TIMEOUT entry \<and> late PING_INTERVAL entry) alive
      in send_to_all W (foldl mark_dead n (map pe_peer (filter (late PING_TIMEOUT) alive))) (map pe_peer to_ping) PING [])"

definition sync_when_due :: "('db, 'net) world \<Rightarrow> ('db, 'net) Node \<Rightarrow> time \<Rightarrow> ('db, 'net) Node \<times> unit result" where
  "sync_when_due W n now =
     (if now - sy_last_sync (nd_sync n) \<ge> SYNC_INTERVAL
      then case request_sync W n of
             (n, Inl e) \<Rightarrow> (n, Inl e)
           | (n, Inr _) \<Rightarrow> (n\<lparr>nd_sync := (nd_sync n)\<lparr>sy_last_sync := now\<rparr>\<rparr>, Inr ())
      else (n, Inr ()))"

definition ping_turn :: "('db, 'net) world \<Rightarrow> ('db, 'net) Node \<Rightarrow> time \<Rightarrow> ('db, 'net) Node \<times> time \<times> unit result" where
  "ping_turn W n last_gossip =
     (let n = ping_peers W n; now = node_now W n in
      case sync_when_due W n now of
        (n, Inl e) \<Rightarrow> (n, last_gossip, Inl e)
      | (n, Inr _) \<Rightarrow>
          if now - last_gossip \<ge> GOSSIP_INTERVAL then (gossip_peers W n, now, Inr ()) else (n, last_gossip, Inr ()))"

text \<open>One candidate of the connect thread, and its inner loop.\<close>

definition book_result :: "('db, 'net) world \<Rightarrow> ('db, 'net) Node \<Rightarrow> PeerAddress \<Rightarrow> bool \<Rightarrow> ('db, 'net) Node" where
  "book_result W n address ok =
     n\<lparr>nd_address_book :=
         (if ok then mark_success (node_now W n) (nd_address_book n) address
          else mark_failure (node_now W n) (nd_address_book n) address)\<rparr>"

definition dial_candidate ::
  "('db, 'net) world \<Rightarrow> ('db, 'net) Node \<Rightarrow> PeerAddress \<Rightarrow> (('db, 'net) Node \<times> unit result) option" where
  "dial_candidate W n address = do {
     let probe = already_connected n (pa_host address) (pa_port address);
     (net, fd) \<leftarrow> connect_to (w_tcp W) (nd_net n) (pa_host address) (pa_port address);
     let n = n\<lparr>nd_net := net\<rparr>;
     if probe then Some (drop_socket W (book_result W n address (is_valid fd)) fd, Inr ())
     else do {
       (n, r) \<leftarrow> register_new_peer W n fd (pa_host address) True;
       case r of
         Inl e \<Rightarrow> Some (n, Inl e)
       | Inr is_connected \<Rightarrow> Some (book_result W n address is_connected, Inr ())
     }
   }"

partial_function (option) dial_loop ::
  "('db, 'net) world \<Rightarrow> ('db, 'net) Node \<Rightarrow> (('db, 'net) Node \<times> unit result) option" where
  "dial_loop W n =
     (if \<not> outbound_peer_count n < TARGET_OUTBOUND_PEERS then Some (n, Inr ())
      else case select_candidate (node_now W n) (nd_address_book n) of
        (book, None) \<Rightarrow> Some (n\<lparr>nd_address_book := book\<rparr>, Inr ())
      | (book, Some address) \<Rightarrow> do {
          (n, r) \<leftarrow> dial_candidate W (n\<lparr>nd_address_book := book\<rparr>) address;
          case r of Inl e \<Rightarrow> Some (n, Inl e) | Inr _ \<Rightarrow> dial_loop W n
        })"

definition node_submit_block ::
  "('db, 'net) world \<Rightarrow> ('db, 'net) Node \<Rightarrow> Block \<Rightarrow> ('db, 'net) Node \<times> unit result" where
  "node_submit_block W n block =
     (case submit_block (w_platform W) (w_unix_time W (nd_net n)) (nd_chain n) block of
        (m, Inl e) \<Rightarrow> (n\<lparr>nd_chain := m\<rparr>, Inl e)
      | (m, Inr outcome) \<Rightarrow>
          (foldl (\<lambda>n h. broadcast_inv W n None Inv_block h) (n\<lparr>nd_chain := m\<rparr>) (bo_to_broadcast outcome), Inr ()))"

definition node_submit_transaction ::
  "('db, 'net) world \<Rightarrow> ('db, 'net) Node \<Rightarrow> Transaction \<Rightarrow> ('db, 'net) Node \<times> unit result" where
  "node_submit_transaction W n tx =
     (case submit_transaction (w_platform W) (nd_chain n) tx of
        (m, Inl e) \<Rightarrow> (n\<lparr>nd_chain := m\<rparr>, Inl e)
      | (m, Inr False) \<Rightarrow> (n\<lparr>nd_chain := m\<rparr>, Inr ())
      | (m, Inr True) \<Rightarrow>
          (broadcast_inv W (n\<lparr>nd_chain := m\<rparr>) None Inv_transaction (tx_hash (pf_crypto (w_platform W)) tx), Inr ()))"

definition node_stop :: "('db, 'net) world \<Rightarrow> ('db, 'net) Node \<Rightarrow> ('db, 'net) Node" where
  "node_stop W n =
     (case close_socket (w_tcp W) (nd_net n) (nd_listener n) of
        (net, fd) \<Rightarrow>
          let n = n\<lparr>nd_running := False, nd_net := net, nd_listener := fd, nd_stopping := True\<rparr> in
          (foldl (close_peer W) n (map pe_peer (nd_peers n)))\<lparr>nd_peers := []\<rparr>)"

end
