(* ===== verification/FC_ChainProps.thy ===== *)
theory FC_ChainProps
  imports FC_ChainInv
begin

text \<open>
  What the chain manager promises to its callers: which blocks it accepts, what a refused block leaves
  behind, how much a block may mint, that reorganizations only go to heavier branches, and that the
  store mirrors the chain. A sample node over the sample instances of OpenSSL and SQLite shows that
  the hypotheses can hold, two runs that the sync path lacks checks the submit path has, and two that
  the provisos on sums and on restored blocks are needed.
\<close>

section \<open>The stored chain\<close>

text \<open>Outside a transaction, the rows of the block table are the blocks of the chain by height.\<close>

definition stored_chain :: "'db sqlite_view \<Rightarrow> 'db ChainManager \<Rightarrow> bool" where
  "stored_chain V m \<longleftrightarrow> (case cm_storage m of None \<Rightarrow> True
     | Some db \<Rightarrow> \<not> sv_in_tx V db \<and> sv_rows V db = block_rows_from 0 (bc_blocks (cm_blockchain m)))"

lemma block_rows_from_with_work: "block_rows_from h (with_work w bs) = block_rows_from h bs"
  by (induction bs arbitrary: h w) simp_all

lemma stored_chain_save:
  assumes "sqlite_laws Q V" and "cm_inv P S m" and "sound_block (pf_crypto P) S block"
    and "b_prev_hash block = b_hash (latest (cm_blockchain m))"
    and "\<not> sv_in_tx V db" and "sv_rows V db = block_rows_from 0 (bc_blocks (cm_blockchain m))"
    and "save_block Q db block (bc_size (cm_blockchain m)) = (db', Inr u)"
  shows "\<not> sv_in_tx V db' \<and> sv_rows V db' = block_rows_from 0 (bc_blocks (add_block (cm_blockchain m) block))"
proof -
  let ?bc = "cm_blockchain m"
  have inv: "chain_inv (pf_crypto P) S ?bc" using assms(2) by (simp add: cm_inv_def)
  have blocks: "bc_blocks (add_block ?bc block) =
      bc_blocks ?bc @ with_work (b_cumulative_work (latest ?bc)) [block]"
    using inv by (intro add_block_blocks chain_inv_nonempty)
  have "distinct (map b_hash (bc_blocks (add_block ?bc block)))"
    using add_block_inv [OF inv assms(3,4)] by (rule chain_inv_distinct)
  then have fresh: "b_hash block \<notin> b_hash ` set (bc_blocks ?bc)" unfolding blocks by simp
  have q: "Q db (Insert_block (int (bc_size ?bc)) (b_hash block) (block_serialize block)) = (db', Done)"
    using assms(7) by (simp add: save_block_def exec_done_Inr)
  have "int (bc_size ?bc) \<notin> fst ` sv_rows V db" and "b_hash block \<notin> (fst \<circ> snd) ` sv_rows V db"
    unfolding assms(6) using fresh by (auto simp: block_rows_from_iff bc_size_def)
  then have "sv_rows V db' = insert (int (bc_size ?bc), b_hash block, block_serialize block) (sv_rows V db)"
    using sqlite_lawsD(1) [OF assms(1) q] by (simp add: insert_row_fresh)
  then show ?thesis
    using sqlite_lawsD(7) [OF assms(1) q] assms(5,6)
    unfolding blocks by (simp add: block_rows_from_append bc_size_def)
qed

lemma stored_chain_replace:
  assumes "sqlite_laws Q V" and "chain_inv C S bc" and "fork_of C S bc fork"
    and "reorganize_to bc fork = (bc', Some discarded)"
    and "\<not> sv_in_tx V db" and "sv_rows V db = block_rows_from 0 (bc_blocks bc)"
    and "replace_blocks_from Q db (bc_size bc' - length (fc_blocks fork))
      (drop (bc_size bc' - length (fc_blocks fork)) (bc_blocks bc')) = (db', Inr u)"
  shows "\<not> sv_in_tx V db' \<and> sv_rows V db' = block_rows_from 0 (bc_blocks bc')"
proof -
  obtain h where h: "h < length (bc_blocks bc)" and inv': "chain_inv C S bc'"
    and b: "bc_blocks bc' = take (Suc h) (bc_blocks bc) @
      with_work (b_cumulative_work (fc_common_ancestor fork)) (fc_blocks fork)"
    using reorganize_to_fork [OF assms(2,3)] assms(4) by (metis prod.inject)
  let ?new = "with_work (b_cumulative_work (fc_common_ancestor fork)) (fc_blocks fork)"
  have fp: "bc_size bc' - length (fc_blocks fork) = Suc h" and new: "drop (Suc h) (bc_blocks bc') = ?new"
    using h by (simp_all add: bc_size_def b)
  have "distinct (map b_hash (bc_blocks bc'))" using inv' by (rule chain_inv_distinct)
  then have d: "distinct (map b_hash ?new)"
    and fresh: "b_hash ` set (take (Suc h) (bc_blocks bc)) \<inter> b_hash ` set ?new = {}"
    unfolding b by (simp_all del: map_with_work)
  have below: "{r \<in> sv_rows V db. fst r < int (Suc h)} = block_rows_from 0 (take (Suc h) (bc_blocks bc))"
    using block_rows_from_below [of 0 "take (Suc h) (bc_blocks bc)" "drop (Suc h) (bc_blocks bc)"] h
    unfolding assms(6) append_take_drop_id by simp
  have "\<forall>r\<in>sv_rows V db. fst r < int (Suc h) \<longrightarrow> fst (snd r) \<notin> b_hash ` set ?new"
  proof (intro ballI impI)
    fix r assume "r \<in> sv_rows V db" "fst r < int (Suc h)"
    then have "r \<in> block_rows_from 0 (take (Suc h) (bc_blocks bc))" using below by blast
    then have "fst (snd r) \<in> b_hash ` set (take (Suc h) (bc_blocks bc))"
      by (cases r) (auto simp: block_rows_from_iff set_conv_nth)
    then show "fst (snd r) \<notin> b_hash ` set ?new" using fresh by blast
  qed
  from replace_blocks_outcome [OF assms(1,5) d this] assms(7) [unfolded fp new] below h
  show ?thesis unfolding b by (simp add: block_rows_from_append)
qed

lemma try_reorg_stored:
  assumes "sqlite_laws (pf_sqlite P) V" and "cm_inv P S m" and "stored_chain V m"
    and "fork_of (pf_crypto P) S (cm_blockchain m) fork" and "try_reorg P m fork = (m', Inr x)"
  shows "stored_chain V m'"
  using assms(5)
proof (cases rule: try_reorg_cases)
  case none
  then show ?thesis using assms(3) by simp
next
  case (switch bc discarded L mp u)
  have inv: "chain_inv (pf_crypto P) S (cm_blockchain m)" using assms(2) by (simp add: cm_inv_def)
  obtain hs where x: "x = Some hs" using switch(12) by (cases x) auto
  show ?thesis
  proof (cases "cm_storage m")
    case None
    then show ?thesis using switch(11) x by (simp add: stored_chain_def)
  next
    case (Some db)
    then obtain db' where db': "cm_storage m' = Some db'"
      "replace_blocks_from (pf_sqlite P) db (bc_size bc - length (fc_blocks fork))
         (drop (bc_size bc - length (fc_blocks fork)) (bc_blocks bc)) = (db', Inr ())"
      using switch(11) x by auto
    from stored_chain_replace [OF assms(1) inv assms(4) switch(3) _ _ db'(2)] assms(3) Some
    show ?thesis using db'(1) switch(5) by (simp add: stored_chain_def)
  qed
qed

lemma stored_chain_orphans [simp]: "stored_chain V (m\<lparr>cm_orphans := pool\<rparr>) \<longleftrightarrow> stored_chain V m"
  by (simp add: stored_chain_def split: option.splits)

lemma handle_fork_stored:
  assumes "sqlite_laws (pf_sqlite P) V" and "cm_inv P S m" and "stored_chain V m"
    and "iteration_ok (pf_iter P)" and "sound_block (pf_crypto P) S block"
    and "handle_fork_candidate P now m block = (m', Inr out)"
  shows "stored_chain V m'"
  using assms(6)
proof (cases rule: handle_fork_cases)
  case (tried pool best m1 r1)
  note best = handle_fork_best [OF assms(2,4,5) tried(1,2)]
  obtain x where x: "r1 = Inr x" using tried(5) by (cases r1) auto
  have "stored_chain V m1"
    using try_reorg_stored [OF assms(1) best(1) _ _ tried(3) [unfolded x]] best(2) assms(3) by simp
  then show ?thesis using tried(4) x by (cases x) simp_all
qed (use assms(3) in simp_all)

lemma extended_stored:
  assumes "sqlite_laws (pf_sqlite P) V" and "cm_inv P S m" and "stored_chain V m"
    and "sound_block (pf_crypto P) S block" and "b_prev_hash block = b_hash (latest (cm_blockchain m))"
    and "cm_storage m = Some db" and "save_block (pf_sqlite P) db block (bc_size (cm_blockchain m)) = (db', Inr u)"
  shows "stored_chain V ((extended P m block L)\<lparr>cm_storage := Some db'\<rparr>)"
  using stored_chain_save [OF assms(1,2,4,5) _ _ assms(7)] assms(3,6) by (simp add: stored_chain_def)

lemma submit_block_stored:
  assumes "sqlite_laws (pf_sqlite P) V" and "cm_inv P S m" and "stored_chain V m"
    and "iteration_ok (pf_iter P)" and "block_serialize block \<in> S" and "length (b_prev_hash block) = 32"
    and "submit_block P now m block = (m', Inr out)"
  shows "stored_chain V m'"
proof -
  note sound = submit_block_sound [OF assms(2,5,6), of "cm_blockchain m"]
  from assms(7) show ?thesis
  proof (cases rule: submit_block_cases)
    case unchanged
    then show ?thesis using assms(3) by simp
  next
    case (unapplied L res)
    then show ?thesis using assms(3) by (simp add: stored_chain_def split: option.splits)
  next
    case (extends L)
    then show ?thesis by (simp add: stored_chain_def)
  next
    case (saves L db db' res)
    then obtain u where u: "res = Inr u" by (cases res) auto
    have v: "classify_new_block (pf_crypto P) (cm_blockchain m) block = Valid"
      using saves(1) by (simp add: tip_rules_def)
    show ?thesis unfolding saves(5)
      using extended_stored [OF assms(1-3) sound classify_Valid_prev [OF v] saves(3) saves(4) [unfolded u]] v
      by simp
  next
    case fork
    then show ?thesis using handle_fork_stored [OF assms(1-4) sound] by simp
  qed
qed

lemma adopt_branch_stored:
  assumes "sqlite_laws (pf_sqlite P) V" and "cm_inv P S m" and "stored_chain V m"
    and "\<forall>b\<in>set blocks. sound_block (pf_crypto P) S b" and "adopt_branch P now m blocks = (m', Inr ok)"
  shows "stored_chain V m'"
  using assms(5)
proof (cases rule: adopt_branch_cases)
  case refused
  then show ?thesis using assms(3) by simp
next
  case (tried start height ancestor n r1)
  then obtain x where x: "r1 = Inr x" by (cases r1) auto
  show ?thesis
    using try_reorg_stored [OF assms(1-3) adopt_branch_tried_fork [OF assms(2,4) tried(1-4,6)] tried(7) [unfolded x]] .
qed

section \<open>Blocks and the ledger\<close>

lemma minted_prefix: "txs = pre @ post \<Longrightarrow> minted pre \<le> minted txs"
  by simp

lemma apply_block_rollback:
  assumes "ledger_inv L" and "\<forall>tx\<in>set (b_transactions block). tx_sum_safe tx"
    and "total_supply L + minted (b_transactions block) < 2 ^ 64"
    and "apply_block_to_ledger C L block = (L', Inr False)"
  shows "ledger_ext L L'"
proof -
  obtain pre post L1 where p: "b_transactions block = pre @ post" "run_all apply_transaction L pre = Some L1"
    "L' = undo_all reverse_transaction L1 (rev pre)"
    using apply_txs_False [OF assms(4) [unfolded apply_block_to_ledger_def]] by auto
  have "safe_run credit_safe apply_transaction L pre"
    using run_all_supply [OF assms(1) _ _ p(2)] assms(2,3) p(1) by simp
  then show ?thesis unfolding p(3) by (rule ledger_rev.undo_run [OF p(2)])
qed

lemma apply_block_supply:
  assumes "ledger_inv L" and "\<forall>tx\<in>set (b_transactions block). tx_sum_safe tx"
    and "total_supply L + fees_paid (b_transactions block) + 50 < 2 ^ 64"
    and "validate_coinbase_amount (b_transactions block)"
    and "apply_block_to_ledger C L block = (L', Inr True)"
  shows "total_supply L' \<le> total_supply L + 50"
proof -
  let ?txs = "b_transactions block"
  have r: "run_all apply_transaction L ?txs = Some L'"
    using apply_txs_True assms(5) unfolding apply_block_to_ledger_def by blast
  have m: "minted ?txs \<le> fees_paid ?txs + 50" using assms(3,4) by (intro validate_coinbase_minted) simp_all
  then have "total_supply L' + fees_paid ?txs = total_supply L + minted ?txs"
    using run_all_supply [OF assms(1) _ _ r] assms(2,3) by simp
  with m show ?thesis by simp
qed

lemma apply_block_True_iff:
  "apply_block_to_ledger C L block = (L', Inr True) \<longleftrightarrow>
     run_all apply_transaction L (b_transactions block) = Some L' \<and>
     (\<forall>tx\<in>set (b_transactions block). tx_sender tx = kCoinbaseSender \<or> has_valid_signature C tx = Inr True)"
  unfolding apply_block_to_ledger_def using apply_txs_True apply_txs_complete by blast

section \<open>Choosing transactions\<close>

lemma select_loop_run:
  "run_all apply_transaction L0 valid = Some L \<Longrightarrow>
     \<exists>L'. run_all apply_transaction L0 (select_loop L valid txs) = Some L'"
proof (induction txs arbitrary: L valid)
  case (Cons tx txs)
  obtain L1 ok where a: "apply_transaction L tx = (L1, ok)" by fastforce
  show ?case
  proof (cases ok)
    case True
    then have "run_all apply_transaction L0 (valid @ [tx]) = Some L1"
      using Cons.prems a by (simp add: run_all_append)
    then show ?thesis using Cons.IH a True by simp
  next
    case False
    then show ?thesis using Cons a apply_transaction_False [of L tx L1] by simp
  qed
qed auto

lemma select_loop_set: "set (select_loop L valid txs) \<subseteq> set valid \<union> set txs"
proof (induction txs arbitrary: L valid)
  case (Cons tx txs)
  obtain L1 ok where "apply_transaction L tx = (L1, ok)" by fastforce
  then show ?case using Cons [of L1 "if ok then valid @ [tx] else valid"] by (auto split: if_splits)
qed simp

lemma select_transactions_facts:
  assumes "mempool_inv C (cm_mempool m)"
  shows "\<exists>L. run_all apply_transaction (cm_ledger m) (select_transactions m n) = Some L"
    and "\<forall>tx\<in>set (select_transactions m n). has_valid_signature C tx = Inr True"
    and "length (select_transactions m n) \<le> n"
proof -
  show "\<exists>L. run_all apply_transaction (cm_ledger m) (select_transactions m n) = Some L"
    unfolding select_transactions_def by (rule select_loop_run) simp
  have "set (select_transactions m n) \<subseteq> set (mp_pending (cm_mempool m))"
    unfolding select_transactions_def get_transactions_for_block_def
    using select_loop_set [of "cm_ledger m" "[]"] by (fastforce dest: in_set_takeD)
  then show "\<forall>tx\<in>set (select_transactions m n). has_valid_signature C tx = Inr True"
    using assms by (auto simp: mempool_inv_def)
  have "length (select_loop L valid txs) \<le> length valid + length txs" for L valid txs
  proof (induction txs arbitrary: L valid)
    case (Cons tx txs)
    obtain L1 ok where "apply_transaction L tx = (L1, ok)" by fastforce
    then show ?case using Cons [of L1 "if ok then valid @ [tx] else valid"] by (simp split: if_splits)
  qed simp
  from this [of "cm_ledger m" "[]" "get_transactions_for_block (cm_mempool m) n"]
  show "length (select_transactions m n) \<le> n"
    by (simp add: select_transactions_def get_transactions_for_block_def)
qed

section \<open>Heavier branches\<close>

lemma try_reorg_work:
  assumes "cm_inv P S m" and "fork_of (pf_crypto P) S (cm_blockchain m) fork"
    and "try_reorg P m fork = (m', Inr (Some hs))"
  shows "b_cumulative_work (latest (cm_blockchain m)) < b_cumulative_work (latest (cm_blockchain m')) \<and>
    (\<exists>h. map b_hash (bc_blocks (cm_blockchain m')) = map b_hash (take h (bc_blocks (cm_blockchain m))) @ hs) \<and>
    hs = map b_hash (fc_blocks fork)"
  using assms(3)
proof (cases rule: try_reorg_cases)
  case (switch bc discarded L mp u)
  have inv: "chain_inv (pf_crypto P) S (cm_blockchain m)" using assms(1) by (simp add: cm_inv_def)
  obtain h where b: "bc_blocks bc = take (Suc h) (bc_blocks (cm_blockchain m)) @
      with_work (b_cumulative_work (fc_common_ancestor fork)) (fc_blocks fork)"
    using reorganize_to_fork [OF inv assms(2)] switch(3) by (metis prod.inject)
  have "fc_blocks fork \<noteq> []" using assms(2) by (simp add: fork_of_def)
  then have "b_cumulative_work (latest bc) = fork_work fork"
    by (simp add: latest_def b fork_work_def last_with_work)
  moreover have "map b_hash (bc_blocks bc) = map b_hash (take (Suc h) (bc_blocks (cm_blockchain m))) @ map b_hash (fc_blocks fork)"
    by (simp add: b)
  ultimately show ?thesis using switch(1,5,11) by (auto simp: is_fork_heavier_def)
qed simp

section \<open>Outcomes\<close>

lemma submit_block_accepts:
  assumes "tip_rules P now m block" and "cm_storage m = None"
    and "apply_block_to_ledger (pf_crypto P) (cm_ledger m) block = (L, Inr True)"
  shows "submit_block P now m block = (extended P m block L,
    Inr (new_outcome\<lparr>bo_status := Accepted, bo_to_broadcast := [b_hash block]\<rparr>))"
  using assms by (simp add: submit_block_def tip_rules_def extended_def Let_def)

lemma handle_fork_outcome:
  assumes "handle_fork_candidate P now m block = (m', Inr out)"
  shows "bo_status out \<noteq> Accepted"
    and "bo_status out \<noteq> Reorged \<Longrightarrow> \<exists>pool. m' = m\<lparr>cm_orphans := pool\<rparr>"
proof -
  have "bo_status out \<noteq> Accepted \<and> (bo_status out \<noteq> Reorged \<longrightarrow> (\<exists>pool. m' = m\<lparr>cm_orphans := pool\<rparr>))"
    using assms
  proof (cases rule: handle_fork_cases)
    case (tried pool best m1 r1)
    obtain x where x: "r1 = Inr x" using tried(5) by (cases r1) auto
    show ?thesis
    proof (cases x)
      case None
      have "m1 = m\<lparr>cm_orphans := pool\<rparr>"
        using tried(3) by (cases rule: try_reorg_cases) (auto simp: x None)
      then show ?thesis using tried(4,5) x None by (auto simp: new_outcome_def)
    qed (use tried(5) x in simp)
  qed auto
  then show "bo_status out \<noteq> Accepted"
    and "bo_status out \<noteq> Reorged \<Longrightarrow> \<exists>pool. m' = m\<lparr>cm_orphans := pool\<rparr>" by simp_all
qed

text \<open>The database of a node, if it has one, takes a block at the height after the tip.\<close>

definition takes_row :: "'db platform \<Rightarrow> 'db ChainManager \<Rightarrow> Block \<Rightarrow> bool" where
  "takes_row P m block \<longleftrightarrow> (case cm_storage m of
     None \<Rightarrow> True | Some db \<Rightarrow> \<exists>db'. save_block (pf_sqlite P) db block (bc_size (cm_blockchain m)) = (db', Inr ()))"

definition accepted_outcome :: "Block \<Rightarrow> BlockOutcome" where
  "accepted_outcome block = new_outcome\<lparr>bo_status := Accepted, bo_to_broadcast := [b_hash block]\<rparr>"

lemma submit_block_takes:
  assumes "tip_rules P now m block" and "takes_row P m block"
    and "apply_block_to_ledger (pf_crypto P) (cm_ledger m) block = (L, Inr True)"
  obtains m' where "submit_block P now m block = (m', Inr (accepted_outcome block))"
    and "cm_blockchain m' = add_block (cm_blockchain m) block" and "cm_ledger m' = L" and "cm_params m' = cm_params m"
    and "cm_mempool m' = foldl (remove_transaction (pf_crypto P)) (cm_mempool m) (b_transactions block)"
proof (cases "cm_storage m")
  case None
  show thesis by (rule that [OF submit_block_accepts [OF assms(1) None assms(3), folded accepted_outcome_def]]) simp_all
next
  case (Some db)
  then obtain db' where "save_block (pf_sqlite P) db block (bc_size (cm_blockchain m)) = (db', Inr ())"
    using assms(2) by (auto simp: takes_row_def)
  then have "submit_block P now m block = ((extended P m block L)\<lparr>cm_storage := Some db'\<rparr>, Inr (accepted_outcome block))"
    using assms(1,3) Some
    by (simp add: submit_block_def tip_rules_def extended_def accepted_outcome_def Let_def add_block_def bc_size_def)
  then show thesis by (rule that) simp_all
qed

lemma submit_block_accepted:
  assumes "submit_block P now m block = (m', Inr out)" and "bo_status out = Accepted"
  shows "tip_rules P now m block"
    and "apply_block_to_ledger (pf_crypto P) (cm_ledger m) block = (cm_ledger m', Inr True)"
    and "cm_blockchain m' = add_block (cm_blockchain m) block" and "cm_params m' = cm_params m"
    and "cm_mempool m' = foldl (remove_transaction (pf_crypto P)) (cm_mempool m) (b_transactions block)"
proof -
  have "tip_rules P now m block \<and> apply_block_to_ledger (pf_crypto P) (cm_ledger m) block = (cm_ledger m', Inr True) \<and>
    cm_blockchain m' = add_block (cm_blockchain m) block \<and> cm_params m' = cm_params m \<and>
    cm_mempool m' = foldl (remove_transaction (pf_crypto P)) (cm_mempool m) (b_transactions block)"
    using assms(1)
  proof (cases rule: submit_block_cases)
    case fork
    then show ?thesis using handle_fork_outcome(1) assms(2) by blast
  qed (use assms(2) in \<open>auto simp: new_outcome_def split: sum.splits\<close>)
  then show "tip_rules P now m block"
    and "apply_block_to_ledger (pf_crypto P) (cm_ledger m) block = (cm_ledger m', Inr True)"
    and "cm_blockchain m' = add_block (cm_blockchain m) block" and "cm_params m' = cm_params m"
    and "cm_mempool m' = foldl (remove_transaction (pf_crypto P)) (cm_mempool m) (b_transactions block)" by simp_all
qed

section \<open>A sample node\<close>

unbundle bit_operations_syntax

definition sample_platform :: "mem_db platform" where
  "sample_platform = \<lparr>pf_crypto = sample_openssl, pf_log2 = fp_exact, pf_iter = (\<lambda>xs. xs), pf_sqlite = mem_sqlite\<rparr>"

definition sample_params :: ConsensusParams where
  "sample_params = kTestParams\<lparr>cp_initial_difficulty := 1\<rparr>"

definition sample_manager :: "mem_db option \<Rightarrow> mem_db ChainManager" where
  "sample_manager storage = \<lparr>cm_blockchain = new_Blockchain sample_openssl, cm_mempool = mk_Mempool 10,
     cm_orphans = mk_OrphanPool kDefaultMaxOrphans, cm_ledger = empty_ledger, cm_storage = storage,
     cm_params = sample_params, cm_tip_version = 0\<rparr>"

definition sample_db :: mem_db where
  "sample_db = empty_db\<lparr>md_rows := [(0, sample_hash 1, block_serialize (genesis_block sample_openssl))]\<rparr>"

lemma sample_platform_sel [simp]:
  "pf_crypto sample_platform = sample_openssl" "pf_log2 sample_platform = fp_exact"
  "pf_iter sample_platform xs = xs" "pf_sqlite sample_platform = mem_sqlite"
  "iteration_ok (pf_iter sample_platform)"
  by (simp_all add: sample_platform_def iteration_ok_def)

lemma sample_manager_sel [simp]:
  "cm_blockchain (sample_manager st) = new_Blockchain sample_openssl"
  "cm_mempool (sample_manager st) = mk_Mempool 10"
  "cm_orphans (sample_manager st) = mk_OrphanPool kDefaultMaxOrphans"
  "cm_ledger (sample_manager st) = empty_ledger" "cm_storage (sample_manager st) = st"
  "cm_params (sample_manager st) = sample_params" "cm_tip_version (sample_manager st) = 0"
  by (simp_all add: sample_manager_def)

lemma sample_new_manager: "new_ChainManager sample_platform 10 sample_params None = Inr (sample_manager None)"
  by (simp add: new_ChainManager_def sample_manager_def Let_def)

lemma new_Blockchain_sel [simp]:
  "bc_blocks (new_Blockchain C) = [genesis_block C]" "bc_size (new_Blockchain C) = 1"
  "latest (new_Blockchain C) = genesis_block C"
  by (simp_all add: new_Blockchain_def bc_size_def latest_def)

lemma sample_manager_inv [simp]: "cm_inv sample_platform sample_universe (sample_manager st)"
  using new_chain_inv [of sample_openssl sample_universe] pool_sound_new by (simp add: cm_inv_def)

lemma scan_byte_zero: "scan_byte k msk 0 r = (r + word_of_nat k, False)"
  by (induction k arbitrary: msk r) (simp_all add: algebra_simps)

lemma scan_byte_grows: "\<exists>j\<le>k. fst (scan_byte k msk b r) = r + word_of_nat j"
proof (induction k arbitrary: msk r)
  case (Suc k)
  obtain j where "j \<le> k" "fst (scan_byte k (drop_bit 1 msk) b (r + 1)) = r + 1 + word_of_nat j"
    using Suc by blast
  then show ?case by (cases "b AND msk = 0") (auto intro: exI [of _ "Suc j"] exI [of _ 0] simp: algebra_simps)
qed simp

lemma scan_sample_hash: "scan_bytes (sample_hash k) 0 = fst (scan_byte 8 0x80 k 248)"
proof -
  have "scan_bytes (replicate n 0 @ bs) r = scan_bytes bs (r + 8 * word_of_nat n)" for n bs r
    by (induction n arbitrary: r) (simp_all add: scan_byte_zero algebra_simps)
  from this [of 31 "[k]" 0] show ?thesis by (simp split: prod.splits)
qed

lemma sample_hash_target:
  assumes "unat d \<le> 248"
  shows "meets_target (sample_hash k) d"
proof -
  obtain j where "j \<le> 8" "scan_bytes (sample_hash k) 0 = 248 + word_of_nat j"
    using scan_byte_grows [of 8 "0x80" k 248] by (auto simp: scan_sample_hash)
  moreover from this(1) have "unat (248 + word_of_nat j :: u32) = 248 + j"
    by (simp add: unat_word_ariths unat_of_nat)
  ultimately show ?thesis using assms by (simp add: meets_target_def word_le_nat_alt)
qed

lemma sample_median: "median_time_past 1 11 (bc_at (new_Blockchain sample_openssl)) = Inr 0"
  by (simp add: median_time_past_def bc_at_def vec_at_def genesis_block_def Let_def)

lemma sample_a_rules: "tip_rules sample_platform 5 (sample_manager st) sample_a"
  using sample_median
  by (simp add: tip_rules_def classify_new_block_def sample_hash_target validate_coinbase_amount_def
      timestamp_is_valid_def next_difficulty_def sample_params_def kTestParams_def block_compute_hash_def)

text \<open>A branch of two blocks beside \<open>sample_a\<close>, and a node that waits for its second block.\<close>

lemma collision_free_blocks:
  assumes "\<forall>b\<in>X. b_hash b = block_compute_hash C b" and "inj_on b_hash X" and "zero_hash \<notin> b_hash ` X"
  shows "collision_free C (block_serialize ` X)"
proof -
  have sha: "double_sha_256 C (block_serialize b) = b_hash b" if "b \<in> X" for b
    using assms(1) that by (simp add: block_compute_hash_def)
  have "inj_on (double_sha_256 C) (block_serialize ` X)"
    using assms(2) sha by (auto simp: inj_on_def)
  moreover have "zero_hash \<notin> double_sha_256 C ` block_serialize ` X" using assms(3) sha by fastforce
  ultimately show ?thesis by (simp add: collision_free_def)
qed

definition sample_c :: Block where "sample_c = sample_child (genesis_block sample_openssl) 20 1 []"
definition sample_d :: Block where "sample_d = sample_child sample_c 30 1 []"

definition branch_blocks :: "Block set" where
  "branch_blocks = {genesis_block sample_openssl, sample_a, sample_c, sample_d}"

lemma branch_hashes [simp]: "b_hash sample_c = sample_hash 23" "b_hash sample_d = sample_hash 55"
  by (simp_all add: sample_c_def sample_d_def sample_child_hash)

lemma branch_sel [simp]:
  "b_prev_hash sample_c = sample_hash 1" "b_prev_hash sample_d = sample_hash 23"
  "b_difficulty sample_c = 1" "b_difficulty sample_d = 1"
  "b_timestamp sample_c = 20" "b_timestamp sample_d = 30"
  "b_transactions sample_c = []" "b_transactions sample_d = []"
  by (simp_all add: sample_c_def) (simp_all add: sample_d_def)

lemma branch_computed: "b \<in> branch_blocks \<Longrightarrow> b_hash b = block_compute_hash sample_openssl b"
proof -
  have "b_hash sample_c = block_compute_hash sample_openssl sample_c"
    "b_hash sample_d = block_compute_hash sample_openssl sample_d"
    by (metis sample_c_def sample_child_hash_eq, metis sample_d_def sample_child_hash_eq)
  then show "b \<in> branch_blocks \<Longrightarrow> b_hash b = block_compute_hash sample_openssl b"
    by (auto simp: branch_blocks_def block_compute_hash_def)
qed

lemma branch_sound [simp]:
  "b \<in> branch_blocks \<Longrightarrow> sound_block sample_openssl (block_serialize ` branch_blocks) b"
proof -
  have "collision_free sample_openssl (block_serialize ` branch_blocks)"
    by (intro collision_free_blocks ballI branch_computed)
      (auto simp: branch_blocks_def inj_on_def zero_hash_sample)
  moreover have "length (b_prev_hash b) = 32" if "b \<in> branch_blocks" for b
    using that by (auto simp: branch_blocks_def zero_hash_def)
  ultimately show "b \<in> branch_blocks \<Longrightarrow> sound_block sample_openssl (block_serialize ` branch_blocks) b"
    using branch_computed by (simp add: sound_block_def)
qed

definition branch_manager :: "mem_db ChainManager" where
  "branch_manager = (sample_manager None)\<lparr>cm_blockchain := sample_bc,
     cm_orphans := pool_of kDefaultMaxOrphans [sample_c]\<rparr>"

definition branch_pool :: OrphanPool where
  "branch_pool = pool_of kDefaultMaxOrphans [sample_c, sample_d]"

definition branch_fork :: ForkChain where
  "branch_fork = \<lparr>fc_blocks = [sample_c, sample_d], fc_common_ancestor = genesis_block sample_openssl\<rparr>"

lemma branch_members [simp]: "genesis_block sample_openssl \<in> branch_blocks" "sample_a \<in> branch_blocks"
  "sample_c \<in> branch_blocks" "sample_d \<in> branch_blocks"
  by (simp_all add: branch_blocks_def)

lemma branch_manager_sel [simp]:
  "cm_blockchain branch_manager = sample_bc" "cm_orphans branch_manager = pool_of kDefaultMaxOrphans [sample_c]"
  "cm_mempool branch_manager = mk_Mempool 10" "cm_ledger branch_manager = empty_ledger"
  "cm_storage branch_manager = None" "cm_params branch_manager = sample_params"
  by (simp_all add: branch_manager_def)

lemma sample_bc_branch_inv: "chain_inv sample_openssl (block_serialize ` branch_blocks) sample_bc"
proof -
  have "collision_free sample_openssl (block_serialize ` branch_blocks)"
    using branch_sound [OF branch_members(1)] by (simp add: sound_block_def)
  then show ?thesis unfolding sample_bc_def by (intro add_block_inv new_chain_inv) simp_all
qed

lemma branch_manager_inv [simp]: "cm_inv sample_platform (block_serialize ` branch_blocks) branch_manager"
  using sample_bc_branch_inv
  by (simp add: cm_inv_def pool_sound_def orphan_inv_def pool_of_def kDefaultMaxOrphans_def)

lemma sample_bc_index: "map_of (bc_index sample_bc) h =
    (if h = sample_hash 8 then Some 1 else if h = sample_hash 1 then Some 0 else None)"
  by (simp add: sample_bc_def add_block_def new_Blockchain_def Let_def update_conv' bc_size_def)

lemma sample_bc_find [simp]:
  "bc_find sample_bc (sample_hash 23) = None" "bc_find sample_bc (sample_hash 1) = Some (genesis_block sample_openssl)"
  "find_height sample_bc (sample_hash 1) = Some 0"
  by (simp_all add: bc_find_def find_height_alt sample_bc_index)

lemma branch_build: "build_fork_chain sample_bc branch_pool sample_d = Some branch_fork"
  by (simp add: build_fork_chain_def build_fork_loop.simps kMaxForkDepth_def branch_pool_def pool_of_def
      find_orphan_def branch_fork_def)

lemma two_block_prefix:
  assumes "bc_blocks bc \<noteq> []" "bc_blocks bc ! 0 = genesis_block sample_openssl" "find_height bc (sample_hash 1) = Some 0"
    and "b_timestamp b = 20" "b_timestamp b' = 30" "b_difficulty b = 1" "b_difficulty b' = 1"
  shows "valid_prefix_length fp_exact sample_params bc
    \<lparr>fc_blocks = [b, b'], fc_common_ancestor = genesis_block sample_openssl\<rparr> 40 = Inr 2"
proof -
  let ?at = "fork_block_at bc \<lparr>fc_blocks = [b, b'], fc_common_ancestor = genesis_block sample_openssl\<rparr> 1"
  have at: "?at 0 = Inr (genesis_block sample_openssl)" "?at 1 = Inr b"
    using assms(1,2) by (simp_all add: fork_block_at_def bc_at_def vec_at_def)
  have t: "timestamps_of ?at [0..<1] = Inr [0]" "timestamps_of ?at [0..<2] = Inr [0, 20]"
    using at assms(4) by (simp_all add: numeral_2_eq_2 genesis_block_def Let_def)
  then have "median_time_past 1 11 ?at = Inr 0" "median_time_past 2 11 ?at = Inr 20"
    by (simp_all add: median_time_past_def)
  then have "timestamp_is_valid b 1 40 sample_params ?at = Inr True"
    "timestamp_is_valid b' 2 40 sample_params ?at = Inr True"
    using assms(4,5) by (simp_all add: timestamp_is_valid_def sample_params_def kTestParams_def)
  moreover have "next_difficulty fp_exact 1 sample_params ?at = Inr 1" "next_difficulty fp_exact 2 sample_params ?at = Inr 1"
    using assms(6) at by (simp_all add: next_difficulty_def sample_params_def kTestParams_def)
  ultimately have "valid_prefix_loop fp_exact sample_params ?at 40 1 0 [b, b'] = Inr 2"
    using assms(6,7) by (simp add: numeral_2_eq_2)
  then show ?thesis using assms(3) by (simp add: valid_prefix_length_def)
qed

lemma branch_prefix: "valid_prefix_length fp_exact sample_params sample_bc branch_fork 40 = Inr 2"
  unfolding branch_fork_def by (rule two_block_prefix) simp_all

lemma branch_add: "add_orphan (pool_of kDefaultMaxOrphans [sample_c]) sample_d = Inr branch_pool"
  using add_orphan_pool_of [of kDefaultMaxOrphans "[sample_c]" sample_d]
  by (simp add: branch_pool_def kDefaultMaxOrphans_def)

lemma branch_tips: "find_fork_tips (\<lambda>xs. xs) branch_pool sample_d = [sample_d]"
  by (simp add: find_fork_tips_def fork_tips_loop.simps kMaxForkDepth_def children_of_def branch_pool_def pool_of_def)

lemma branch_heavier: "is_fork_heavier sample_bc branch_fork"
  by (simp add: is_fork_heavier_def fork_work_def branch_fork_def latest_def block_work_def)

lemma branch_submit:
  "\<exists>m' hs. submit_block sample_platform 40 branch_manager sample_d =
     (m', Inr (new_outcome\<lparr>bo_status := Reorged, bo_to_broadcast := hs\<rparr>))"
proof -
  let ?m = "branch_manager\<lparr>cm_orphans := branch_pool\<rparr>"
  have "classify_new_block sample_openssl sample_bc sample_d = ForkCandidate"
    using branch_computed [OF branch_members(4)] by (simp add: classify_new_block_def latest_def)
  then have s: "submit_block sample_platform 40 branch_manager sample_d =
      handle_fork_candidate sample_platform 40 branch_manager sample_d"
    by (simp add: submit_block_def sample_hash_target validate_coinbase_amount_def)
  have iter: "pf_iter sample_platform = (\<lambda>xs. xs)" by (simp add: sample_platform_def)
  have keep: "keep_prefix 2 branch_fork = branch_fork" by (simp add: keep_prefix_def branch_fork_def)
  have best: "best_fork sample_platform ?m 40 [sample_d] None 0 = Inr (Some branch_fork)"
    by (simp add: branch_build branch_prefix keep)
  obtain bc where r: "reorganize_to sample_bc branch_fork = (bc, Some [sample_a\<lparr>b_cumulative_work := 2\<rparr>])"
    by (simp add: reorganize_to_def branch_fork_def Let_def)
  have txs: "branch_txs (fc_blocks branch_fork) = []" by (simp add: branch_fork_def)
  have "\<exists>m' hs. try_reorg sample_platform ?m branch_fork = (m', Inr (Some hs))"
    by (simp add: try_reorg_def branch_heavier r txs Let_def)
  then show ?thesis
    by (auto simp: s handle_fork_candidate_def branch_add branch_build branch_tips iter best Let_def simp del: best_fork.simps)
qed

section \<open>Properties\<close>

text \<open>C11: Without storage, a submitted block is accepted exactly when it meets its target, obeys the
  coinbase rule, extends the tip with a correct hash, timestamp and difficulty, its payments are
  correctly signed, and its transactions apply in order; the chain then grows by this block, the
  ledger is the result of applying it, and its transactions have left the mempool.\<close>

theorem block_accepted_iff:
  assumes "cm_storage m = None"
  shows "(\<exists>out. submit_block P now m block = (m', Inr out) \<and> bo_status out = Accepted) \<longleftrightarrow>
    tip_rules P now m block \<and>
    (\<forall>tx. tx \<in> set (b_transactions block) \<longrightarrow>
       tx_sender tx = kCoinbaseSender \<or> has_valid_signature (pf_crypto P) tx = Inr True) \<and>
    (\<exists>L. run_all apply_transaction (cm_ledger m) (b_transactions block) = Some L \<and> m' = extended P m block L)"
    (is "?l \<longleftrightarrow> ?r")
proof
  assume ?l
  then obtain out where s: "submit_block P now m block = (m', Inr out)" and a: "bo_status out = Accepted" by blast
  from s show ?r
  proof (cases rule: submit_block_cases)
    case (extends L)
    then show ?thesis by (auto simp: apply_block_True_iff)
  next
    case fork
    then show ?thesis using a handle_fork_outcome(1) by blast
  qed (use a assms in \<open>auto simp: new_outcome_def split: sum.splits\<close>)
next
  assume r: ?r
  then obtain L where L: "apply_block_to_ledger (pf_crypto P) (cm_ledger m) block = (L, Inr True)"
    "m' = extended P m block L" by (auto simp: apply_block_True_iff)
  from submit_block_accepts [OF _ assms this(1)] r this(2) show ?l by auto
qed

theorem block_accepted_iff_witness:
  "\<exists>out m'. submit_block sample_platform 5 (sample_manager None) sample_a = (m', Inr out) \<and>
     bo_status out = Accepted \<and> chain_height m' = 2"
  using block_accepted_iff [of "sample_manager None" sample_platform 5 sample_a
      "extended sample_platform (sample_manager None) sample_a empty_ledger"] sample_a_rules [of None]
  by (auto simp: chain_height_def)

text \<open>C25: A submitted block that is refused, or whose parent is missing, leaves chain, mempool, store and
  tip version as they were, even when some of its transactions had been applied: every nonce and every
  balance is what it was, up to entries left at zero. Sums of amount and fee do not overflow, and the
  coins in circulation with those of the block fit 64 bits.\<close>

theorem refused_block_keeps_state:
  assumes "ledger_inv (cm_ledger m)" and "\<forall>tx\<in>set (b_transactions block). tx_sum_safe tx"
    and "total_supply (cm_ledger m) + minted (b_transactions block) < 2 ^ 64"
    and "submit_block P now m block = (m', Inr out)" and "bo_status out \<in> {Rejected, NeedParent}"
  shows "cm_blockchain m' = cm_blockchain m \<and> cm_mempool m' = cm_mempool m \<and>
    cm_storage m' = cm_storage m \<and> cm_tip_version m' = cm_tip_version m \<and>
    ledger_ext (cm_ledger m) (cm_ledger m')"
  using assms(4)
proof (cases rule: submit_block_cases)
  case unchanged
  then show ?thesis by (simp add: ledger_rev.ext_refl)
next
  case (unapplied L res)
  then have "apply_block_to_ledger (pf_crypto P) (cm_ledger m) block = (L, Inr False)"
    by (cases res) auto
  then show ?thesis using apply_block_rollback [OF assms(1-3)] unapplied(4) by simp
next
  case fork
  then show ?thesis using handle_fork_outcome(2) [OF fork(4)] assms(5) by (auto simp: ledger_rev.ext_refl)
qed (use assms(5) in \<open>auto split: sum.splits\<close>)

text \<open>A block that pays the reward to an address which then tries to spend more than it has.\<close>

definition sample_coin :: Transaction where
  "sample_coin = mk_Transaction kCoinbaseSender (derive_address sample_openssl [1]) 50 [] 0 0"

definition sample_reward :: Block where
  "sample_reward = sample_child (genesis_block sample_openssl) 5 1 [sample_coin]"

definition sample_overspend :: Block where
  "sample_overspend = sample_child (genesis_block sample_openssl) 5 1 [sample_coin, sample_tx 1 2 100 1 0]"

lemma sample_child_target: "unat d \<le> 248 \<Longrightarrow> meets_target (b_hash (sample_child p t d txs)) d"
  unfolding sample_child_hash_eq block_compute_hash_def sample_double_sha sample_sha_def
  by (rule sample_hash_target)

lemma sample_child_rules:
  assumes "validate_coinbase_amount txs"
    and "\<forall>i<length txs. tx_sender (txs ! i) = kCoinbaseSender \<longrightarrow> i = 0" and "t \<noteq> 0"
  shows "tip_rules sample_platform t (sample_manager st) (sample_child (genesis_block sample_openssl) t 1 txs)"
proof -
  let ?b = "sample_child (genesis_block sample_openssl) t 1 txs"
  have "classify_new_block sample_openssl (new_Blockchain sample_openssl) ?b = Valid"
    using assms(2) sample_child_hash_eq [of "genesis_block sample_openssl" t 1 txs]
    by (auto simp: classify_new_block_def list_ex_iff)
  with assms(1,3) sample_child_target [of 1 "genesis_block sample_openssl" t txs] sample_median show ?thesis
    by (simp add: tip_rules_def timestamp_is_valid_def next_difficulty_def sample_params_def kTestParams_def)
qed

lemma sample_coin_sel [simp]: "tx_sender sample_coin = kCoinbaseSender" "tx_amount sample_coin = 50"
  "tx_recipient sample_coin = derive_address sample_openssl [1]" "tx_fee sample_coin = 0"
  by (simp_all add: sample_coin_def mk_Transaction_def)

lemma sample_coin_applies:
  "apply_transaction empty_ledger sample_coin =
     (set_balance empty_ledger (derive_address sample_openssl [1]) 50, True)"
  by (simp add: apply_transaction_alt balance_get empty_ledger_def get_balance_def Let_def)

lemma sample_overspend_fails:
  "\<exists>L. apply_block_to_ledger sample_openssl empty_ledger sample_overspend = (L, Inr False)"
proof -
  have "apply_transaction (set_balance empty_ledger (derive_address sample_openssl [1]) 50) (sample_tx 1 2 100 1 0) =
      (set_balance empty_ledger (derive_address sample_openssl [1]) 50, False)"
    by (simp add: apply_transaction_alt balance_get sample_tx_def mk_Transaction_def derive_address_not_coinbase)
  then show ?thesis by (simp add: apply_block_to_ledger_def sample_overspend_def sample_coin_applies)
qed

theorem refused_block_keeps_state_witness:
  "\<exists>m'. submit_block sample_platform 5 (sample_manager None) sample_overspend = (m', Inr new_outcome) \<and>
     ledger_ext empty_ledger (cm_ledger m')"
proof -
  obtain L where L: "apply_block_to_ledger sample_openssl empty_ledger sample_overspend = (L, Inr False)"
    using sample_overspend_fails by blast
  have t: "b_transactions sample_overspend = [sample_coin, sample_tx 1 2 100 1 0]"
    by (simp add: sample_overspend_def)
  have x: "tx_sender (sample_tx 1 2 100 1 0) \<noteq> kCoinbaseSender" "tx_sum_safe (sample_tx 1 2 100 1 0)"
    by (simp_all add: sample_tx_def mk_Transaction_def derive_address_not_coinbase tx_sum_safe_def)
  have "tip_rules sample_platform 5 (sample_manager None) sample_overspend"
    unfolding sample_overspend_def using x(1)
    by (intro sample_child_rules)
      (auto simp: validate_coinbase_amount_def mining_reward_def sample_tx_def mk_Transaction_def less_Suc_eq nth_Cons')
  with L have s: "submit_block sample_platform 5 (sample_manager None) sample_overspend =
      ((sample_manager None)\<lparr>cm_ledger := L\<rparr>, Inr new_outcome)"
    by (simp add: submit_block_def tip_rules_def Let_def)
  have "total_supply empty_ledger = 0" by (simp add: total_supply_def empty_ledger_def)
  then show ?thesis
    using refused_block_keeps_state [OF _ _ _ s] s t x by (simp add: new_outcome_def tx_sum_safe_def)
qed

text \<open>C24: When no 64-bit sum wraps, an accepted block adds at most the mining reward of fifty coins to the coins in
  circulation, whatever fees its coinbase collects. That no sum wraps means: the sum of amount and fee of each of its
  transactions is below 2^64, and so are the coins in circulation together with the fees of the block and the reward.
  The code checks neither, and \<open>wrapping_block_mints\<close> below shows a block it accepts that creates 2^64 - 5 coins.\<close>

theorem block_subsidy_bound:
  assumes "ledger_inv (cm_ledger m)" and "\<forall>tx\<in>set (b_transactions block). tx_sum_safe tx"
    and "total_supply (cm_ledger m) + fees_paid (b_transactions block) + 50 < 2 ^ 64"
    and "submit_block P now m block = (m', Inr out)" and "bo_status out = Accepted"
  shows "total_supply (cm_ledger m') \<le> total_supply (cm_ledger m) + 50"
proof -
  note acc = submit_block_accepted [OF assms(4,5)]
  from acc(1) show ?thesis
    by (intro apply_block_supply [OF assms(1-3) _ acc(2)]) (simp add: tip_rules_def)
qed

theorem block_subsidy_bound_witness:
  "\<exists>m' out. submit_block sample_platform 5 (sample_manager None) sample_reward = (m', Inr out) \<and>
     bo_status out = Accepted \<and> total_supply (cm_ledger m') \<le> 50"
proof -
  let ?L = "set_balance empty_ledger (derive_address sample_openssl [1]) 50"
  let ?m = "extended sample_platform (sample_manager None) sample_reward ?L"
  have t: "b_transactions sample_reward = [sample_coin]" by (simp add: sample_reward_def)
  have "apply_block_to_ledger sample_openssl empty_ledger sample_reward = (?L, Inr True)"
    by (simp add: apply_block_to_ledger_def t sample_coin_applies)
  moreover have "tip_rules sample_platform 5 (sample_manager None) sample_reward"
    unfolding sample_reward_def
    by (rule sample_child_rules) (simp_all add: validate_coinbase_amount_def mining_reward_def)
  ultimately have s: "submit_block sample_platform 5 (sample_manager None) sample_reward = (?m,
      Inr (new_outcome\<lparr>bo_status := Accepted, bo_to_broadcast := [b_hash sample_reward]\<rparr>))"
    by (intro submit_block_accepts) simp_all
  have "total_supply empty_ledger = 0" by (simp add: total_supply_def empty_ledger_def)
  then show ?thesis using block_subsidy_bound [OF _ _ _ s] s t by (simp add: tx_sum_safe_def)
qed

text \<open>The proviso is needed: a node whose ledger has an account with no coins accepts a block in which that account
  pays 2^64 - 5 coins with a fee of 5, since the sum of the two is zero in 64 bits.\<close>

definition wrapping_block :: Block where
  "wrapping_block = sample_child (genesis_block sample_openssl) 5 1 [sample_tx 1 2 (- 5) 5 0]"

theorem wrapping_block_mints:
  "\<exists>m' out. submit_block sample_platform 5 (cm_set_balance (sample_manager None) (derive_address sample_openssl [1]) 0)
       wrapping_block = (m', Inr out) \<and> bo_status out = Accepted \<and>
     total_supply (cm_ledger (cm_set_balance (sample_manager None) (derive_address sample_openssl [1]) 0)) = 0 \<and>
     total_supply (cm_ledger m') = 2 ^ 64 - 5"
proof -
  let ?L = "set_balance empty_ledger (derive_address sample_openssl [1]) 0"
  let ?m = "cm_set_balance (sample_manager None) (derive_address sample_openssl [1]) 0" and ?tx = "sample_tx 1 2 (- 5) 5 0"
  have t: "b_transactions wrapping_block = [?tx]" by (simp add: wrapping_block_def)
  obtain L where L: "apply_transaction ?L ?tx = (L, True)" "total_supply L = 2 ^ 64 - 5"
    by (simp add: apply_transaction_alt balance_get Let_def)
      (simp add: total_supply_def set_balance_def set_nonce_def empty_ledger_def next_nonce_def get_balance_def balance_def umap_at_def)
  have "tip_rules sample_platform 5 (sample_manager None) wrapping_block"
    unfolding wrapping_block_def by (rule sample_child_rules) (simp_all add: validate_coinbase_amount_def)
  then have "tip_rules sample_platform 5 ?m wrapping_block" by (simp add: tip_rules_def cm_set_balance_def)
  moreover have "apply_block_to_ledger sample_openssl (cm_ledger ?m) wrapping_block = (L, Inr True)"
    using L(1) by (simp add: apply_block_True_iff t cm_set_balance_def)
  ultimately have "submit_block sample_platform 5 ?m wrapping_block = (extended sample_platform ?m wrapping_block L,
      Inr (new_outcome\<lparr>bo_status := Accepted, bo_to_broadcast := [b_hash wrapping_block]\<rparr>))"
    by (intro submit_block_accepts) (simp_all add: cm_set_balance_def)
  then show ?thesis using L(2)
    by (simp add: cm_set_balance_def) (simp add: total_supply_def set_balance_def empty_ledger_def)
qed

text \<open>\<open>restore_block\<close> checks neither the parent nor the hash of a block, only that its transactions apply: a store that
  returns blocks out of order leaves the node with a chain that fails its own validity check.\<close>

theorem restore_block_unlinked:
  "\<exists>m. restore_block sample_platform (sample_manager None) sample_d = (m, Inr True) \<and>
     \<not> bc_is_valid sample_openssl (cm_blockchain m)"
proof -
  have "apply_block_to_ledger sample_openssl empty_ledger sample_d = (empty_ledger, Inr True)"
    by (simp add: apply_block_True_iff)
  then show ?thesis
    by (simp add: restore_block_def bc_is_valid_def add_block_def Let_def)
qed

lemma submit_reorg_work:
  assumes "cm_inv P S m" and "iteration_ok (pf_iter P)"
    and "block_serialize block \<in> S" and "length (b_prev_hash block) = 32"
    and "submit_block P now m block = (m', Inr out)" and "bo_status out = Reorged"
  shows "b_cumulative_work (latest (cm_blockchain m)) < b_cumulative_work (latest (cm_blockchain m')) \<and>
    (\<exists>h. map b_hash (bc_blocks (cm_blockchain m')) =
       map b_hash (take h (bc_blocks (cm_blockchain m))) @ bo_to_broadcast out)"
  using assms(5)
proof (cases rule: submit_block_cases)
  case fork
  have sound: "sound_block (pf_crypto P) S block"
    using submit_block_sound [OF assms(1,3,4), of "cm_blockchain m"] fork(3) by simp
  from fork(4) show ?thesis
  proof (cases rule: handle_fork_cases)
    case (parked pool)
    then show ?thesis using assms(6) by auto
  next
    case (tried pool best m1 r1)
    note best = handle_fork_best [OF assms(1,2) sound tried(1,2)]
    obtain hs where hs: "r1 = Inr (Some hs)" "bo_to_broadcast out = hs"
      using tried(5) assms(6) by (auto simp: new_outcome_def split: sum.splits option.splits)
    show ?thesis
      using try_reorg_work [OF best(1) _ tried(3) [unfolded hs(1)]] best(2) tried(4) hs by auto
  qed simp
qed (use assms(6) in \<open>auto simp: new_outcome_def split: sum.splits\<close>)

lemma adopt_branch_work:
  assumes "cm_inv P S m" and "\<forall>b\<in>set blocks. sound_block (pf_crypto P) S b"
    and "adopt_branch P now m blocks = (m', Inr True)"
  shows "b_cumulative_work (latest (cm_blockchain m)) < b_cumulative_work (latest (cm_blockchain m'))"
  using assms(3)
proof (cases rule: adopt_branch_cases)
  case (tried start height ancestor n r1)
  then obtain hs where "r1 = Inr (Some hs)" by (auto split: sum.splits)
  with try_reorg_work [OF assms(1) adopt_branch_tried_fork [OF assms(1,2) tried(1-4,6)]] tried(7)
  show ?thesis by blast
qed simp

text \<open>C23: A reorganization, whether a submitted block or a synced branch causes it, strictly increases the
  cumulative work of the tip; after a submitted block the announced hashes are exactly the blocks that
  now lie above some height of the old chain.\<close>

theorem reorg_strictly_heavier:
  assumes "cm_inv P S m" and "iteration_ok (pf_iter P)"
  shows "(block_serialize block \<in> S \<and> length (b_prev_hash block) = 32 \<and>
      submit_block P now m block = (m', Inr out) \<and> bo_status out = Reorged \<longrightarrow>
      b_cumulative_work (latest (cm_blockchain m)) < b_cumulative_work (latest (cm_blockchain m')) \<and>
      (\<exists>h. map b_hash (bc_blocks (cm_blockchain m')) =
         map b_hash (take h (bc_blocks (cm_blockchain m))) @ bo_to_broadcast out)) \<and>
    ((\<forall>b\<in>set blocks. sound_block (pf_crypto P) S b) \<and> adopt_branch P now m blocks = (m', Inr True) \<longrightarrow>
      b_cumulative_work (latest (cm_blockchain m)) < b_cumulative_work (latest (cm_blockchain m')))"
  using submit_reorg_work [OF assms] adopt_branch_work [OF assms(1)] by blast

theorem reorg_strictly_heavier_witness:
  "\<exists>m' out. submit_block sample_platform 40 branch_manager sample_d = (m', Inr out) \<and> bo_status out = Reorged \<and>
     b_cumulative_work (latest sample_bc) < b_cumulative_work (latest (cm_blockchain m'))"
proof -
  obtain m' hs where s: "submit_block sample_platform 40 branch_manager sample_d =
      (m', Inr (new_outcome\<lparr>bo_status := Reorged, bo_to_broadcast := hs\<rparr>))"
    using branch_submit by blast
  from reorg_strictly_heavier [OF branch_manager_inv sample_platform_sel(5), THEN conjunct1, THEN mp, OF conjI [OF _ conjI [OF _ conjI [OF s]]]] s
  show ?thesis by simp
qed

text \<open>C9: The store mirrors the chain. When the block table holds exactly the blocks of the chain by height
  and no transaction is open, the same is true after a block was submitted and after a branch was
  adopted or refused, unless the call throws.\<close>

theorem storage_mirrors_chain:
  assumes "sqlite_laws (pf_sqlite P) V" and "cm_inv P S m" and "iteration_ok (pf_iter P)" and "stored_chain V m"
  shows "(block_serialize block \<in> S \<and> length (b_prev_hash block) = 32 \<and>
      submit_block P now m block = (m', Inr out) \<longrightarrow> stored_chain V m') \<and>
    ((\<forall>b\<in>set blocks. sound_block (pf_crypto P) S b) \<and> adopt_branch P now m blocks = (m', Inr ok) \<longrightarrow>
      stored_chain V m')"
  using submit_block_stored [OF assms(1,2,4,3)] adopt_branch_stored [OF assms(1,2,4)] by blast

theorem storage_mirrors_chain_witness:
  "\<exists>m' out db. submit_block sample_platform 5 (sample_manager (Some sample_db)) sample_a = (m', Inr out) \<and>
     bo_status out = Accepted \<and> cm_storage m' = Some db \<and>
     sv_rows mem_view db = block_rows_from 0 (bc_blocks (cm_blockchain m'))"
proof -
  let ?m = "sample_manager (Some sample_db)"
  have st: "stored_chain mem_view ?m"
    by (simp add: stored_chain_def sample_db_def empty_db_def mem_view_def)
  have a: "apply_block_to_ledger sample_openssl empty_ledger sample_a = (empty_ledger, Inr True)"
    by (simp add: apply_block_to_ledger_def)
  obtain db where db: "save_block mem_sqlite sample_db sample_a 1 = (db, Inr ())"
    by (simp add: save_block_def exec_done_def)
  have s: "submit_block sample_platform 5 ?m sample_a =
      ((extended sample_platform ?m sample_a empty_ledger)\<lparr>cm_storage := Some db\<rparr>,
       Inr (new_outcome\<lparr>bo_status := Accepted, bo_to_broadcast := [sample_hash 8]\<rparr>))"
    using sample_a_rules [of "Some sample_db"] a db
    by (simp add: submit_block_def tip_rules_def extended_def Let_def)
  have "stored_chain mem_view ((extended sample_platform ?m sample_a empty_ledger)\<lparr>cm_storage := Some db\<rparr>)"
    using storage_mirrors_chain [OF _ sample_manager_inv [of "Some sample_db"] sample_platform_sel(5) st,
        THEN conjunct1, THEN mp, OF _ conjI [OF _ conjI [OF _ s]]] by simp
  with s show ?thesis by (simp add: stored_chain_def)
qed

text \<open>A branch of one block on the genesis block of a sample node without storage.\<close>

lemma genesis_index: "map_of (bc_index (new_Blockchain sample_openssl)) h = (if h = sample_hash 1 then Some 0 else None)"
  by (simp add: new_Blockchain_def)

abbreviation genesis_fork :: "Block \<Rightarrow> ForkChain" where
  "genesis_fork b \<equiv> \<lparr>fc_blocks = [b], fc_common_ancestor = genesis_block sample_openssl\<rparr>"

lemma genesis_fork_prefix:
  assumes "b_timestamp b \<noteq> 0" "b_timestamp b \<le> now" "b_difficulty b = d"
  shows "valid_prefix_length fp_exact (kTestParams\<lparr>cp_initial_difficulty := d\<rparr>)
    (new_Blockchain sample_openssl) (genesis_fork b) now = Inr 1"
proof -
  have "median_time_past 1 11 (fork_block_at (new_Blockchain sample_openssl) (genesis_fork b) 1) = Inr 0"
    by (simp add: median_time_past_def fork_block_at_def bc_at_def vec_at_def genesis_block_def Let_def)
  with assms have "timestamp_is_valid b 1 now (kTestParams\<lparr>cp_initial_difficulty := d\<rparr>)
      (fork_block_at (new_Blockchain sample_openssl) (genesis_fork b) 1) = Inr True"
    by (simp add: timestamp_is_valid_def kTestParams_def Let_def not_less)
  with assms(3) show ?thesis
    by (simp add: valid_prefix_length_def find_height_alt genesis_index next_difficulty_def kTestParams_def)
qed

lemma adopt_genesis_fork:
  assumes "b_timestamp b \<noteq> 0" "b_timestamp b \<le> now" "block_work b \<noteq> 0"
    and "b_prev_hash b = sample_hash 1" "b_hash b \<noteq> sample_hash 1"
    and "branch_signed sample_openssl (b_transactions b) = Inr True"
    and m: "cm_blockchain m = new_Blockchain sample_openssl" "cm_storage m = None"
      "cm_params m = kTestParams\<lparr>cp_initial_difficulty := b_difficulty b\<rparr>"
  shows "\<exists>m'. adopt_branch sample_platform now m [b] = (m', Inr True) \<and> latest_hash m' = b_hash b \<and>
    cm_ledger m' = apply_new sample_openssl {} (cm_ledger m) (b_transactions b)"
proof -
  let ?bc = "new_Blockchain sample_openssl"
  have heavy: "is_fork_heavier ?bc (genesis_fork b)"
    using assms(3) by (simp add: is_fork_heavier_def fork_work_def word_neq_0_conv)
  obtain bc where r: "reorganize_to ?bc (genesis_fork b) = (bc, Some [])" and l: "b_hash (latest bc) = b_hash b"
    by (simp add: reorganize_to_def find_height_alt genesis_index Let_def latest_def add_block_def)
  have "\<exists>m'. try_reorg sample_platform m (genesis_fork b) = (m', Inr (Some [b_hash b])) \<and> cm_blockchain m' = bc \<and>
      cm_ledger m' = apply_new sample_openssl {} (cm_ledger m) (b_transactions b)"
    using assms(6) by (simp add: try_reorg_def m heavy r payment_hashes_def Let_def)
  then show ?thesis
    using genesis_fork_prefix [OF assms(1,2) refl] assms(4,5) l
    by (auto simp: adopt_branch_def m find_height_alt bc_has_block_def genesis_index bc_at_def vec_at_def
        keep_prefix_def latest_hash_def Let_def)
qed

definition hard_manager :: "mem_db ChainManager" where
  "hard_manager = (sample_manager None)\<lparr>cm_params := kTestParams\<lparr>cp_initial_difficulty := 250\<rparr>\<rparr>"

definition unmined_block :: Block where
  "unmined_block = sample_child (genesis_block sample_openssl) 100 250 []"

text \<open>C34: The sync path does not check proof of work: a branch of one block whose hash misses the required
  target is refused when submitted and adopted as the new tip when synced.\<close>

theorem sync_skips_proof_of_work:
  "\<not> meets_target (b_hash unmined_block) (b_difficulty unmined_block) \<and>
   submit_block sample_platform 200 hard_manager unmined_block = (hard_manager, Inr new_outcome) \<and>
   (\<exists>m'. adopt_branch sample_platform 200 hard_manager [unmined_block] = (m', Inr True) \<and>
      latest_hash m' = b_hash unmined_block)"
proof -
  have h: "b_hash unmined_block = sample_hash 96" by (simp add: unmined_block_def sample_child_hash)
  have sel: "b_prev_hash unmined_block = sample_hash 1" "b_difficulty unmined_block = 250"
    "b_timestamp unmined_block = 100" "b_transactions unmined_block = []"
    by (simp_all add: unmined_block_def)
  have e: "(8::nat) = Suc (Suc 6)" by simp
  have "scan_byte 8 0x80 96 248 = (249, True)" unfolding e scan_byte.simps by simp
  then have bad: "\<not> meets_target (sample_hash 96) 250" by (simp add: meets_target_def scan_sample_hash)
  moreover have "\<exists>m'. adopt_branch sample_platform 200 hard_manager [unmined_block] = (m', Inr True) \<and>
      latest_hash m' = b_hash unmined_block \<and>
      cm_ledger m' = apply_new sample_openssl {} (cm_ledger hard_manager) (b_transactions unmined_block)"
    by (rule adopt_genesis_fork) (simp_all add: h sel block_work_def hard_manager_def)
  ultimately show ?thesis by (auto simp: h sel submit_block_def)
qed

definition unfunded_block :: Block where
  "unfunded_block = sample_child (genesis_block sample_openssl) 6 1 [sample_tx 1 2 30 1 0]"

lemma unfunded_hash: "b_hash unfunded_block \<noteq> sample_hash 1"
proof -
  let ?tx = "sample_tx 1 2 30 1 0"
  let ?s = "sum_list (tx_serialize ?tx)"
  have len: "length (tx_serialize ?tx) = 170"
    by (simp add: tx_serialize_def serialize_for_signing_def sample_tx_def mk_Transaction_def
        derive_address_def sample_sha_def)
  have "sum_list (u64_le 6) = 6" "sum_list (u32_le 170) = 170" by (simp_all add: u64_le_small u32_le_small)
  then have "b_hash unfunded_block = sample_hash (180 + 2 * ?s)"
    by (simp add: unfunded_block_def sample_child_def Let_def block_compute_hash_def block_serialize_def mk_Block_def
      sample_sha_def u32_le_small u64_le_small size_le_def frame_def len algebra_simps)
  moreover have "even (180 + 2 * ?s)" by simp
  moreover have "odd (1 :: u8)" by simp
  ultimately show ?thesis by (metis append1_eq_conv)
qed

text \<open>C35: A reorganization does not check that the transactions of the new branch apply. A branch whose
  block spends coins nobody has is adopted as the tip, with the ledger as if it were empty; the same
  block is refused when it is submitted, and again when the chain is restored at the next start.\<close>

theorem reorg_adopts_unfunded_block:
  "(\<exists>m'. adopt_branch sample_platform 6 (sample_manager None) [unfunded_block] = (m', Inr True) \<and>
      latest_hash m' = b_hash unfunded_block \<and> cm_ledger m' = empty_ledger) \<and>
   submit_block sample_platform 6 (sample_manager None) unfunded_block = (sample_manager None, Inr new_outcome) \<and>
   restore_block sample_platform (sample_manager None) unfunded_block = (sample_manager None, Inr False)"
proof -
  let ?tx = "sample_tx 1 2 30 1 0" and ?m = "sample_manager None"
  have t: "b_transactions unfunded_block = [?tx]" "b_prev_hash unfunded_block = sample_hash 1"
    "b_difficulty unfunded_block = 1" "b_timestamp unfunded_block = 6"
    by (simp_all add: unfunded_block_def)
  have x: "tx_sender ?tx \<noteq> kCoinbaseSender"
    by (simp add: sample_tx_def mk_Transaction_def derive_address_not_coinbase)
  have a: "apply_transaction empty_ledger ?tx = (empty_ledger, False)"
    by (simp add: apply_transaction_alt balance_get sample_tx_def mk_Transaction_def derive_address_not_coinbase
        empty_ledger_def get_balance_def)
  then have b: "apply_block_to_ledger sample_openssl empty_ledger unfunded_block = (empty_ledger, Inr False)"
    by (simp add: apply_block_to_ledger_def t)
  have h: "b_hash unfunded_block \<noteq> sample_hash 1" by (rule unfunded_hash)
  have frame: "?m\<lparr>cm_ledger := empty_ledger\<rparr> = ?m" by (simp add: sample_manager_def)
  have "tip_rules sample_platform 6 ?m unfunded_block"
    unfolding unfunded_block_def by (rule sample_child_rules) (simp_all add: validate_coinbase_amount_def x)
  with b frame have "submit_block sample_platform 6 ?m unfunded_block = (?m, Inr new_outcome)"
    by (simp add: submit_block_def tip_rules_def Let_def)
  moreover have "restore_block sample_platform ?m unfunded_block = (?m, Inr False)"
    using b frame by (simp add: restore_block_def)
  moreover have "\<exists>m'. adopt_branch sample_platform 6 ?m [unfunded_block] = (m', Inr True) \<and>
      latest_hash m' = b_hash unfunded_block \<and>
      cm_ledger m' = apply_new sample_openssl {} (cm_ledger ?m) (b_transactions unfunded_block)"
    using t h x
    by (intro adopt_genesis_fork) (simp_all add: block_work_def sample_params_def)
  ultimately show ?thesis using a by (simp add: t)
qed

end
