(* ===== verification/FC_NodeInv.thy ===== *)
theory FC_NodeInv
  imports FC_Node FC_ChainProps
begin

text \<open>
  The invariant of a running node and that every turn of every thread keeps it: the chain manager's
  invariant, the address book's, that a catch-up buffers only blocks that carry their own hash, and that
  no two live connections lead to the same address. \<open>node_step\<close> lets the threads, the peers' messages and
  the commands take turns in any order.
\<close>

section \<open>The invariant\<close>

definition entry_address :: "('db, 'net) Node \<Rightarrow> PeerEntry \<Rightarrow> PeerAddress" where
  "entry_address n entry = peer_address (entry_peer n entry)"

definition conns_ok :: "('db, 'net) Node \<Rightarrow> bool" where
  "conns_ok n \<longleftrightarrow> (\<forall>e\<in>set (nd_peers n). pe_peer e < length (nd_store n)) \<and> distinct (map pe_peer (nd_peers n)) \<and>
     (\<forall>e\<in>set (nd_peers n). \<forall>e'\<in>set (nd_peers n). pr_alive (entry_peer n e) \<and> pr_alive (entry_peer n e') \<and>
        pa_port (entry_address n e) \<noteq> 0 \<and> entry_address n e = entry_address n e' \<longrightarrow> e = e')"

definition sync_ok :: "openssl \<Rightarrow> bytes set \<Rightarrow> SyncState \<Rightarrow> bool" where
  "sync_ok C S ss \<longleftrightarrow> (\<forall>b\<in>set (ss_buffer ss). sound_block C S b)"

definition node_inv :: "('db, 'net) world \<Rightarrow> bytes set \<Rightarrow> ('db, 'net) Node \<Rightarrow> bool" where
  "node_inv W S n \<longleftrightarrow> cm_inv (w_platform W) S (nd_chain n) \<and> book_inv (nd_address_book n) \<and>
     sync_ok (pf_crypto (w_platform W)) S (nd_sync_state n) \<and> conns_ok n"

text \<open>What a change of the peers' objects may do: peers may die, and new ones may appear.\<close>

definition store_le :: "Peer list \<Rightarrow> Peer list \<Rightarrow> bool" where
  "store_le st st' \<longleftrightarrow> length st \<le> length st' \<and>
     (\<forall>i<length st. peer_address (st' ! i) = peer_address (st ! i) \<and> (pr_alive (st' ! i) \<longrightarrow> pr_alive (st ! i)))"

lemma store_le_refl [simp]: "store_le st st"
  by (simp add: store_le_def)

lemma store_le_trans: "store_le a b \<Longrightarrow> store_le b c \<Longrightarrow> store_le a c"
  by (simp add: store_le_def)

lemma store_le_append [simp]: "store_le st (st @ [x])"
  by (simp add: store_le_def nth_append)

lemma store_le_update:
  "peer_address q = peer_address (st ! p) \<Longrightarrow> pr_alive q \<longrightarrow> pr_alive (st ! p) \<Longrightarrow> store_le st (st[p := q])"
  by (cases "p < length st") (auto simp: store_le_def nth_list_update)

lemma conns_ok_mono:
  assumes "conns_ok n" and "store_le (nd_store n) (nd_store n')" and "nd_peers n' = filter Q (nd_peers n)"
  shows "conns_ok n'"
proof -
  have old: "pe_peer e < length (nd_store n)" if "e \<in> set (nd_peers n)" for e
    using assms(1) that by (simp add: conns_ok_def)
  have "entry_address n' e = entry_address n e \<and> (pr_alive (entry_peer n' e) \<longrightarrow> pr_alive (entry_peer n e)) \<and>
      pe_peer e < length (nd_store n')" if "e \<in> set (nd_peers n)" for e
    using assms(2) old [OF that] by (auto simp: store_le_def entry_address_def)
  then show ?thesis
    using assms(1,3) unfolding conns_ok_def by (simp add: distinct_map_filter) blast
qed

lemma conns_ok_store: "conns_ok n \<Longrightarrow> store_le (nd_store n) st \<Longrightarrow> conns_ok (n\<lparr>nd_store := st\<rparr>)"
  by (rule conns_ok_mono [where Q = "\<lambda>_. True"]) simp_all

lemma conns_ok_frame [simp]:
  "conns_ok (n\<lparr>nd_net := a\<rparr>) \<longleftrightarrow> conns_ok n"
  "conns_ok (n\<lparr>nd_chain := b\<rparr>) \<longleftrightarrow> conns_ok n"
  "conns_ok (n\<lparr>nd_address_book := c\<rparr>) \<longleftrightarrow> conns_ok n"
  "conns_ok (n\<lparr>nd_sync_state := d\<rparr>) \<longleftrightarrow> conns_ok n"
  "conns_ok (n\<lparr>nd_sync := e\<rparr>) \<longleftrightarrow> conns_ok n"
  "conns_ok (n\<lparr>nd_running := f\<rparr>) \<longleftrightarrow> conns_ok n"
  "conns_ok (n\<lparr>nd_stopping := g\<rparr>) \<longleftrightarrow> conns_ok n"
  "conns_ok (n\<lparr>nd_listener := h\<rparr>) \<longleftrightarrow> conns_ok n"
  by (simp_all add: conns_ok_def entry_address_def)

lemma node_inv_frame [simp]:
  "node_inv W S (n\<lparr>nd_net := a\<rparr>) \<longleftrightarrow> node_inv W S n"
  "node_inv W S (n\<lparr>nd_sync := e\<rparr>) \<longleftrightarrow> node_inv W S n"
  "node_inv W S (n\<lparr>nd_running := f\<rparr>) \<longleftrightarrow> node_inv W S n"
  "node_inv W S (n\<lparr>nd_stopping := g\<rparr>) \<longleftrightarrow> node_inv W S n"
  "node_inv W S (n\<lparr>nd_listener := h\<rparr>) \<longleftrightarrow> node_inv W S n"
  by (simp_all add: node_inv_def)

lemma node_inv_chain: "node_inv W S n \<Longrightarrow> cm_inv (w_platform W) S m \<Longrightarrow> node_inv W S (n\<lparr>nd_chain := m\<rparr>)"
  by (simp add: node_inv_def)

lemma node_inv_book: "node_inv W S n \<Longrightarrow> book_inv b \<Longrightarrow> node_inv W S (n\<lparr>nd_address_book := b\<rparr>)"
  by (simp add: node_inv_def)

lemma node_inv_sync:
  "node_inv W S n \<Longrightarrow> sync_ok (pf_crypto (w_platform W)) S ss \<Longrightarrow> node_inv W S (n\<lparr>nd_sync_state := ss\<rparr>)"
  by (simp add: node_inv_def)

lemma node_inv_store: "node_inv W S n \<Longrightarrow> store_le (nd_store n) st \<Longrightarrow> node_inv W S (n\<lparr>nd_store := st\<rparr>)"
  using conns_ok_store [of n st] by (simp add: node_inv_def)

lemma node_inv_filter: "node_inv W S n \<Longrightarrow> node_inv W S (n\<lparr>nd_peers := filter Q (nd_peers n)\<rparr>)"
  using conns_ok_mono [of n "n\<lparr>nd_peers := filter Q (nd_peers n)\<rparr>" Q] by (simp add: node_inv_def)

lemma node_inv_parts:
  assumes "node_inv W S n"
  shows "cm_inv (w_platform W) S (nd_chain n)" "book_inv (nd_address_book n)"
    "sync_ok (pf_crypto (w_platform W)) S (nd_sync_state n)" "conns_ok n"
  using assms by (simp_all add: node_inv_def)

section \<open>What sending and closing change\<close>

lemma foldl_keeps: "(\<And>n x. Q n \<Longrightarrow> Q (f n x)) \<Longrightarrow> Q n \<Longrightarrow> Q (foldl f n xs)"
  by (induction xs arbitrary: n) auto

lemma send_msg_net: obtains net ok where "send_msg W n p t b = (n\<lparr>nd_net := net\<rparr>, ok)"
  by (cases "send_message (w_os W) (nd_net n) (pr_socket (peer_of n p)) \<lparr>msg_type = t, msg_payload = b\<rparr>")
    (simp add: send_msg_def)

lemma send_msg_inv: "node_inv W S n \<Longrightarrow> node_inv W S (fst (send_msg W n p t b))"
  by (rule send_msg_net [of W n p t b]) simp

lemma send_to_all_inv: "node_inv W S n \<Longrightarrow> node_inv W S (send_to_all W n ps t b)"
  unfolding send_to_all_def by (rule foldl_keeps [where Q = "node_inv W S"]) (simp_all add: send_msg_inv)

lemma send_each_inv: "node_inv W S n \<Longrightarrow> node_inv W S (send_each W n p msgs)"
  unfolding send_each_def by (rule foldl_keeps [where Q = "node_inv W S"]) (auto simp: send_msg_inv)

lemma broadcast_inv_inv: "node_inv W S n \<Longrightarrow> node_inv W S (broadcast_inv W n ex t h)"
  by (simp add: broadcast_inv_def Let_def send_to_all_inv)

lemma broadcasts_inv: "node_inv W S n \<Longrightarrow> node_inv W S (foldl (\<lambda>n h. broadcast_inv W n ex t h) n hs)"
  by (rule foldl_keeps [where Q = "node_inv W S"]) (simp_all add: broadcast_inv_inv)

lemma send_peer_list_inv: "node_inv W S n \<Longrightarrow> node_inv W S (send_peer_list W n p a)"
  by (simp add: send_peer_list_def Let_def send_msg_inv)

lemma gossip_peers_inv: "node_inv W S n \<Longrightarrow> node_inv W S (gossip_peers W n)"
  unfolding gossip_peers_def Let_def
  by (rule foldl_keeps [where Q = "node_inv W S"]) (simp_all add: send_peer_list_inv)

lemma mark_dead_inv: "node_inv W S n \<Longrightarrow> node_inv W S (mark_dead n p)"
  by (simp add: mark_dead_def node_inv_store store_le_update)

lemma close_peer_alt:
  obtains net fd where "close_peer W n p = n\<lparr>nd_net := net, nd_store := (nd_store n)[p := (peer_of n p)\<lparr>pr_socket := fd\<rparr>]\<rparr>"
  by (cases "close_socket (w_tcp W) (nd_net n) (pr_socket (peer_of n p))") (simp add: close_peer_def)

lemma close_peer_peers [simp]: "nd_peers (close_peer W n p) = nd_peers n"
  by (simp add: close_peer_def split: prod.splits)

lemma close_peer_inv: "node_inv W S n \<Longrightarrow> node_inv W S (close_peer W n p)"
  by (rule close_peer_alt [of W n p]) (simp add: node_inv_store store_le_update)

lemma drop_socket_inv: "node_inv W S n \<Longrightarrow> node_inv W S (drop_socket W n fd)"
  by (simp add: drop_socket_def)

lemmas sending_inv = send_msg_inv send_to_all_inv send_each_inv broadcast_inv_inv broadcasts_inv
  send_peer_list_inv gossip_peers_inv mark_dead_inv close_peer_inv drop_socket_inv

section \<open>Handlers\<close>

lemma decoded_block_sound:
  assumes "node_inv W S n" and "block_deserialize (pf_crypto (w_platform W)) payload = Some b" and "payload \<in> S"
  shows "sound_block (pf_crypto (w_platform W)) S b" and "block_serialize b \<in> S" and "length (b_prev_hash b) = 32"
  using block_deserialize_sound [OF assms(2)] cm_inv_collision_free [OF node_inv_parts(1) [OF assms(1)]] assms(3)
  by (auto simp: sound_block_def wf_block_def)

lemma buffer_block_ok: "sync_ok C S ss \<Longrightarrow> sound_block C S b \<Longrightarrow> sync_ok C S (buffer_block now ss b)"
  by (auto simp: sync_ok_def buffer_block_def Let_def)

lemma handle_block_inv:
  assumes "iteration_ok (pf_iter (w_platform W))" and "node_inv W S n" and "payload \<in> S"
    and "handle_block W n p payload = (n', r)"
  shows "node_inv W S n'"
proof (cases "block_deserialize (pf_crypto (w_platform W)) payload")
  case None
  then show ?thesis using assms(2,4) by (auto simp: handle_block_def Let_def split: if_splits)
next
  case (Some b)
  note sound = decoded_block_sound [OF assms(2) Some assms(3)]
  show ?thesis
  proof (cases "ss_active (nd_sync_state n) \<and> ss_peer (nd_sync_state n) = Some p")
    case True
    then have "n' = n\<lparr>nd_sync_state := buffer_block (node_now W n) (nd_sync_state n) b\<rparr>"
      using assms(4) Some by (simp add: handle_block_def Let_def)
    then show ?thesis
      using assms(2) buffer_block_ok [OF node_inv_parts(3) [OF assms(2)] sound(1)] by (simp add: node_inv_sync)
  next
    case False
    obtain m q where m: "submit_block (w_platform W) (w_unix_time W (nd_net n)) (nd_chain n) b = (m, q)"
      by (cases "submit_block (w_platform W) (w_unix_time W (nd_net n)) (nd_chain n) b")
    have "cm_inv (w_platform W) S m"
      using submit_block_inv [OF node_inv_parts(1) [OF assms(2)] assms(1) sound(2,3) m] .
    then have "node_inv W S (n\<lparr>nd_chain := m\<rparr>)" using assms(2) by (rule node_inv_chain [rotated])
    then show ?thesis
      using assms(4) False Some m
      by (auto simp: handle_block_def Let_def sending_inv split: sum.splits Status.splits option.splits)
  qed
qed

lemma submit_tx_inv:
  assumes "node_inv W S n" and "submit_transaction (w_platform W) (nd_chain n) tx = (m, r)"
  shows "node_inv W S (n\<lparr>nd_chain := m\<rparr>)"
  using assms submit_transaction_inv [OF node_inv_parts(1) [OF assms(1)] assms(2)] by (simp add: node_inv_chain)

lemma handle_tx_inv:
  assumes "node_inv W S n" and "handle_tx W n p payload = (n', r)"
  shows "node_inv W S n'"
  using assms submit_tx_inv [OF assms(1)]
  by (auto simp: handle_tx_def sending_inv split: option.splits prod.splits sum.splits bool.splits)

lemma handle_peers_inv:
  assumes "node_inv W S n" and "handle_peers W n p payload = (n', r)"
  shows "node_inv W S n'"
proof -
  have "book_inv (foldl (\<lambda>book a. fst (book_add pton now book a t)) (nd_address_book n) as)" for pton now t as
    using node_inv_parts(2) [OF assms(1)]
    by (intro foldl_keeps [where Q = book_inv]) (simp_all add: book_add_inv)
  then show ?thesis
    using assms by (auto simp: handle_peers_def Let_def node_inv_book split: sum.splits option.splits)
qed

lemma handle_message_inv:
  assumes "iteration_ok (pf_iter (w_platform W))" and "node_inv W S n"
    and "msg_type msg = BLOCK \<Longrightarrow> msg_payload msg \<in> S" and "handle_message W n p msg = (n', r)"
  shows "node_inv W S n'"
  using assms
  by (cases "msg_type msg")
    (auto simp: handle_message_def handle_inv_def handle_getdata_def handle_getblocks_def handle_ping_def sending_inv
      Let_def intro: handle_block_inv handle_tx_inv handle_peers_inv split: option.splits sum.splits if_splits)

lemma peer_loop_turn_inv:
  assumes "iteration_ok (pf_iter (w_platform W))" and "node_inv W S n"
    and blocks: "\<And>net msg. receive_message (w_os W) (nd_net n) (pr_socket (peer_of n p)) = Some (net, Some msg) \<Longrightarrow>
      msg_type msg = BLOCK \<Longrightarrow> msg_payload msg \<in> S"
    and "peer_loop_turn W n p = Some (n', r)"
  shows "node_inv W S n'"
proof (cases "nd_running n \<and> pr_alive (peer_of n p)")
  case True
  then obtain net msg where rec: "receive_message (w_os W) (nd_net n) (pr_socket (peer_of n p)) = Some (net, msg)"
    using assms(4) by (auto simp: peer_loop_turn_def split: bind_splits)
  let ?n = "n\<lparr>nd_net := net\<rparr>"
  show ?thesis
  proof (cases msg)
    case None
    then show ?thesis using assms(2,4) True rec by (auto simp: peer_loop_turn_def mark_dead_inv)
  next
    case (Some msg')
    let ?n' = "?n\<lparr>nd_store := (nd_store n)[p := touch (node_now W ?n) (peer_of n p)]\<rparr>"
    have "node_inv W S ?n'" using assms(2) by (intro node_inv_store) (simp_all add: store_le_update touch_def)
    moreover have "handle_message W ?n' p msg' = (n', r)"
      using assms(4) True rec Some by (simp add: peer_loop_turn_def)
    ultimately show ?thesis using handle_message_inv [OF assms(1)] blocks rec Some by blast
  qed
qed (use assms(2,4) in \<open>simp add: peer_loop_turn_def\<close>)

section \<open>Catching up\<close>

lemma new_sync_ok [simp]: "sync_ok C S new_SyncState"
  by (simp add: sync_ok_def new_SyncState_def)

lemma ask_blocks_inv: "node_inv W S n \<Longrightarrow> ask_blocks W n p = (n', r) \<Longrightarrow> node_inv W S n'"
  by (rule send_msg_net [of W "n\<lparr>nd_sync_state := \<lparr>ss_active = True, ss_peer = Some p, ss_buffer = [],
      ss_last_block = node_now W n\<rparr>\<rparr>" p GETBLOCKS "serialize_getblocks (projr (cm_locator (nd_chain n)))"])
    (auto simp: ask_blocks_def start_sync_state_def reset_sync_state_def sync_ok_def new_SyncState_def
      intro!: node_inv_sync split: if_splits sum.splits)

lemma request_sync_inv: "node_inv W S n \<Longrightarrow> request_sync W n = (n', r) \<Longrightarrow> node_inv W S n'"
  by (auto simp: request_sync_def Let_def intro: ask_blocks_inv [rotated] split: if_splits)

lemma finish_sync_inv:
  assumes "node_inv W S n" and "finish_sync_if_due W n = (n', r)"
  shows "node_inv W S n'"
proof -
  let ?ss = "nd_sync_state n"
  obtain m q where m: "adopt_branch (w_platform W) (w_unix_time W (nd_net n)) (nd_chain n) (ss_buffer ?ss) = (m, q)"
    by (cases "adopt_branch (w_platform W) (w_unix_time W (nd_net n)) (nd_chain n) (ss_buffer ?ss)")
  have "cm_inv (w_platform W) S m"
    using adopt_branch_inv [OF node_inv_parts(1) [OF assms(1)] _ m] node_inv_parts(3) [OF assms(1)]
    by (simp add: sync_ok_def)
  moreover have "node_inv W S (reset_sync_state n)" using assms(1) by (simp add: reset_sync_state_def node_inv_sync)
  ultimately show ?thesis
    using assms m by (auto simp: finish_sync_if_due_def Let_def reset_sync_state_def node_inv_chain split: if_splits)
qed

section \<open>Connections\<close>

lemma duplicate_alt:
  "duplicate_of n host port e \<longleftrightarrow> pr_alive (entry_peer n e) \<and> pa_port (entry_address n e) \<noteq> 0 \<and>
     entry_address n e = \<lparr>pa_host = host, pa_port = port\<rparr>"
  by (auto simp: duplicate_of_def entry_address_def)

lemma conns_ok_add:
  assumes "conns_ok n" and "p < length (nd_store n)" and "\<forall>e\<in>set (nd_peers n). pe_peer e \<noteq> p"
    and "\<forall>e\<in>set (nd_peers n). \<not> duplicate_of n (pa_host a) (pa_port a) e" and "peer_address (peer_of n p) = a"
  shows "conns_ok (n\<lparr>nd_peers := nd_peers n @ [\<lparr>pe_peer = p, pe_is_outbound = out\<rparr>]\<rparr>)"
proof -
  let ?n = "n\<lparr>nd_peers := nd_peers n @ [\<lparr>pe_peer = p, pe_is_outbound = out\<rparr>]\<rparr>"
  have same: "entry_address ?n e = entry_address n e" for e by (simp add: entry_address_def)
  have new: "entry_address n \<lparr>pe_peer = p, pe_is_outbound = out\<rparr> = a" using assms(5) by (simp add: entry_address_def)
  have no: "entry_address n e \<noteq> a"
    if "e \<in> set (nd_peers n)" "pr_alive (entry_peer n e)" "pa_port (entry_address n e) \<noteq> 0" for e
    using assms(4) that by (auto simp: duplicate_alt)
  show ?thesis using assms(1-3) new unfolding conns_ok_def same by (auto dest: no)
qed

lemma admit_peer_inv:
  assumes "node_inv W S n" and "p < length (nd_store n)" and "\<forall>e\<in>set (nd_peers n). pe_peer e < p"
    and "peer_address (peer_of n p) = \<lparr>pa_host = host, pa_port = vi_listen_port incoming\<rparr>"
    and "admit_peer W n p incoming host out = (n', ok)"
  shows "node_inv W S n'"
proof (cases "find (duplicate_of n host (vi_listen_port incoming)) (nd_peers n)")
  case None
  then have "\<forall>e\<in>set (nd_peers n). \<not> duplicate_of n host (vi_listen_port incoming) e" by (simp add: find_None_iff)
  then have "conns_ok (n\<lparr>nd_peers := nd_peers n @ [\<lparr>pe_peer = p, pe_is_outbound = out\<rparr>]\<rparr>)"
    using assms by (intro conns_ok_add [OF node_inv_parts(4) [OF assms(1)] assms(2)]) auto
  then show ?thesis using assms(1,5) None by (auto simp: admit_peer_def Let_def node_inv_def)
next
  case (Some old)
  let ?dup = "duplicate_of n host (vi_listen_port incoming)"
  let ?q = "pe_peer old"
  have old: "old \<in> set (nd_peers n)" "?dup old" using Some by (auto simp: find_Some_iff)
  have only: "e = old" if "e \<in> set (nd_peers n)" "?dup e" for e
    using node_inv_parts(4) [OF assms(1)] that old by (auto simp: conns_ok_def duplicate_alt)
  obtain net fd where c: "close_peer W (mark_dead n ?q) ?q = (mark_dead n ?q)\<lparr>nd_net := net,
      nd_store := (nd_store (mark_dead n ?q))[?q := (peer_of (mark_dead n ?q) ?q)\<lparr>pr_socket := fd\<rparr>]\<rparr>"
    by (rule close_peer_alt)
  let ?n = "close_peer W (mark_dead n ?q) ?q"
  have q: "?q < p" using assms(3) old(1) by simp
  have inv: "node_inv W S ?n" using assms(1) by (simp add: sending_inv)
  have st: "nd_peers ?n = nd_peers n" "length (nd_store ?n) = length (nd_store n)"
    "\<And>i. i \<noteq> ?q \<Longrightarrow> nd_store ?n ! i = nd_store n ! i" "\<not> pr_alive (nd_store ?n ! ?q)"
    using q assms(2) unfolding c by (simp_all add: mark_dead_def)
  have "\<not> duplicate_of ?n host (vi_listen_port incoming) e" if e: "e \<in> set (nd_peers n)" for e
  proof (cases "pe_peer e = ?q")
    case True
    then show ?thesis using st(4) by (simp add: duplicate_alt)
  next
    case False
    then have "duplicate_of ?n host (vi_listen_port incoming) e = ?dup e" using st(3) by (simp add: duplicate_of_def)
    then show ?thesis using only [OF e] False by auto
  qed
  then have "conns_ok (?n\<lparr>nd_peers := nd_peers ?n @ [\<lparr>pe_peer = p, pe_is_outbound = out\<rparr>]\<rparr>)"
    using assms(2-4) st q by (intro conns_ok_add [OF node_inv_parts(4) [OF inv]]) auto
  then have "node_inv W S (?n\<lparr>nd_peers := nd_peers ?n @ [\<lparr>pe_peer = p, pe_is_outbound = out\<rparr>]\<rparr>)"
    using inv by (simp add: node_inv_def)
  then show ?thesis using assms(1,5) Some by (auto simp: admit_peer_def Let_def split: if_splits)
qed

lemma learn_address_inv: "node_inv W S n \<Longrightarrow> node_inv W S (learn_address W n a out)"
  using node_inv_parts(2) [of W S n]
  by (simp add: learn_address_def Let_def node_inv_book book_add_inv mark_success_inv)

lemma remember_peer_inv: "node_inv W S n \<Longrightarrow> node_inv W S (remember_peer W n host port)"
  using node_inv_parts(2) [of W S n] by (simp add: remember_peer_def node_inv_book book_add_inv)

lemma book_result_inv: "node_inv W S n \<Longrightarrow> node_inv W S (book_result W n a ok)"
  using node_inv_parts(2) [of W S n] by (simp add: book_result_def node_inv_book mark_success_inv mark_failure_inv)

text \<open>A peer that got through the handshake, from the moment its object exists.\<close>

lemma register_tail_inv:
  assumes "node_inv W S n" and "n1 = n\<lparr>nd_store := nd_store n @ [new_Peer now fd incoming host]\<rparr>"
    and "admit_peer W n1 (length (nd_store n)) incoming host out = (n', ok)"
  shows "node_inv W S n'"
proof (rule admit_peer_inv [OF _ _ _ _ assms(3)])
  show "node_inv W S n1" unfolding assms(2) using assms(1) by (simp add: node_inv_store)
  show "\<forall>e\<in>set (nd_peers n1). pe_peer e < length (nd_store n)"
    using node_inv_parts(4) [OF assms(1)] by (simp add: assms(2) conns_ok_def)
qed (simp_all add: assms(2) new_Peer_def)

lemma register_new_peer_inv:
  assumes "node_inv W S n" and "register_new_peer W n fd host out = Some (n', r)"
  shows "node_inv W S n'"
proof (cases "is_valid fd")
  case True
  let ?h = "word_of_nat (chain_height (nd_chain n)) :: u64"
  obtain net q where hs: "perform_handshake (w_os W) (set_receive_timeout (w_tcp W) (nd_net n) fd 5) fd
      ((nd_info n)\<lparr>vi_chain_height := ?h\<rparr>) = Some (net, q)"
    using assms(2) True by (auto simp: register_new_peer_def Let_def split: bind_splits)
  let ?n = "n\<lparr>nd_net := net\<rparr>"
  have inv: "node_inv W S ?n" using assms(1) by simp
  show ?thesis
  proof (cases "\<exists>incoming. q = Inr (Some incoming) \<and> vi_node_id (nd_info n) \<noteq> vi_node_id incoming")
    case False
    then show ?thesis
      using assms True hs inv
      by (auto simp: register_new_peer_def Let_def sending_inv split: sum.splits option.splits if_splits)
  next
    case True': True
    then obtain incoming where q: "q = Inr (Some incoming)" "vi_node_id (nd_info n) \<noteq> vi_node_id incoming" by blast
    let ?p = "length (nd_store n)" and ?a = "\<lparr>pa_host = host, pa_port = vi_listen_port incoming\<rparr>"
    let ?n1 = "?n\<lparr>nd_store := nd_store ?n @ [new_Peer (node_now W ?n) fd incoming host]\<rparr>"
    obtain n2 ok where a: "admit_peer W ?n1 ?p incoming host out = (n2, ok)"
      by (cases "admit_peer W ?n1 ?p incoming host out")
    have n1: "node_inv W S ?n1" using inv by (intro node_inv_store) simp_all
    have n2: "node_inv W S n2" using register_tail_inv [OF inv refl] a by simp
    have n3: "node_inv W S (send_peer_list W (learn_address W n2 ?a out) ?p ?a)"
      using n2 by (simp add: sending_inv learn_address_inv)
    show ?thesis
    proof (cases "ask_blocks W (send_peer_list W (learn_address W n2 ?a out) ?p ?a) ?p")
      case (Pair n4 r4)
      then have "node_inv W S n4" using n3 by (rule ask_blocks_inv [rotated])
      then show ?thesis
        using assms(2) True hs q a n1 n2 n3 Pair
        by (auto simp: register_new_peer_def Let_def close_peer_inv split: if_splits bool.splits)
    qed
  qed
qed (use assms in \<open>simp add: register_new_peer_def\<close>)

lemma accept_one_peer_inv: "node_inv W S n \<Longrightarrow> accept_one_peer W n = Some (n', r) \<Longrightarrow> node_inv W S n'"
  by (auto simp: accept_one_peer_def Let_def sending_inv intro: register_new_peer_inv [rotated]
      split: prod.splits option.splits)

lemma connect_to_peer_inv: "node_inv W S n \<Longrightarrow> connect_to_peer W n host port = Some (n', r) \<Longrightarrow> node_inv W S n'"
  by (auto simp: connect_to_peer_def Let_def remember_peer_inv intro: register_new_peer_inv [rotated]
      split: if_splits bind_splits)

section \<open>The threads\<close>

lemma cleaner_turn_inv:
  assumes "node_inv W S n" and "cleaner_turn W n = (n', r)"
  shows "node_inv W S n'"
proof -
  let ?n = "foldl (close_peer W) n (map pe_peer (filter (\<lambda>e. \<not> pr_alive (entry_peer n e)) (nd_peers n)))"
  have n: "node_inv W S ?n \<and> nd_peers ?n = nd_peers n"
    using assms(1)
    by (intro foldl_keeps [where Q = "\<lambda>m. node_inv W S m \<and> nd_peers m = nd_peers n"]) (simp_all add: close_peer_inv)
  then have "node_inv W S (?n\<lparr>nd_peers := filter (\<lambda>e. pr_alive (entry_peer n e)) (nd_peers n)\<rparr>)"
    using node_inv_filter [of W S ?n "\<lambda>e. pr_alive (entry_peer n e)"] by simp
  then show ?thesis using assms(2) unfolding cleaner_turn_def Let_def by (rule finish_sync_inv)
qed

lemma ping_peers_inv:
  assumes "node_inv W S n"
  shows "node_inv W S (ping_peers W n)"
proof -
  have "node_inv W S (foldl mark_dead n ps)" for ps
    using assms by (intro foldl_keeps [where Q = "node_inv W S"]) (simp_all add: mark_dead_inv)
  then show ?thesis by (simp add: ping_peers_def Let_def send_to_all_inv)
qed

lemma sync_when_due_inv:
  assumes "node_inv W S n" and "sync_when_due W n now = (n', r)"
  shows "node_inv W S n'"
proof (cases "request_sync W n")
  case (Pair n1 q)
  then have "node_inv W S n1" using request_sync_inv [OF assms(1)] by simp
  then show ?thesis using assms Pair by (auto simp: sync_when_due_def split: if_splits sum.splits)
qed

lemma ping_turn_inv:
  assumes "node_inv W S n" and "ping_turn W n t = (n', t', r)"
  shows "node_inv W S n'"
proof (cases "sync_when_due W (ping_peers W n) (node_now W (ping_peers W n))")
  case (Pair n1 q)
  then have "node_inv W S n1" using sync_when_due_inv ping_peers_inv [OF assms(1)] by blast
  then show ?thesis
    using assms(2) Pair by (auto simp: ping_turn_def Let_def gossip_peers_inv split: if_splits sum.splits)
qed

lemma dial_candidate_inv:
  assumes "node_inv W S n" and "dial_candidate W n a = Some (n', r)"
  shows "node_inv W S n'"
proof -
  obtain net fd where c: "connect_to (w_tcp W) (nd_net n) (pa_host a) (pa_port a) = Some (net, fd)"
    using assms(2) by (auto simp: dial_candidate_def split: bind_splits)
  let ?n = "n\<lparr>nd_net := net\<rparr>"
  show ?thesis
  proof (cases "already_connected n (pa_host a) (pa_port a)")
    case True
    then have "n' = drop_socket W (book_result W ?n a (is_valid fd)) fd"
      using assms(2) c by (simp add: dial_candidate_def)
    then show ?thesis using assms(1) by (simp add: drop_socket_inv book_result_inv)
  next
    case False
    then obtain n1 q where reg: "register_new_peer W ?n fd (pa_host a) True = Some (n1, q)"
      using assms(2) c by (auto simp: dial_candidate_def split: bind_splits)
    then have "node_inv W S n1" using assms(1) by (intro register_new_peer_inv [OF _ reg]) simp
    then show ?thesis using assms(2) c False reg by (auto simp: dial_candidate_def book_result_inv split: sum.splits)
  qed
qed

lemma dial_loop_inv:
  assumes "dial_loop W n = Some y" and "node_inv W S n"
  shows "node_inv W S (fst y)"
proof -
  have "node_inv W S n \<longrightarrow> node_inv W S (fst y)"
  proof (rule dial_loop.raw_induct [where P = "\<lambda>W n y. node_inv W S n \<longrightarrow> node_inv W S (fst y)", OF _ assms(1)])
    fix f :: "('a, 'b) world \<Rightarrow> ('a, 'b) Node \<Rightarrow> (('a, 'b) Node \<times> unit result) option" and W n y
    assume IH: "\<And>W n y. f W n = Some y \<Longrightarrow> node_inv W S n \<longrightarrow> node_inv W S (fst y)"
      and body: "(if \<not> outbound_peer_count n < TARGET_OUTBOUND_PEERS then Some (n, Inr ())
        else case select_candidate (node_now W n) (nd_address_book n) of
          (book, None) \<Rightarrow> Some (n\<lparr>nd_address_book := book\<rparr>, Inr ())
        | (book, Some address) \<Rightarrow> dial_candidate W (n\<lparr>nd_address_book := book\<rparr>) address \<bind>
            (\<lambda>(n, r). case r of Inl e \<Rightarrow> Some (n, Inl e) | Inr _ \<Rightarrow> f W n)) = Some y"
    show "node_inv W S n \<longrightarrow> node_inv W S (fst y)"
    proof
      assume n: "node_inv W S n"
      obtain book c where s: "select_candidate (node_now W n) (nd_address_book n) = (book, c)" by fastforce
      have b: "node_inv W S (n\<lparr>nd_address_book := book\<rparr>)"
        using n select_candidate_inv [OF node_inv_parts(2) [OF n], of "node_now W n"] s by (simp add: node_inv_book)
      show "node_inv W S (fst y)"
      proof (cases "outbound_peer_count n < TARGET_OUTBOUND_PEERS \<and> c \<noteq> None")
        case True
        then obtain a where c: "c = Some a" by blast
        with body s True obtain n1 q where d: "dial_candidate W (n\<lparr>nd_address_book := book\<rparr>) a = Some (n1, q)"
          by (auto split: bind_splits)
        from dial_candidate_inv [OF b d] have "node_inv W S n1" .
        then show ?thesis using body s True c d IH by (cases q) auto
      qed (use body n b s in \<open>auto split: if_splits\<close>)
    qed
  qed
  then show ?thesis using assms(2) by simp
qed

lemma node_submit_block_inv:
  assumes "iteration_ok (pf_iter (w_platform W))" and "node_inv W S n"
    and "block_serialize b \<in> S" and "length (b_prev_hash b) = 32" and "node_submit_block W n b = (n', r)"
  shows "node_inv W S n'"
proof -
  obtain m q where m: "submit_block (w_platform W) (w_unix_time W (nd_net n)) (nd_chain n) b = (m, q)"
    by (cases "submit_block (w_platform W) (w_unix_time W (nd_net n)) (nd_chain n) b")
  have "node_inv W S (n\<lparr>nd_chain := m\<rparr>)"
    using assms(2) submit_block_inv [OF node_inv_parts(1) [OF assms(2)] assms(1,3,4) m] by (rule node_inv_chain)
  then show ?thesis using assms(5) m by (auto simp: node_submit_block_def broadcasts_inv split: sum.splits)
qed

lemma node_submit_transaction_inv:
  assumes "node_inv W S n" and "node_submit_transaction W n tx = (n', r)"
  shows "node_inv W S n'"
  using assms submit_tx_inv [OF assms(1)]
  by (auto simp: node_submit_transaction_def sending_inv split: prod.splits sum.splits bool.splits)

lemma node_stop_inv: "node_inv W S n \<Longrightarrow> node_inv W S (node_stop W n)"
proof -
  assume n: "node_inv W S n"
  obtain net fd where c: "close_socket (w_tcp W) (nd_net n) (nd_listener n) = (net, fd)" by fastforce
  let ?n = "n\<lparr>nd_running := False, nd_net := net, nd_listener := fd, nd_stopping := True\<rparr>"
  have "node_inv W S (foldl (close_peer W) ?n ps)" for ps
    using n by (intro foldl_keeps [where Q = "node_inv W S"]) (simp_all add: close_peer_inv)
  then show ?thesis by (simp add: node_stop_def c Let_def node_inv_def conns_ok_def)
qed

inductive node_step :: "('db, 'net) world \<Rightarrow> bytes set \<Rightarrow> ('db, 'net) Node \<Rightarrow> ('db, 'net) Node \<Rightarrow> bool"
  for W :: "('db, 'net) world" and S :: "bytes set" where
  peer: "peer_loop_turn W n p = Some (n', r) \<Longrightarrow>
    (\<And>net msg. receive_message (w_os W) (nd_net n) (pr_socket (peer_of n p)) = Some (net, Some msg) \<Longrightarrow>
      msg_type msg = BLOCK \<Longrightarrow> msg_payload msg \<in> S) \<Longrightarrow> node_step W S n n'"
| cleaner: "cleaner_turn W n = (n', r) \<Longrightarrow> node_step W S n n'"
| ping: "ping_turn W n last_gossip = (n', t, r) \<Longrightarrow> node_step W S n n'"
| connect: "dial_loop W n = Some (n', r) \<Longrightarrow> node_step W S n n'"
| accept: "accept_one_peer W n = Some (n', r) \<Longrightarrow> node_step W S n n'"
| connect_to: "connect_to_peer W n host port = Some (n', r) \<Longrightarrow> node_step W S n n'"
| submit_block: "node_submit_block W n b = (n', r) \<Longrightarrow> block_serialize b \<in> S \<Longrightarrow> length (b_prev_hash b) = 32 \<Longrightarrow>
    node_step W S n n'"
| submit_transaction: "node_submit_transaction W n tx = (n', r) \<Longrightarrow> node_step W S n n'"
| remember: "node_step W S n (remember_peer W n host port)"
| start: "node_start W n = (n', ok) \<Longrightarrow> node_step W S n n'"
| stop: "node_step W S n (node_stop W n)"
| network: "node_step W S n (n\<lparr>nd_net := net\<rparr>)"

lemma node_start_inv: "node_inv W S n \<Longrightarrow> node_start W n = (n', ok) \<Longrightarrow> node_inv W S n'"
  by (auto simp: node_start_def Let_def split: prod.splits if_splits)

lemma node_step_inv:
  assumes "iteration_ok (pf_iter (w_platform W))" and "node_step W S n n'" and "node_inv W S n"
  shows "node_inv W S n'"
  using assms(2)
proof cases
  case (peer p r)
  show ?thesis by (rule peer_loop_turn_inv [OF assms(1,3) peer(2) peer(1)])
next
  case (cleaner r)
  then show ?thesis by (rule cleaner_turn_inv [OF assms(3)])
next
  case (ping t t' r)
  then show ?thesis by (rule ping_turn_inv [OF assms(3)])
next
  case (connect r)
  then show ?thesis using dial_loop_inv [OF connect assms(3)] by simp
next
  case (accept r)
  then show ?thesis by (rule accept_one_peer_inv [OF assms(3)])
next
  case (connect_to host port r)
  then show ?thesis by (rule connect_to_peer_inv [OF assms(3)])
next
  case (submit_block b r)
  show ?thesis by (rule node_submit_block_inv [OF assms(1,3) submit_block(2,3,1)])
next
  case (submit_transaction tx r)
  then show ?thesis by (rule node_submit_transaction_inv [OF assms(3)])
next
  case (start ok)
  then show ?thesis by (rule node_start_inv [OF assms(3)])
qed (use assms(3) in \<open>simp_all add: remember_peer_inv node_stop_inv\<close>)

lemma node_reach_inv:
  assumes "iteration_ok (pf_iter (w_platform W))" and "rtranclp (node_step W S) n n'" and "node_inv W S n"
  shows "node_inv W S n'"
  using assms(2,3) by (induction rule: rtranclp_induct) (auto intro: node_step_inv [OF assms(1)])

section \<open>A running node\<close>

lemma new_Node_inv:
  "cm_inv (w_platform W) S m \<Longrightarrow> node_inv W S (new_Node now net port info m)"
  by (simp add: node_inv_def new_Node_def conns_ok_def book_inv_def)

text \<open>What the invariant says of a node: the chain, the address book, the catch-up buffer and the connections.\<close>

lemma node_inv_safe:
  assumes "node_inv W S n"
  shows "bc_is_valid (pf_crypto (w_platform W)) (cm_blockchain (nd_chain n))"
    and "hd (bc_blocks (cm_blockchain (nd_chain n))) = genesis_block (pf_crypto (w_platform W))"
    and "book_size (nd_address_book n) \<le> 1000" and "distinct (map ae_address (nd_address_book n))"
    and "b \<in> set (ss_buffer (nd_sync_state n)) \<Longrightarrow> b_hash b = block_compute_hash (pf_crypto (w_platform W)) b"
    and "e \<in> set (nd_peers n) \<Longrightarrow> e' \<in> set (nd_peers n) \<Longrightarrow> pr_alive (entry_peer n e) \<Longrightarrow> pr_alive (entry_peer n e') \<Longrightarrow>
      pa_port (entry_address n e) \<noteq> 0 \<Longrightarrow> entry_address n e = entry_address n e' \<Longrightarrow> e = e'"
proof -
  have c: "chain_inv (pf_crypto (w_platform W)) S (cm_blockchain (nd_chain n))"
    using node_inv_parts(1) [OF assms] by (simp add: cm_inv_def)
  show "bc_is_valid (pf_crypto (w_platform W)) (cm_blockchain (nd_chain n))" by (rule chain_inv_valid [OF c])
  show "hd (bc_blocks (cm_blockchain (nd_chain n))) = genesis_block (pf_crypto (w_platform W))"
    using c by (auto simp: chain_inv_def)
  show "book_size (nd_address_book n) \<le> 1000" "distinct (map ae_address (nd_address_book n))"
    using node_inv_parts(2) [OF assms] by (simp_all add: book_inv_def book_size_def MAX_ENTRIES_def)
  show "b \<in> set (ss_buffer (nd_sync_state n)) \<Longrightarrow> b_hash b = block_compute_hash (pf_crypto (w_platform W)) b"
    using node_inv_parts(3) [OF assms] by (simp add: sync_ok_def sound_block_def)
  show "e \<in> set (nd_peers n) \<Longrightarrow> e' \<in> set (nd_peers n) \<Longrightarrow> pr_alive (entry_peer n e) \<Longrightarrow> pr_alive (entry_peer n e') \<Longrightarrow>
      pa_port (entry_address n e) \<noteq> 0 \<Longrightarrow> entry_address n e = entry_address n e' \<Longrightarrow> e = e'"
    using node_inv_parts(4) [OF assms] unfolding conns_ok_def by blast
qed

text \<open>A system on which no connection succeeds, and a node on it that mines a block.\<close>

definition sample_tcp :: "mem_net tcp" where
  "sample_tcp = \<lparr>tcp_now = (\<lambda>_. 0), tcp_socket = (\<lambda>net. (net, - 1)), tcp_close = (\<lambda>net _. net),
     tcp_reuse_addr = (\<lambda>net _. net), tcp_rcvtimeo = (\<lambda>net _ _. net), tcp_bind = (\<lambda>net _ _. (net, - 1)),
     tcp_listen = (\<lambda>net _ _. (net, - 1)), tcp_accept = (\<lambda>net _. (net, - 1)), tcp_getfl = (\<lambda>net _. (net, - 1)),
     tcp_setfl = (\<lambda>net _ _. (net, - 1)), tcp_or_nonblock = (\<lambda>f. f),
     tcp_connect = (\<lambda>net _ _ _. (net, - 1, Other_errno)), tcp_poll = (\<lambda>net _ _. (net, 0, Other_errno)),
     tcp_so_error = (\<lambda>net _. (net, 0, 0)), tcp_getpeername = (\<lambda>_ _. None), tcp_ntop = (\<lambda>_. None),
     tcp_pton = sample_pton\<rparr>"

definition sample_world :: "(mem_db, mem_net) world" where
  "sample_world = \<lparr>w_platform = sample_platform, w_os = mem_os, w_tcp = sample_tcp, w_unix_time = (\<lambda>_. 5),
     w_can_reserve = (\<lambda>_. True)\<rparr>"

definition sample_node :: "(mem_db, mem_net) Node" where
  "sample_node = new_Node 0 quiet_net 8000 sample_version (sample_manager None)"

lemma sample_a_accepted:
  "submit_block sample_platform 5 (sample_manager None) sample_a =
     (extended sample_platform (sample_manager None) sample_a empty_ledger,
      Inr (new_outcome\<lparr>bo_status := Accepted, bo_to_broadcast := [b_hash sample_a]\<rparr>))"
proof -
  have "apply_block_to_ledger sample_openssl empty_ledger sample_a = (empty_ledger, Inr True)"
    by (simp add: apply_block_to_ledger_def)
  then show ?thesis using sample_a_rules [of None] by (intro submit_block_accepts) simp_all
qed

text \<open>The height of a peer is the one it announced when it connected. When no peer announced more than the node now
  has, the periodic request does nothing, however far the peers have got since.\<close>

lemma sync_ignores_growth:
  assumes "\<And>e. e \<in> set (nd_peers n) \<Longrightarrow>
    vi_chain_height (pr_remote_version (entry_peer n e)) \<le> word_of_nat (chain_height (nd_chain n))"
  shows "request_sync W n = (n, Inr ())"
proof -
  have "filter (\<lambda>entry. pr_alive (entry_peer n entry) \<and>
      vi_chain_height (pr_remote_version (entry_peer n entry)) > word_of_nat (chain_height (nd_chain n))) (nd_peers n) = []"
    using assms by (auto simp: filter_empty_conv not_less)
  then show ?thesis by (simp add: request_sync_def)
qed

end
