(* ===== verification/FC_Sync.thy ===== *)
theory FC_Sync
  imports FC_NodeInv
begin

text \<open>
  Catching up, end to end: the locator a node builds (src/src/core/BlockLocator.cpp), the blocks its peer
  answers with (\<open>blocks_after_locator\<close> of src/src/chain/ChainManager.cpp), the way of those blocks over the
  wire, and their adoption as one branch (\<open>adopt_branch\<close>). The result is that the node ends up with the
  peer's chain.
\<close>

section \<open>Blocks on the wire\<close>

text \<open>A block as it arrives: the accumulated work is not transmitted.\<close>

definition wire_block :: "Block \<Rightarrow> Block" where
  "wire_block b = b\<lparr>b_cumulative_work := 0\<rparr>"

lemma wire_block_sel [simp]:
  "b_hash (wire_block b) = b_hash b" "b_prev_hash (wire_block b) = b_prev_hash b"
  "b_timestamp (wire_block b) = b_timestamp b" "b_difficulty (wire_block b) = b_difficulty b"
  "b_transactions (wire_block b) = b_transactions b" "block_serialize (wire_block b) = block_serialize b"
  "sound_block C S (wire_block b) \<longleftrightarrow> sound_block C S b" "block_work (wire_block b) = block_work b"
  by (simp_all add: wire_block_def block_work_def)

text \<open>Every block fits the wire format, and every payment in it is signed.\<close>

definition wire_chain :: "openssl \<Rightarrow> Blockchain \<Rightarrow> bool" where
  "wire_chain C bc \<longleftrightarrow> (\<forall>b\<in>set (bc_blocks bc). wf_block C (wire_block b) \<and>
     (\<forall>tx\<in>set (b_transactions b). tx_sender tx \<noteq> kCoinbaseSender \<longrightarrow> has_valid_signature C tx = Inr True))"

lemma wire_block_eq:
  assumes "sound_block C S b" and "sound_block C S b'" and "wf_block C (wire_block b)" and "wf_block C (wire_block b')"
    and "b_hash b = b_hash b'"
  shows "wire_block b = wire_block b'"
proof -
  have "block_serialize b = block_serialize b'"
    using assms(1,2,5) by (auto simp: sound_block_def collision_free_def block_compute_hash_def inj_on_eq_iff)
  then show ?thesis
    using block_deserialize_serialize [OF assms(3)] block_deserialize_serialize [OF assms(4)] by simp
qed

lemma work_from_unique:
  "work_from w xs \<Longrightarrow> work_from w ys \<Longrightarrow> map wire_block xs = map wire_block ys \<Longrightarrow> xs = ys"
proof (induction xs arbitrary: w ys)
  case (Cons x xs)
  then obtain y ys' where y: "ys = y # ys'" "wire_block x = wire_block y" "map wire_block xs = map wire_block ys'" by auto
  have "block_work x = block_work y" using arg_cong [OF y(2), of block_work] by simp
  then have "b_cumulative_work x = b_cumulative_work y" using Cons.prems(1,2) y(1) by simp
  then have "x = y" using y(2) by (cases x; cases y) (simp add: wire_block_def)
  then show ?case using Cons y by auto
qed simp

lemma wire_chain_unique:
  assumes "chain_inv C S A" and "chain_inv C S B"
    and "map wire_block (bc_blocks A) = map wire_block (bc_blocks B)"
  shows "bc_blocks A = bc_blocks B"
  using assms work_from_unique [of 0 "tl (bc_blocks A)" "tl (bc_blocks B)"]
  by (auto simp: chain_inv_def)

lemma wire_prefix_eq:
  assumes "chain_inv C S A" and "chain_inv C S B" and "wire_chain C A" and "wire_chain C B"
    and "i < length (bc_blocks A)" and "i < length (bc_blocks B)" and "b_hash (bc_blocks A ! i) = b_hash (bc_blocks B ! i)"
  shows "wire_block (bc_blocks A ! i) = wire_block (bc_blocks B ! i)"
  using assms by (intro wire_block_eq [OF chain_inv_sound [OF assms(1)] chain_inv_sound [OF assms(2)]])
    (auto simp: wire_chain_def)

section \<open>The rules only read times and difficulties\<close>

definition same_view :: "nat \<Rightarrow> (nat \<Rightarrow> Block result) \<Rightarrow> (nat \<Rightarrow> Block result) \<Rightarrow> bool" where
  "same_view h f g \<longleftrightarrow> (\<forall>i<h. \<exists>x y. f i = Inr x \<and> g i = Inr y \<and> wire_block x = wire_block y)"

lemma same_viewD:
  assumes "same_view h f g" and "i < h"
  shows "\<exists>x y. f i = Inr x \<and> g i = Inr y \<and> b_timestamp x = b_timestamp y \<and> b_difficulty x = b_difficulty y"
proof -
  from assms obtain x y where xy: "f i = Inr x" "g i = Inr y" "wire_block x = wire_block y"
    by (auto simp: same_view_def)
  then show ?thesis by (metis wire_block_sel(3,4))
qed

lemma timestamps_of_cong:
  "same_view h f g \<Longrightarrow> \<forall>i\<in>set is. i < h \<Longrightarrow> timestamps_of f is = timestamps_of g is"
proof (induction "is")
  case (Cons i "is")
  obtain x y where "f i = Inr x" "g i = Inr y" "b_timestamp x = b_timestamp y"
    using same_viewD [OF Cons.prems(1), of i] Cons.prems(2) by auto
  then show ?case using Cons by simp
qed simp

lemma timestamp_is_valid_cong:
  assumes "same_view h f g" and "b_timestamp b = b_timestamp b'"
  shows "timestamp_is_valid b h now params f = timestamp_is_valid b' h now params g"
  using timestamps_of_cong [OF assms(1)] assms(2)
  by (simp add: timestamp_is_valid_def median_time_past_def Let_def)

lemma next_difficulty_cong:
  assumes "same_view h f g"
  shows "next_difficulty fp h params f = next_difficulty fp h params g"
proof (cases "cp_retarget_interval params < 2 \<or> h \<le> cp_retarget_interval params")
  case False
  obtain x y where x: "f (h - 1) = Inr x" "g (h - 1) = Inr y" "b_timestamp x = b_timestamp y" "b_difficulty x = b_difficulty y"
    using same_viewD [OF assms, of "h - 1"] False by auto
  obtain u v where u: "f (h - cp_retarget_interval params) = Inr u" "g (h - cp_retarget_interval params) = Inr v"
    "b_timestamp u = b_timestamp v"
    using same_viewD [OF assms, of "h - cp_retarget_interval params"] False by auto
  show ?thesis using False x u by (simp add: next_difficulty_def Let_def)
qed (simp add: next_difficulty_def Let_def)

lemma valid_prefix_all:
  assumes "\<And>j. j < length blocks \<Longrightarrow> timestamp_is_valid (blocks ! j) (base + i + j) now params f = Inr True \<and>
    next_difficulty fp (base + i + j) params f = Inr (b_difficulty (blocks ! j))"
  shows "valid_prefix_loop fp params f now base i blocks = Inr (i + length blocks)"
  using assms
proof (induction blocks arbitrary: i)
  case (Cons b blocks)
  have "valid_prefix_loop fp params f now base (i + 1) blocks = Inr (i + 1 + length blocks)"
    using Cons.prems [of "Suc _"] by (intro Cons.IH) simp
  then show ?case using Cons.prems [of 0] by simp
qed simp

section \<open>Adopting a signed branch\<close>

lemma branch_signed_all:
  "\<forall>tx\<in>set txs. tx_sender tx \<noteq> kCoinbaseSender \<longrightarrow> has_valid_signature C tx = Inr True \<Longrightarrow> branch_signed C txs = Inr True"
  by (induction txs) simp_all

lemma fee_insert_nonempty_size: "mp_max_size (fst (add_transaction C mp tx)) = mp_max_size mp"
  by (auto simp: add_transaction_def split: sum.splits bool.splits)

lemma undo_discarded_max_size: "undo_discarded C H L mp txs = (L', mp', u) \<Longrightarrow> mp_max_size mp' = mp_max_size mp"
proof (induction txs arbitrary: L mp)
  case (Cons tx txs)
  obtain mp1 r where a: "add_transaction C mp tx = (mp1, r)" "mp_max_size mp1 = mp_max_size mp"
    using fee_insert_nonempty_size [of C mp tx] by (metis prod.collapse)
  show ?case using Cons a by (cases r) (auto simp: Let_def split: if_splits)
qed simp

lemma add_signed_returns:
  assumes "has_valid_signature C tx = Inr True" and "0 < mp_max_size mp"
  obtains mp' ok where "add_transaction C mp tx = (mp', Inr ok)" "mp_max_size mp' = mp_max_size mp"
  using assms fee_insert_nonempty_size [of C mp tx] by (auto simp: add_transaction_def split: if_splits)

lemma undo_signed_returns:
  assumes "\<forall>tx\<in>set txs. tx_sender tx \<noteq> kCoinbaseSender \<longrightarrow> has_valid_signature C tx = Inr True"
    and "0 < mp_max_size mp"
  shows "\<exists>L' mp'. undo_discarded C hs L mp txs = (L', mp', Inr ())"
  using assms
proof (induction txs arbitrary: L mp)
  case (Cons tx txs)
  show ?case
  proof (cases "tx_hash C tx \<notin> hs \<and> tx_sender tx \<noteq> kCoinbaseSender")
    case True
    then obtain mp' ok where a: "add_transaction C mp tx = (mp', Inr ok)" "mp_max_size mp' = mp_max_size mp"
      using Cons.prems add_signed_returns [of C tx mp] by auto
    then show ?thesis using Cons True by (simp add: Let_def)
  qed (use Cons in \<open>auto simp: Let_def\<close>)
qed simp

text \<open>
  The node's chain \<open>A\<close> and the peer's chain \<open>B\<close> agree up to height \<open>g\<close> and the peer's next block is unknown:
  the branch that gets adopted.
\<close>

definition peer_branch :: "Blockchain \<Rightarrow> Blockchain \<Rightarrow> nat \<Rightarrow> ForkChain" where
  "peer_branch A B g =
     \<lparr>fc_blocks = map wire_block (drop (Suc g) (bc_blocks B)), fc_common_ancestor = bc_blocks A ! g\<rparr>"

definition branches_at :: "openssl \<Rightarrow> bytes set \<Rightarrow> Blockchain \<Rightarrow> Blockchain \<Rightarrow> nat \<Rightarrow> bool" where
  "branches_at C S A B g \<longleftrightarrow> chain_inv C S A \<and> chain_inv C S B \<and> wire_chain C A \<and> wire_chain C B \<and>
     g < length (bc_blocks A) \<and> Suc g < length (bc_blocks B) \<and>
     (\<forall>i\<le>g. b_hash (bc_blocks A ! i) = b_hash (bc_blocks B ! i))"

lemma branches_at_common:
  assumes "branches_at C S A B g" and "i \<le> g"
  shows "wire_block (bc_blocks A ! i) = wire_block (bc_blocks B ! i)"
  using assms by (intro wire_prefix_eq [of C S]) (auto simp: branches_at_def)

lemma chain_prev:
  assumes "chain_inv C S B" and "Suc i < length (bc_blocks B)"
  shows "b_prev_hash (bc_blocks B ! Suc i) = b_hash (bc_blocks B ! i)"
  using linked_nth [of b_hash b_prev_hash zero_hash "bc_blocks B" "Suc i"] assms by (simp add: chain_inv_def)

lemma peer_branch_fork:
  assumes "branches_at C S A B g"
  shows "fork_of C S A (peer_branch A B g)"
proof -
  have B: "chain_inv C S B" and g: "Suc g < length (bc_blocks B)" using assms by (simp_all add: branches_at_def)
  have "linked b_hash b_prev_hash (b_hash (bc_blocks A ! g)) (map wire_block (drop (Suc g) (bc_blocks B)))"
  proof (rule linked_of_nth)
    fix i assume i: "i < length (map wire_block (drop (Suc g) (bc_blocks B)))"
    have "b_prev_hash (bc_blocks B ! Suc (g + i)) = b_hash (bc_blocks B ! (g + i))"
      using i by (intro chain_prev [OF B]) simp
    then show "b_prev_hash (map wire_block (drop (Suc g) (bc_blocks B)) ! i) =
        (if i = 0 then b_hash (bc_blocks A ! g) else b_hash (map wire_block (drop (Suc g) (bc_blocks B)) ! (i - 1)))"
      using i assms by (cases i) (simp_all add: branches_at_def)
  qed
  then show ?thesis
    using assms g chain_inv_sound [OF B] by (auto simp: fork_of_def peer_branch_def branches_at_def dest: in_set_dropD)
qed

lemma peer_branch_reorganizes:
  assumes "branches_at C S A B g"
  obtains bc where "reorganize_to A (peer_branch A B g) = (bc, Some (drop (Suc g) (bc_blocks A)))"
    "chain_inv C S bc" "bc_blocks bc = bc_blocks B"
proof -
  have A: "chain_inv C S A" and B: "chain_inv C S B" and g: "g < length (bc_blocks A)" "Suc g < length (bc_blocks B)"
    using assms by (simp_all add: branches_at_def)
  obtain h bc where r: "h < length (bc_blocks A)" "bc_blocks A ! h = fc_common_ancestor (peer_branch A B g)"
    "reorganize_to A (peer_branch A B g) = (bc, Some (drop (Suc h) (bc_blocks A)))" "chain_inv C S bc"
    "bc_blocks bc = take (Suc h) (bc_blocks A) @
       with_work (b_cumulative_work (fc_common_ancestor (peer_branch A B g))) (fc_blocks (peer_branch A B g))"
    by (rule reorganize_to_fork [OF A peer_branch_fork [OF assms]])
  have hg: "h = g"
    using chain_inv_distinct [OF A] r(1,2) g(1) by (simp add: peer_branch_def distinct_conv_nth) metis
  have ww: "map wire_block (with_work w bs) = map wire_block bs" for w bs
    by (induction bs arbitrary: w) (simp_all add: wire_block_def)
  have idem: "wire_block (wire_block b) = wire_block b" for b by (simp add: wire_block_def)
  have "map wire_block (take (Suc g) (bc_blocks A)) = map wire_block (take (Suc g) (bc_blocks B))"
    using branches_at_common [OF assms] g by (intro nth_equalityI) simp_all
  then have "map wire_block (bc_blocks bc) =
      map wire_block (take (Suc g) (bc_blocks B)) @ map wire_block (drop (Suc g) (bc_blocks B))"
    unfolding r(5) hg by (simp add: ww peer_branch_def comp_def idem)
  also have "\<dots> = map wire_block (bc_blocks B)" by (metis append_take_drop_id map_append)
  finally have "bc_blocks bc = bc_blocks B" by (rule wire_chain_unique [OF r(4) B])
  then show ?thesis using that r(3,4) hg by blast
qed

lemma reorganized_work:
  assumes "chain_inv C S bc" and "fork_of C S bc fork" and "reorganize_to bc fork = (bc', d)"
  shows "b_cumulative_work (latest bc') = fork_work fork"
proof -
  have "fc_blocks fork \<noteq> []" using assms(2) by (simp add: fork_of_def)
  moreover obtain h where "bc_blocks bc' = take (Suc h) (bc_blocks bc) @
      with_work (b_cumulative_work (fc_common_ancestor fork)) (fc_blocks fork)"
    using reorganize_to_fork [OF assms(1,2)] assms(3) by (metis prod.inject)
  ultimately show ?thesis by (simp add: latest_def fork_work_def last_with_work)
qed

text \<open>Every block above genesis has the time and the difficulty the consensus rules ask of it.\<close>

definition obeys_rules :: "'db platform \<Rightarrow> ConsensusParams \<Rightarrow> u64 \<Rightarrow> Blockchain \<Rightarrow> bool" where
  "obeys_rules P params now bc \<longleftrightarrow> (\<forall>i. 0 < i \<and> i < length (bc_blocks bc) \<longrightarrow>
     timestamp_is_valid (bc_blocks bc ! i) i now params (bc_at bc) = Inr True \<and>
     next_difficulty (pf_log2 P) i params (bc_at bc) = Inr (b_difficulty (bc_blocks bc ! i)))"

lemma peer_branch_prefix:
  assumes "branches_at C S A B g" and "obeys_rules P params now B"
  shows "valid_prefix_length (pf_log2 P) params A (peer_branch A B g) now = Inr (length (bc_blocks B) - Suc g)"
proof -
  let ?f = "fork_block_at A (peer_branch A B g) (Suc g)" and ?bs = "map wire_block (drop (Suc g) (bc_blocks B))"
  have A: "chain_inv C S A" and g: "g < length (bc_blocks A)" "Suc g < length (bc_blocks B)"
    using assms(1) by (simp_all add: branches_at_def)
  have view: "same_view (length (bc_blocks B)) ?f (bc_at B)"
    unfolding same_view_def
  proof (intro allI impI)
    fix i assume i: "i < length (bc_blocks B)"
    show "\<exists>x y. ?f i = Inr x \<and> bc_at B i = Inr y \<and> wire_block x = wire_block y"
    proof (cases "i \<le> g")
      case True
      then show ?thesis
        using i g branches_at_common [OF assms(1) True] by (simp add: fork_block_at_def bc_at_def vec_at_def)
    next
      case False
      then have "Suc (g + (i - Suc g)) = i" by simp
      then show ?thesis
        using False i by (simp add: fork_block_at_def bc_at_def vec_at_def peer_branch_def wire_block_def)
    qed
  qed
  have "timestamp_is_valid (?bs ! j) (Suc g + 0 + j) now params ?f = Inr True \<and>
      next_difficulty (pf_log2 P) (Suc g + 0 + j) params ?f = Inr (b_difficulty (?bs ! j))" if j: "j < length ?bs" for j
  proof -
    have v: "same_view (Suc g + j) ?f (bc_at B)" using view j by (simp add: same_view_def)
    have "timestamp_is_valid (?bs ! j) (Suc g + j) now params ?f =
        timestamp_is_valid (bc_blocks B ! (Suc g + j)) (Suc g + j) now params (bc_at B)"
      using j by (intro timestamp_is_valid_cong [OF v]) simp
    then show ?thesis
      using assms(2) [unfolded obeys_rules_def, rule_format, of "Suc g + j"] next_difficulty_cong [OF v] j by simp
  qed
  from valid_prefix_all [of ?bs "Suc g" 0 now params ?f "pf_log2 P", OF this]
  have "valid_prefix_loop (pf_log2 P) params ?f now (Suc g) 0 ?bs = Inr (length (bc_blocks B) - Suc g)" by simp
  moreover have "find_height A (b_hash (bc_blocks A ! g)) = Some g" using find_height_Some [OF A] g(1) by simp
  ultimately show ?thesis by (simp add: valid_prefix_length_def peer_branch_def Let_def)
qed

lemma signed_txs:
  assumes "wire_chain C bc" and "tx \<in> set (branch_txs (drop k (bc_blocks bc)))" and "tx_sender tx \<noteq> kCoinbaseSender"
  shows "has_valid_signature C tx = Inr True"
  using assms by (auto simp: wire_chain_def dest: in_set_dropD)

text \<open>A node without storage, or with a database that mirrors its chain and takes writes.\<close>

definition storage_works :: "'db platform \<Rightarrow> 'db sqlite_view \<Rightarrow> 'db ChainManager \<Rightarrow> bool" where
  "storage_works P V m \<longleftrightarrow> sqlite_laws (pf_sqlite P) V \<and> accepts_writes (pf_sqlite P) V \<and> stored_chain V m"

lemma peer_branch_adopted:
  assumes "branches_at (pf_crypto P) S (cm_blockchain m) B g" and "storage_works P V m"
    and "0 < mp_max_size (cm_mempool m)"
    and "b_cumulative_work (latest (cm_blockchain m)) < b_cumulative_work (latest B)"
  obtains m' where "try_reorg P m (peer_branch (cm_blockchain m) B g) =
      (m', Inr (Some (map b_hash (drop (Suc g) (bc_blocks B)))))" "bc_blocks (cm_blockchain m') = bc_blocks B"
proof -
  let ?C = "pf_crypto P" and ?A = "cm_blockchain m"
  let ?fork = "peer_branch ?A B g"
  have w: "wire_chain ?C ?A" "wire_chain ?C B" and A: "chain_inv ?C S ?A" using assms(1) by (simp_all add: branches_at_def)
  obtain bc where r: "reorganize_to ?A ?fork = (bc, Some (drop (Suc g) (bc_blocks ?A)))" "bc_blocks bc = bc_blocks B"
    by (rule peer_branch_reorganizes [OF assms(1)])
  have "b_cumulative_work (latest bc) = fork_work ?fork"
    using reorganized_work [OF A peer_branch_fork [OF assms(1)] r(1)] .
  then have heavier: "is_fork_heavier ?A ?fork"
    using assms(4) r(2) by (simp add: is_fork_heavier_def latest_def)
  have txs: "branch_txs (fc_blocks ?fork) = branch_txs (drop (Suc g) (bc_blocks B))"
    by (simp add: peer_branch_def comp_def)
  have signed: "branch_signed ?C (branch_txs (fc_blocks ?fork)) = Inr True"
    unfolding txs using signed_txs [OF w(2)] by (intro branch_signed_all) blast
  obtain L mp where u: "undo_discarded ?C (payment_hashes ?C (branch_txs (fc_blocks ?fork))) (cm_ledger m) (cm_mempool m)
      (rev (branch_txs (drop (Suc g) (bc_blocks ?A)))) = (L, mp, Inr ())"
    using undo_signed_returns [of "rev (branch_txs (drop (Suc g) (bc_blocks ?A)))" ?C, OF _ assms(3)]
      signed_txs [OF w(1)] by (metis set_rev)
  have hashes: "map b_hash (fc_blocks ?fork) = map b_hash (drop (Suc g) (bc_blocks B))" by (simp add: peer_branch_def)
  have replaced: "\<exists>db'. replace_blocks_from (pf_sqlite P) db h bs = (db', Inr ())" if "cm_storage m = Some db" for db h bs
    using assms(2) that by (intro replace_blocks_succeeds [of _ V]) (simp_all add: storage_works_def stored_chain_def)
  have "\<exists>m'. try_reorg P m ?fork = (m', Inr (Some (map b_hash (drop (Suc g) (bc_blocks B))))) \<and> cm_blockchain m' = bc"
  proof (cases "cm_storage m")
    case (Some db)
    let ?k = "bc_size bc - length (map b_hash (drop (Suc g) (bc_blocks B)))"
    obtain db' where "replace_blocks_from (pf_sqlite P) db ?k (drop ?k (bc_blocks bc)) = (db', Inr ())"
      using replaced [OF Some] by blast
    then show ?thesis using hashes heavier signed r(1) u Some by (simp add: try_reorg_def Let_def)
  qed (use hashes heavier signed r(1) u in \<open>simp add: try_reorg_def Let_def\<close>)
  then show ?thesis using that r(2) by blast
qed

section \<open>Convergence\<close>

lemma known_block_prefix:
  assumes "chain_inv C S A" and "chain_inv C S B" and "i < length (bc_blocks B)"
    and "bc_has_block A (b_hash (bc_blocks B ! i))"
  shows "i < length (bc_blocks A) \<and> (\<forall>k\<le>i. b_hash (bc_blocks A ! k) = b_hash (bc_blocks B ! k))"
proof -
  note c = assms(1,2) [unfolded chain_inv_def]
  obtain j where j: "j < length (bc_blocks A)" "b_hash (bc_blocks A ! j) = b_hash (bc_blocks B ! i)"
    using assms(4) find_height_Some [OF assms(1)] by (auto simp: bc_has_block_def find_height_alt)
  have "j = i \<and> (\<forall>k\<le>j. b_hash (bc_blocks A ! k) = b_hash (bc_blocks B ! k))"
    by (rule bc_chain.linked_same_height [where C = C and S = S]) (use c j assms(3) in auto)
  then show ?thesis using j(1) by auto
qed

lemma known_block_iff:
  "chain_inv C S A \<Longrightarrow> bc_has_block A h \<longleftrightarrow> h \<in> b_hash ` set (bc_blocks A)"
  using find_height_None [of C S A h] by (auto simp: bc_has_block_def find_height_alt)

lemma answer_blocks:
  assumes "find_locator_match (cm_blockchain peer) locator = Some h" and "h < length (bc_blocks (cm_blockchain peer))"
    and "chain_height peer < 2 ^ 63" and "blocks_after_locator peer locator MAX_BLOCKS_PER_RESPONSE = Inr answer"
  shows "answer = drop (Suc h) (take (Suc h + MAX_BLOCKS_PER_RESPONSE) (bc_blocks (cm_blockchain peer)))"
proof (cases "Suc h < length (bc_blocks (cm_blockchain peer))")
  case True
  have "(Suc h + 2000) mod 2 ^ 64 = Suc h + 2000"
    using assms(2,3) by (intro mod_less) (simp add: chain_height_def bc_size_def)
  then have a: "answer = map ((!) (bc_blocks (cm_blockchain peer))) [Suc h..<min (length (bc_blocks (cm_blockchain peer))) (Suc h + 2000)]"
    using assms(1,4) True
    by (auto simp: blocks_after_locator_def blocks_between_def MAX_BLOCKS_PER_RESPONSE_def bc_size_def Let_def
        split: if_splits)
  show ?thesis unfolding a MAX_BLOCKS_PER_RESPONSE_def by (intro nth_equalityI) (simp_all add: nth_upt less_diff_conv add.commute)
next
  case False
  then show ?thesis using assms(1,2,4) by (simp add: blocks_after_locator_def bc_size_def)
qed

text \<open>Where the branch of the answer leaves the chain, after the blocks that are already known.\<close>

lemma locator_meets:
  assumes "chain_inv C S A" and "chain_inv C S B" and "build_locator A = Inr locator"
  obtains h where "find_locator_match B locator = Some h" "h < length (bc_blocks A)" "h < length (bc_blocks B)"
    "b_hash (bc_blocks A ! h) = b_hash (bc_blocks B ! h)"
proof -
  obtain h where h: "find_locator_match B locator = Some h" "h < length (bc_blocks A)" "h < length (bc_blocks B)"
    "map b_hash (take (Suc h) (bc_blocks A)) = map b_hash (take (Suc h) (bc_blocks B))"
    using locator_match_facts [OF assms] by blast
  have "b_hash (bc_blocks A ! h) = b_hash (bc_blocks B ! h)" using arg_cong [OF h(4), of "\<lambda>xs. xs ! h"] h(2,3) by simp
  with h(1-3) show ?thesis by (rule that)
qed

lemma answer_branches:
  assumes "chain_inv C S A" and "chain_inv C S B" and "wire_chain C A" and "wire_chain C B"
    and "h < length (bc_blocks A)" and "h < length (bc_blocks B)" and "b_hash (bc_blocks A ! h) = b_hash (bc_blocks B ! h)"
    and "\<not> bc_has_block A (b_hash (latest B))"
    and "s = length (takeWhile (\<lambda>b. bc_has_block A (b_hash b)) (map wire_block (drop (Suc h) (bc_blocks B))))"
  shows "branches_at C S A B (h + s)"
proof -
  let ?bs = "map wire_block (drop (Suc h) (bc_blocks B))" and ?P = "\<lambda>b. bc_has_block A (b_hash b)"
  have ne: "bc_blocks B \<noteq> []" using assms(6) by auto
  have hA: "bc_has_block A (b_hash (bc_blocks B ! h))"
    using assms(5,7) unfolding known_block_iff [OF assms(1)] by (metis image_eqI nth_mem)
  have "h \<noteq> length (bc_blocks B) - 1" using hA assms(8) ne by (auto simp: latest_def last_conv_nth)
  then have len: "Suc h < length (bc_blocks B)" using assms(6) by simp
  have "last ?bs = wire_block (latest B)" using len by (simp add: last_map last_drop latest_def)
  moreover have "?bs \<noteq> []" using len by simp
  ultimately have "\<exists>b\<in>set ?bs. \<not> ?P b" using assms(8) last_in_set [of ?bs] by (metis wire_block_sel(1))
  then have "takeWhile ?P ?bs \<noteq> ?bs" by (simp only: takeWhile_eq_all_conv) blast
  then have s: "s < length ?bs"
    unfolding assms(9) by (metis length_takeWhile_le order_le_less takeWhile_eq_take take_all order_refl)
  have "bc_has_block A (b_hash (bc_blocks B ! (h + s)))"
  proof (cases s)
    case (Suc k)
    then have k: "k < length (takeWhile ?P ?bs)" using assms(9) by simp
    have "?P (takeWhile ?P ?bs ! k)" using set_takeWhileD [OF nth_mem [OF k]] by simp
    then show ?thesis using takeWhile_nth [OF k] Suc s by simp
  qed (use hA in simp)
  from known_block_prefix [OF assms(1,2) _ this] show ?thesis
    using s assms(1-4) by (simp add: branches_at_def)
qed

text \<open>
  The blocks of a chain \<open>B\<close> above a block the node has, as they arrive: the branch the node tries is the unknown part of
  \<open>B\<close>, all of it when \<open>B\<close> obeys the rules.
\<close>

lemma suffix_attempt:
  assumes "cm_inv P S m" and "chain_inv (pf_crypto P) S B" and "wire_chain (pf_crypto P) (cm_blockchain m)" and "wire_chain (pf_crypto P) B"
    and "h < length (bc_blocks (cm_blockchain m))" and "h < length (bc_blocks B)"
    and "b_hash (bc_blocks (cm_blockchain m) ! h) = b_hash (bc_blocks B ! h)"
    and "obeys_rules P (cm_params m) now B" and "\<not> bc_has_block (cm_blockchain m) (b_hash (latest B))"
  obtains g where "branches_at (pf_crypto P) S (cm_blockchain m) B g"
    "adopt_branch P now m (map wire_block (drop (Suc h) (bc_blocks B))) =
       (case try_reorg P m (peer_branch (cm_blockchain m) B g) of (m', r) \<Rightarrow> (m', map_sum id (\<lambda>hs. hs \<noteq> None) r))"
proof -
  let ?C = "pf_crypto P" and ?A = "cm_blockchain m"
  have A: "chain_inv ?C S ?A" using assms(1) by (simp add: cm_inv_def)
  let ?rec = "map wire_block (drop (Suc h) (bc_blocks B))"
  define s where "s = length (takeWhile (\<lambda>b. bc_has_block ?A (b_hash b)) ?rec)"
  have br: "branches_at ?C S ?A B (h + s)"
    by (rule answer_branches [OF A assms(2-7,9) s_def])
  have rec: "?rec ! i = wire_block (bc_blocks B ! Suc (h + i))" "Suc (h + i) < length (bc_blocks B)"
    if "i < length ?rec" for i using that by simp_all
  have lens: "s < length ?rec" "h + s < length (bc_blocks ?A)" using br assms(6) by (auto simp: branches_at_def)
  have start: "b_prev_hash (?rec ! s) = b_hash (bc_blocks ?A ! (h + s))"
    using chain_prev [OF assms(2) rec(2) [OF lens(1)]] br rec(1) [OF lens(1)] by (simp add: branches_at_def)
  have links: "b_prev_hash (?rec ! i) = b_hash (?rec ! (i - 1))" if "s < i" "i < length ?rec" for i
  proof (cases i)
    case (Suc k)
    then show ?thesis using chain_prev [OF assms(2) rec(2) [OF that(2)]] rec(1) [of i] rec(1) [of k] that by simp
  qed (use that in simp)
  have fork: "\<lparr>fc_blocks = drop s ?rec, fc_common_ancestor = bc_blocks ?A ! (h + s)\<rparr> = peer_branch ?A B (h + s)"
    by (simp add: peer_branch_def drop_map add.commute)
  have keep: "keep_prefix (length (bc_blocks B) - Suc (h + s)) (peer_branch ?A B (h + s)) = peer_branch ?A B (h + s)"
    by (simp add: keep_prefix_def peer_branch_def)
  have "\<not> list_ex (\<lambda>i. b_prev_hash (?rec ! i) \<noteq> b_hash (?rec ! (i - 1))) [s + 1..<length ?rec]"
    using links by (auto simp: list_ex_iff)
  moreover have "find_height ?A (b_prev_hash (?rec ! s)) = Some (h + s)" "bc_at ?A (h + s) = Inr (bc_blocks ?A ! (h + s))"
    using find_height_Some [OF A] start lens(2) by (simp_all add: bc_at_def vec_at_def)
  moreover have "?rec \<noteq> []" "0 < length (bc_blocks B) - Suc (h + s)" using lens(1) rec(2) by fastforce+
  ultimately have "adopt_branch P now m ?rec =
      (case try_reorg P m (peer_branch ?A B (h + s)) of (m', r) \<Rightarrow> (m', map_sum id (\<lambda>hs. hs \<noteq> None) r))"
    using lens(1) fork keep peer_branch_prefix [OF br assms(8)]
    unfolding adopt_branch_def Let_def s_def [symmetric] by (simp split: prod.splits sum.splits)
  with br show ?thesis by (rule that)
qed

lemma suffix_adopted:
  assumes "cm_inv P S m" and "chain_inv (pf_crypto P) S B" and "wire_chain (pf_crypto P) (cm_blockchain m)" and "wire_chain (pf_crypto P) B"
    and "h < length (bc_blocks (cm_blockchain m))" and "h < length (bc_blocks B)"
    and "b_hash (bc_blocks (cm_blockchain m) ! h) = b_hash (bc_blocks B ! h)"
    and "obeys_rules P (cm_params m) now B" and "\<not> bc_has_block (cm_blockchain m) (b_hash (latest B))"
    and "storage_works P V m" and "0 < mp_max_size (cm_mempool m)"
    and "b_cumulative_work (latest (cm_blockchain m)) < b_cumulative_work (latest B)"
  obtains m' where "adopt_branch P now m (map wire_block (drop (Suc h) (bc_blocks B))) = (m', Inr True)"
    "bc_blocks (cm_blockchain m') = bc_blocks B" "stored_chain V m'" "mp_max_size (cm_mempool m') = mp_max_size (cm_mempool m)"
    "cm_params m' = cm_params m" "cm_inv P S m'"
proof -
  obtain g where g: "branches_at (pf_crypto P) S (cm_blockchain m) B g"
    "adopt_branch P now m (map wire_block (drop (Suc h) (bc_blocks B))) =
       (case try_reorg P m (peer_branch (cm_blockchain m) B g) of (m', r) \<Rightarrow> (m', map_sum id (\<lambda>hs. hs \<noteq> None) r))"
    by (rule suffix_attempt [OF assms(1-9)])
  obtain m' where r: "try_reorg P m (peer_branch (cm_blockchain m) B g) =
      (m', Inr (Some (map b_hash (drop (Suc g) (bc_blocks B)))))" "bc_blocks (cm_blockchain m') = bc_blocks B"
    by (rule peer_branch_adopted [OF g(1) assms(10-12)])
  have adopt: "adopt_branch P now m (map wire_block (drop (Suc h) (bc_blocks B))) = (m', Inr True)" using g(2) r(1) by simp
  have sound: "\<forall>b\<in>set (map wire_block (drop (Suc h) (bc_blocks B))). sound_block (pf_crypto P) S b"
    using assms(2) by (auto simp: chain_inv_def dest: in_set_dropD)
  have "stored_chain V m'" using adopt_branch_stored [OF _ assms(1) _ sound adopt] assms(10) by (simp add: storage_works_def)
  moreover have "mp_max_size (cm_mempool m') = mp_max_size (cm_mempool m) \<and> cm_params m' = cm_params m"
    using r(1) by (cases rule: try_reorg_cases) (auto dest!: undo_discarded_max_size)
  moreover have "cm_inv P S m'" by (rule adopt_branch_inv [OF assms(1) sound adopt])
  ultimately show ?thesis using that adopt r(2) by blast
qed

lemma suffix_decodes:
  "wire_chain C B \<Longrightarrow> \<forall>b\<in>set (drop h (bc_blocks B)). block_deserialize C (block_serialize b) = Some (wire_block b)"
  using block_deserialize_serialize [of C "wire_block _"] by (auto simp: wire_chain_def dest!: in_set_dropD)

text \<open>The blocks of an answer below the cap, decoded and adopted as one branch, make the chain the peer's.\<close>

lemma answer_adopted:
  fixes m :: "'db ChainManager" and peer :: "'db2 ChainManager"
  assumes "cm_inv P S m" and "chain_inv (pf_crypto P) S (cm_blockchain peer)"
    and "wire_chain (pf_crypto P) (cm_blockchain m)" and "wire_chain (pf_crypto P) (cm_blockchain peer)"
    and "storage_works P V m" and "0 < mp_max_size (cm_mempool m)" and "chain_height peer < 2 ^ 63"
    and "cm_locator m = Inr locator"
    and "blocks_after_locator peer locator MAX_BLOCKS_PER_RESPONSE = Inr answer"
    and "length answer < MAX_BLOCKS_PER_RESPONSE"
    and "obeys_rules P (cm_params m) now (cm_blockchain peer)"
    and "b_cumulative_work (latest (cm_blockchain m)) < b_cumulative_work (latest (cm_blockchain peer))"
    and "\<not> cm_has_block m (latest_hash peer)"
  shows "\<exists>m'. (\<forall>b\<in>set answer. block_deserialize (pf_crypto P) (block_serialize b) = Some (wire_block b)) \<and>
    answer \<noteq> [] \<and> adopt_branch P now m (map wire_block answer) = (m', Inr True) \<and>
    bc_blocks (cm_blockchain m') = bc_blocks (cm_blockchain peer) \<and> stored_chain V m'"
proof -
  let ?C = "pf_crypto P" and ?A = "cm_blockchain m" and ?B = "cm_blockchain peer"
  have A: "chain_inv ?C S ?A" and B: "chain_inv ?C S ?B" using assms(1,2) by (simp_all add: cm_inv_def)
  obtain h where h: "find_locator_match ?B locator = Some h" "h < length (bc_blocks ?A)" "h < length (bc_blocks ?B)"
    "b_hash (bc_blocks ?A ! h) = b_hash (bc_blocks ?B ! h)"
    by (rule locator_meets [OF A B assms(8) [unfolded cm_locator_def]])
  have "answer = drop (Suc h) (take (Suc h + MAX_BLOCKS_PER_RESPONSE) (bc_blocks ?B))"
    by (rule answer_blocks [OF h(1,3) assms(7,9)])
  then have ans: "answer = drop (Suc h) (bc_blocks ?B)" using assms(10) by simp
  have new: "\<not> bc_has_block ?A (b_hash (latest ?B))" using assms(13) by (simp add: cm_has_block_def latest_hash_def)
  obtain m' where m': "adopt_branch P now m (map wire_block answer) = (m', Inr True)"
    "bc_blocks (cm_blockchain m') = bc_blocks ?B" "stored_chain V m'"
    unfolding ans by (rule suffix_adopted [OF assms(1) B assms(3,4) h(2-4) assms(11) new assms(5,6,12)])
  then have "answer \<noteq> []" by (auto simp: adopt_branch_def)
  with m' suffix_decodes [OF assms(4), of "Suc h"] show ?thesis unfolding ans by blast
qed

lemma sample_wire_chain: "wire_chain sample_openssl (new_Blockchain sample_openssl)" "wire_chain sample_openssl sample_bc"
proof -
  have wf: "wf_block sample_openssl (wire_block (b\<lparr>b_cumulative_work := w\<rparr>))"
    if "sound_block sample_openssl sample_universe b" "length (b_merkle_root b) = 32" "b_transactions b = []" for b w
    using that by (simp add: wf_block_def wire_block_def sound_block_def block_compute_hash_def)
  have m: "length (b_merkle_root (genesis_block sample_openssl)) = 32" "length (b_merkle_root sample_a) = 32"
    by (simp_all add: genesis_block_def mk_Block_def sample_a_def sample_child_def Let_def sample_sha_def)
  have t: "b_transactions (genesis_block sample_openssl) = []" "b_transactions sample_a = []"
    by (simp_all add: genesis_block_def mk_Block_def)
  have g: "wf_block sample_openssl (wire_block (genesis_block sample_openssl))"
    using wf [OF sample_sound(1) m(1) t(1), of 0] by (simp add: wire_block_def)
  then show "wire_chain sample_openssl (new_Blockchain sample_openssl)" using t(1)
    by (simp add: wire_chain_def)
  show "wire_chain sample_openssl sample_bc"
    using g wf [OF sample_sound(2) m(2) t(2), of 2] t by (simp add: wire_chain_def)
qed

section \<open>The exchange between two nodes\<close>

text \<open>
  The messages a node receives on the connection to a peer, in order. In between, its other threads may do whatever
  does not touch the chain and the catch-up, and time passes.
\<close>

inductive delivered ::
  "('db, 'net) world \<Rightarrow> nat \<Rightarrow> ('db, 'net) Node \<Rightarrow> Message list \<Rightarrow> ('db, 'net) Node \<Rightarrow> bool" for W p where
  no_more: "delivered W p n [] n"
| next_message: "nd_running n \<Longrightarrow> pr_alive (peer_of n p) \<Longrightarrow>
    receive_message (w_os W) (nd_net n) (pr_socket (peer_of n p)) = Some (net, Some msg) \<Longrightarrow>
    peer_loop_turn W n p = Some (n1, r) \<Longrightarrow> delivered W p n1 msgs n' \<Longrightarrow> delivered W p n (msg # msgs) n'"
| other_work: "nd_chain n1 = nd_chain n \<Longrightarrow> nd_sync_state n1 = nd_sync_state n \<Longrightarrow>
    delivered W p n1 msgs n' \<Longrightarrow> delivered W p n msgs n'"

abbreviation block_message :: "Block \<Rightarrow> Message" where
  "block_message b \<equiv> \<lparr>msg_type = BLOCK, msg_payload = block_serialize b\<rparr>"

lemma block_turn:
  assumes "nd_running n" and "pr_alive (peer_of n p)"
    and "receive_message (w_os W) (nd_net n) (pr_socket (peer_of n p)) = Some (net, Some (block_message b))"
    and "block_deserialize (pf_crypto (w_platform W)) (block_serialize b) = Some b'"
    and "ss_active (nd_sync_state n)" and "ss_peer (nd_sync_state n) = Some p" and "peer_loop_turn W n p = Some (n1, r)"
  shows "nd_chain n1 = nd_chain n \<and> ss_active (nd_sync_state n1) \<and> ss_peer (nd_sync_state n1) = Some p \<and>
    ss_buffer (nd_sync_state n1) = ss_buffer (nd_sync_state n) @ [b']"
  using assms
  by (auto simp: peer_loop_turn_def handle_message_def handle_block_def buffer_block_def Let_def)

lemma delivered_blocks:
  assumes "delivered W p n msgs n'" and "msgs = map block_message bs"
    and "\<forall>b\<in>set bs. block_deserialize (pf_crypto (w_platform W)) (block_serialize b) = Some (wire_block b)"
    and "ss_active (nd_sync_state n)" and "ss_peer (nd_sync_state n) = Some p"
  shows "nd_chain n' = nd_chain n \<and> ss_active (nd_sync_state n') \<and> ss_peer (nd_sync_state n') = Some p \<and>
    ss_buffer (nd_sync_state n') = ss_buffer (nd_sync_state n) @ map wire_block bs"
  using assms
proof (induction arbitrary: bs)
  case (next_message n net msg n1 r msgs n')
  then obtain b bs' where bs: "bs = b # bs'" "msg = block_message b" "msgs = map block_message bs'" by (cases bs) auto
  have "nd_chain n1 = nd_chain n \<and> ss_active (nd_sync_state n1) \<and> ss_peer (nd_sync_state n1) = Some p \<and>
      ss_buffer (nd_sync_state n1) = ss_buffer (nd_sync_state n) @ [wire_block b]"
    using next_message.hyps(1-4) next_message.prems(2-4) bs by (intro block_turn [of n p W net b _ n1 r]) simp_all
  with next_message.IH [OF bs(3)] next_message.prems(2) bs(1) show ?case by simp
qed simp_all

lemma catch_up_started:
  assumes "\<not> ss_active (nd_sync_state n)" and "ask_blocks W n p = (n1, Inr ())" and "ss_active (nd_sync_state n1)"
  obtains locator where "cm_locator (nd_chain n) = Inr locator"
    "send_msg W (fst (start_sync_state W n p)) p GETBLOCKS (serialize_getblocks locator) = (n1, True)"
    "nd_chain n1 = nd_chain n" "ss_peer (nd_sync_state n1) = Some p" "ss_buffer (nd_sync_state n1) = []"
proof -
  obtain locator where l: "cm_locator (nd_chain n) = Inr locator"
    using assms(1,2) by (cases "cm_locator (nd_chain n)") (auto simp: ask_blocks_def start_sync_state_def)
  obtain net ok where s: "send_msg W (fst (start_sync_state W n p)) p GETBLOCKS (serialize_getblocks locator) =
      ((fst (start_sync_state W n p))\<lparr>nd_net := net\<rparr>, ok)" by (rule send_msg_net)
  then have "ok \<and> n1 = (fst (start_sync_state W n p))\<lparr>nd_net := net\<rparr>"
    using assms l by (auto simp: ask_blocks_def start_sync_state_def reset_sync_state_def new_SyncState_def split: if_splits)
  then show ?thesis using that l s assms(1) by (simp add: start_sync_state_def)
qed

text \<open>The idle timeout has passed since the last block.\<close>

definition sync_due :: "('db, 'net) world \<Rightarrow> ('db, 'net) Node \<Rightarrow> bool" where
  "sync_due W n \<longleftrightarrow> node_now W n - ss_last_block (nd_sync_state n) > SYNC_IDLE_TIMEOUT"

lemma finish_due:
  assumes "sync_due W n" and "ss_active (nd_sync_state n)" and "ss_buffer (nd_sync_state n) = bs" and "bs \<noteq> []"
    and "adopt_branch (w_platform W) (w_unix_time W (nd_net n)) (nd_chain n) bs = (m, Inr ok)"
  shows "\<exists>n'. finish_sync_if_due W n = (n', Inr ()) \<and> nd_chain n' = m \<and> \<not> ss_active (nd_sync_state n')"
  using assms by (simp add: finish_sync_if_due_def sync_due_def reset_sync_state_def new_SyncState_def Let_def)

lemma locator_travels:
  assumes "chain_inv C S bc" and "sha_len C" and "length (bc_blocks bc) < 2 ^ 63" and "build_locator bc = Inr locator"
  shows "deserialize_getblocks (serialize_getblocks locator) = Some locator"
proof -
  have ne: "bc_blocks bc \<noteq> []" using assms(1) by (auto simp: chain_inv_def)
  have "set locator \<subseteq> b_hash ` set (bc_blocks bc)" "length locator \<le> 63 + 11"
    using build_locator_facts [OF ne, of 63] assms(3,4) by auto
  moreover have "length (b_hash b) = 32" if "b \<in> set (bc_blocks bc)" for b
    using assms(1,2) that by (auto simp: chain_inv_def sound_block_def block_compute_hash_def double_sha_256_def sha_len_def)
  ultimately have "wf_getblocks locator" by (auto simp: wf_getblocks_def)
  then show ?thesis by (rule getblocks_codec.des_ser)
qed

lemma answer_exists:
  assumes "chain_inv C S A" and "chain_inv C S (cm_blockchain peer)" and "build_locator A = Inr locator"
    and "chain_height peer < 2 ^ 63"
  shows "\<exists>blocks. blocks_after_locator peer locator MAX_BLOCKS_PER_RESPONSE = Inr blocks \<and>
    set blocks \<subseteq> set (bc_blocks (cm_blockchain peer))"
proof -
  obtain h where h: "find_locator_match (cm_blockchain peer) locator = Some h" "h < length (bc_blocks (cm_blockchain peer))"
    using locator_match_facts [OF assms(1-3)] by blast
  have "(h + 1 + 2000) mod 2 ^ 64 = h + 1 + 2000"
    using assms(4) h(2) by (intro mod_less) (simp add: chain_height_def bc_size_def)
  then show ?thesis
    using h by (auto simp: blocks_after_locator_def blocks_between_def MAX_BLOCKS_PER_RESPONSE_def bc_size_def Let_def)
qed

text \<open>C2: Catching up converges. A node asks a peer for the blocks after its locator. The request decodes at the
  peer, which answers with one message per block. When those messages, fewer than 2000, have arrived in order and the
  idle timeout has passed, the node adopts the blocks and then has exactly the peer's chain, accumulated work
  included, in its database too if it has one; the catch-up is over. The peer's chain is heavier, obeys the rules on
  times and difficulties, has its payments signed, and its tip is new to the node; the database takes writes.
  This holds wherever the two chains diverge.\<close>

theorem sync_converges:
  fixes n :: "('db, 'net) Node" and q :: "('db2, 'net2) Node"
  assumes "node_inv W S n" and "node_inv W' S q" and "pf_crypto (w_platform W') = pf_crypto (w_platform W)"
    and "sha_len (pf_crypto (w_platform W))"
    and "wire_chain (pf_crypto (w_platform W)) (cm_blockchain (nd_chain n))"
    and "wire_chain (pf_crypto (w_platform W)) (cm_blockchain (nd_chain q))"
    and "storage_works (w_platform W) V (nd_chain n)" and "0 < mp_max_size (cm_mempool (nd_chain n))"
    and "chain_height (nd_chain n) < 2 ^ 63" and "chain_height (nd_chain q) < 2 ^ 63"
    and "b_cumulative_work (latest (cm_blockchain (nd_chain n))) < b_cumulative_work (latest (cm_blockchain (nd_chain q)))"
    and "\<not> cm_has_block (nd_chain n) (latest_hash (nd_chain q))"
    and "\<not> ss_active (nd_sync_state n)" and "ask_blocks W n p = (n1, Inr ())" and "ss_active (nd_sync_state n1)"
  shows "\<exists>locator blocks. cm_locator (nd_chain n) = Inr locator \<and>
    send_msg W (fst (start_sync_state W n p)) p GETBLOCKS (serialize_getblocks locator) = (n1, True) \<and>
    blocks_after_locator (nd_chain q) locator MAX_BLOCKS_PER_RESPONSE = Inr blocks \<and>
    handle_message W' q c \<lparr>msg_type = GETBLOCKS, msg_payload = serialize_getblocks locator\<rparr> =
      (send_each W' q c (map (\<lambda>b. (BLOCK, block_serialize b)) blocks), Inr ()) \<and>
    (\<forall>n2. length blocks < MAX_BLOCKS_PER_RESPONSE \<and> delivered W p n1 (map block_message blocks) n2 \<and> sync_due W n2 \<and>
        obeys_rules (w_platform W) (cm_params (nd_chain n)) (w_unix_time W (nd_net n2)) (cm_blockchain (nd_chain q)) \<longrightarrow>
      (\<exists>n3. finish_sync_if_due W n2 = (n3, Inr ()) \<and> \<not> ss_active (nd_sync_state n3) \<and>
        bc_blocks (cm_blockchain (nd_chain n3)) = bc_blocks (cm_blockchain (nd_chain q)) \<and> stored_chain V (nd_chain n3)))"
proof -
  let ?P = "w_platform W" and ?m = "nd_chain n" and ?peer = "nd_chain q"
  have A: "cm_inv ?P S ?m" "chain_inv (pf_crypto ?P) S (cm_blockchain ?m)" and B: "chain_inv (pf_crypto ?P) S (cm_blockchain ?peer)"
    using assms(1-3) by (simp_all add: node_inv_def cm_inv_def)
  obtain locator where loc: "cm_locator ?m = Inr locator"
    "send_msg W (fst (start_sync_state W n p)) p GETBLOCKS (serialize_getblocks locator) = (n1, True)"
    and n1: "nd_chain n1 = ?m" "ss_peer (nd_sync_state n1) = Some p" "ss_buffer (nd_sync_state n1) = []"
    by (rule catch_up_started [OF assms(13-15)])
  have b: "build_locator (cm_blockchain ?m) = Inr locator" using loc(1) by (simp add: cm_locator_def)
  obtain blocks where ans: "blocks_after_locator ?peer locator MAX_BLOCKS_PER_RESPONSE = Inr blocks"
    using answer_exists [OF A(2) B b assms(10)] by blast
  have "deserialize_getblocks (serialize_getblocks locator) = Some locator"
    using assms(9) by (intro locator_travels [OF A(2) assms(4) _ b]) (simp add: chain_height_def bc_size_def)
  then have handled: "handle_message W' q c \<lparr>msg_type = GETBLOCKS, msg_payload = serialize_getblocks locator\<rparr> =
      (send_each W' q c (map (\<lambda>b. (BLOCK, block_serialize b)) blocks), Inr ())"
    using ans by (simp add: handle_message_def handle_getblocks_def)
  have "\<exists>n3. finish_sync_if_due W n2 = (n3, Inr ()) \<and> \<not> ss_active (nd_sync_state n3) \<and>
      bc_blocks (cm_blockchain (nd_chain n3)) = bc_blocks (cm_blockchain ?peer) \<and> stored_chain V (nd_chain n3)"
    if n2: "length blocks < MAX_BLOCKS_PER_RESPONSE" "delivered W p n1 (map block_message blocks) n2" "sync_due W n2"
      "obeys_rules ?P (cm_params ?m) (w_unix_time W (nd_net n2)) (cm_blockchain ?peer)" for n2
  proof -
    obtain m' where m': "\<forall>b\<in>set blocks. block_deserialize (pf_crypto ?P) (block_serialize b) = Some (wire_block b)"
      "blocks \<noteq> []" "adopt_branch ?P (w_unix_time W (nd_net n2)) ?m (map wire_block blocks) = (m', Inr True)"
      "bc_blocks (cm_blockchain m') = bc_blocks (cm_blockchain ?peer)" "stored_chain V m'"
      using answer_adopted [OF A(1) B assms(5-8,10) loc(1) ans n2(1,4) assms(11,12)] by blast
    from delivered_blocks [OF n2(2) refl m'(1) assms(15) n1(2)] n1 m'
    show ?thesis using finish_due [OF n2(3), of "map wire_block blocks" m' True] by auto
  qed
  with loc ans handled show ?thesis by blast
qed

section \<open>A sample exchange\<close>

text \<open>A node with only the genesis block, in memory and in its database, and a peer that is one block ahead. The clock
  counts the bytes written to descriptor zero.\<close>

definition sync_world :: "(mem_db, mem_net) world" where
  "sync_world = sample_world\<lparr>w_tcp := sample_tcp\<lparr>tcp_now := (\<lambda>net. seconds (int (length (mn_out net 0))))\<rparr>\<rparr>"

definition sync_node :: "(mem_db, mem_net) Node" where
  "sync_node = (new_Node 0 quiet_net 8000 sample_version (sample_manager (Some sample_db)))
     \<lparr>nd_running := True, nd_store := [new_Peer 0 3 sample_version ''10.0.0.2'']\<rparr>"

definition ahead_manager :: "mem_db ChainManager" where
  "ahead_manager = extended sample_platform (sample_manager None) sample_a empty_ledger"

definition ahead_node :: "(mem_db, mem_net) Node" where
  "ahead_node = new_Node 0 quiet_net 9000 sample_version ahead_manager"

lemma sync_world_sel [simp]: "w_platform sync_world = sample_platform" "w_os sync_world = mem_os" "w_unix_time sync_world net = 5"
  "tcp_now (w_tcp sync_world) net = seconds (int (length (mn_out net 0)))"
  by (simp_all add: sync_world_def sample_world_def)

lemma ahead_chain [simp]: "cm_blockchain ahead_manager = sample_bc"
  by (simp add: ahead_manager_def sample_bc_def)

lemma sample_obeys_rules: "obeys_rules sample_platform sample_params 5 sample_bc"
  unfolding obeys_rules_def
proof (intro allI impI)
  fix i assume "0 < i \<and> i < length (bc_blocks sample_bc)"
  then have "i = 1" by auto
  moreover have "b_timestamp (genesis_block sample_openssl) = 0" by (simp add: genesis_block_def mk_Block_def)
  ultimately show "timestamp_is_valid (bc_blocks sample_bc ! i) i 5 sample_params (bc_at sample_bc) = Inr True \<and>
      next_difficulty (pf_log2 sample_platform) i sample_params (bc_at sample_bc) = Inr (b_difficulty (bc_blocks sample_bc ! i))"
    by (simp add: timestamp_is_valid_def median_time_past_def bc_at_def vec_at_def next_difficulty_def
        sample_params_def kTestParams_def)
qed

lemma sync_locator: "cm_locator (sample_manager st) = Inr [sample_hash 1]"
  by (simp add: cm_locator_def build_locator_def new_Blockchain_def bc_size_def bc_at_def vec_at_def locator_loop.simps)

lemma ahead_answer:
  "blocks_after_locator ahead_manager [sample_hash 1] MAX_BLOCKS_PER_RESPONSE = Inr [sample_a\<lparr>b_cumulative_work := 2\<rparr>]"
proof -
  have "find_height sample_bc (sample_hash 1) = Some 0"
    using find_height_Some [OF sample_bc_inv, of "sample_hash 1" 0] by simp
  then show ?thesis
    by (simp add: blocks_after_locator_def bc_size_def blocks_between_def MAX_BLOCKS_PER_RESPONSE_def)
qed

lemma sync_asks:
  fixes n :: "(mem_db, mem_net) Node"
  assumes "nd_net n = quiet_net" and "nd_store n = [new_Peer 0 3 sample_version ''10.0.0.2'']"
    and "nd_sync_state n = new_SyncState" and "cm_locator (nd_chain n) = Inr ls" and "length (serialize_getblocks ls) < 1000"
  obtains net where "ask_blocks sync_world n 0 = (n\<lparr>
    nd_sync_state := \<lparr>ss_active = True, ss_peer = Some 0, ss_buffer = [], ss_last_block = 0\<rparr>, nd_net := net\<rparr>, Inr ())"
proof -
  have send: "\<exists>net'. send_exact mem_os net fd bs = (net', True)" for net fd bs
    by (subst send_exact.simps) (simp add: mem_os_def send_exact.simps)
  have len: "\<not> MAX_PAYLOAD_SIZE < word_of_nat (length (serialize_getblocks ls))"
    using assms(5) by (simp add: MAX_PAYLOAD_SIZE_def word_less_nat_alt unat_of_nat)
  let ?msg = "\<lparr>msg_type = GETBLOCKS, msg_payload = serialize_getblocks ls\<rparr>"
  obtain net1 where net1: "send_exact mem_os quiet_net 3 (message_header ?msg) = (net1, True)" using send by blast
  obtain net where "send_exact mem_os net1 3 (serialize_getblocks ls) = (net, True)" using send by blast
  with net1 len have "send_message mem_os quiet_net 3 ?msg = (net, True)" by (simp add: send_message_def)
  then show ?thesis using that assms(1-4)
    by (simp add: ask_blocks_def start_sync_state_def new_SyncState_def send_msg_def new_Peer_def quiet_net_def)
qed

lemma sync_delivered:
  fixes n1 :: "(mem_db, mem_net) Node" and b :: Block
  assumes "nd_running n1" and "nd_store n1 = [new_Peer 0 3 sample_version ''10.0.0.2'']"
    and "length (block_serialize b) < 1000"
  obtains n2 where "delivered sync_world 0 n1 [block_message b] n2" "sync_due sync_world n2"
proof -
  let ?in = "quiet_net\<lparr>mn_in := (\<lambda>_. [Some (message_header (block_message b) @ block_serialize b)])\<rparr>"
  let ?n = "n1\<lparr>nd_net := ?in\<rparr>"
  have "wf_message (block_message b)" using assms(3) by (simp add: wf_message_def named_type_def MAX_PAYLOAD_SIZE_def)
  then obtain net where r: "receive_message mem_os ?in 3 = Some (net, Some (block_message b))"
    using receive_message_ok [OF mem_recv_laws, of "block_message b" ?in 3 "[]"] by (auto simp: mem_net_view_def)
  have fd: "pr_socket (peer_of ?n 0) = 3" "pr_alive (peer_of ?n 0)" "nd_running ?n" using assms(1,2) by (simp_all add: new_Peer_def)
  then have "peer_loop_turn sync_world ?n 0 \<noteq> None" using r by (simp add: peer_loop_turn_def Let_def)
  then obtain n' res where t: "peer_loop_turn sync_world ?n 0 = Some (n', res)" by fastforce
  obtain k where k: "ss_last_block (nd_sync_state n') < seconds (int k) - SYNC_IDLE_TIMEOUT"
  proof
    show "ss_last_block (nd_sync_state n') < seconds (int (nat \<bar>ss_last_block (nd_sync_state n')\<bar> + 1)) - SYNC_IDLE_TIMEOUT"
      by (simp add: SYNC_IDLE_TIMEOUT_def)
  qed
  let ?n2 = "n'\<lparr>nd_net := quiet_net\<lparr>mn_out := (\<lambda>_. replicate k 0)\<rparr>\<rparr>"
  have "delivered sync_world 0 n' [] ?n2" by (rule delivered.other_work [OF _ _ delivered.no_more]) simp_all
  then have "delivered sync_world 0 ?n [block_message b] ?n2"
    using fd r t by (intro delivered.next_message [of ?n 0 sync_world net _ n' res]) simp_all
  then have "delivered sync_world 0 n1 [block_message b] ?n2" by (rule delivered.other_work [rotated 2]) simp_all
  moreover have "sync_due sync_world ?n2" using k by (simp add: sync_due_def)
  ultimately show ?thesis by (rule that)
qed

theorem sync_converges_witness:
  "\<exists>n1 n2 n3. ask_blocks sync_world sync_node 0 = (n1, Inr ()) \<and>
     delivered sync_world 0 n1 [block_message (sample_a\<lparr>b_cumulative_work := 2\<rparr>)] n2 \<and>
     finish_sync_if_due sync_world n2 = (n3, Inr ()) \<and>
     bc_blocks (cm_blockchain (nd_chain n3)) = bc_blocks sample_bc \<and> stored_chain mem_view (nd_chain n3)"
proof -
  let ?m = "sample_manager (Some sample_db)" and ?b = "sample_a\<lparr>b_cumulative_work := 2\<rparr>"
  obtain net where ask: "ask_blocks sync_world sync_node 0 = (sync_node\<lparr>
      nd_sync_state := \<lparr>ss_active = True, ss_peer = Some 0, ss_buffer = [], ss_last_block = 0\<rparr>, nd_net := net\<rparr>, Inr ())" (is "_ = (?n1, _)")
    by (rule sync_asks [of sync_node "[sample_hash 1]"])
      (simp_all add: sync_node_def new_Node_def sync_locator serialize_getblocks_def)
  have chains: "nd_chain sync_node = ?m" "nd_chain ahead_node = ahead_manager"
    by (simp_all add: sync_node_def ahead_node_def new_Node_def)
  have inv: "node_inv sync_world sample_universe sync_node" "node_inv sync_world sample_universe ahead_node"
    using submit_block_inv [OF sample_manager_inv [of None] _ _ _ sample_a_accepted]
    by (simp_all add: sync_node_def ahead_node_def node_inv_def new_Node_def conns_ok_def book_inv_def ahead_manager_def)
  have "stored_chain mem_view ?m" by (simp add: stored_chain_def sample_db_def empty_db_def mem_view_def)
  then have works: "storage_works sample_platform mem_view ?m" by (simp add: storage_works_def mem_accepts_writes)
  have new: "\<not> cm_has_block ?m (latest_hash ahead_manager)"
    unfolding cm_has_block_def latest_hash_def sample_manager_sel known_block_iff [OF new_chain_inv [OF sample_collision_free sample_members(1)]]
    by (simp add: latest_def)
  obtain n2 where n2: "delivered sync_world 0 ?n1 [block_message ?b] n2" "sync_due sync_world n2"
  proof (rule sync_delivered [of ?n1 ?b])
    show "length (block_serialize ?b) < 1000"
      by (simp add: block_serialize_def sample_a_def sample_child_def mk_Block_def Let_def sample_sha_def)
  qed (simp_all add: sync_node_def)
  have facts: "pf_crypto (w_platform sync_world) = pf_crypto (w_platform sync_world)" "sha_len (pf_crypto (w_platform sync_world))"
    "wire_chain (pf_crypto (w_platform sync_world)) (cm_blockchain (nd_chain sync_node))"
    "wire_chain (pf_crypto (w_platform sync_world)) (cm_blockchain (nd_chain ahead_node))"
    "storage_works (w_platform sync_world) mem_view (nd_chain sync_node)" "0 < mp_max_size (cm_mempool (nd_chain sync_node))"
    "chain_height (nd_chain sync_node) < 2 ^ 63" "chain_height (nd_chain ahead_node) < 2 ^ 63"
    "b_cumulative_work (latest (cm_blockchain (nd_chain sync_node))) < b_cumulative_work (latest (cm_blockchain (nd_chain ahead_node)))"
    "\<not> cm_has_block (nd_chain sync_node) (latest_hash (nd_chain ahead_node))"
    using works new sample_wire_chain by (simp_all add: chains chain_height_def bc_size_def latest_def mk_Mempool_def)
  have small: "Suc 0 < MAX_BLOCKS_PER_RESPONSE" by (simp add: MAX_BLOCKS_PER_RESPONSE_def)
  have "\<not> ss_active (nd_sync_state sync_node)" "ss_active (nd_sync_state ?n1)"
    by (simp_all add: sync_node_def new_Node_def new_SyncState_def)
  from sync_converges [OF inv facts this(1) ask this(2), of 0] obtain n3 where
    "finish_sync_if_due sync_world n2 = (n3, Inr ())" "bc_blocks (cm_blockchain (nd_chain n3)) = bc_blocks sample_bc"
    "stored_chain mem_view (nd_chain n3)"
    using n2 sample_obeys_rules small by (auto simp: chains sync_locator ahead_answer)
  with ask n2(1) show ?thesis by blast
qed

end
