(* ===== verification/FC_Rpc.thy ===== *)
theory FC_Rpc
  imports FC_NodeInv
begin

text \<open>
  The RPC server of a node (src/src/app/RpcServer.cpp), the wallet that talks to it (src/src/app/Wallet.cpp,
  src/src/crypto/Keys.cpp) and the wallet's command line (src/src/app/WalletCli.cpp, wallet_main.cpp). A request
  is one line of text; a stream of words is the text not yet read. What is printed is the list of lines.
\<close>

abbreviation newline :: char where "newline \<equiv> CHR 0x0A"

section \<open>The server\<close>

record RpcServer =
  rs_port :: u16
  rs_listener :: int
  rs_running :: bool
  rs_api_key :: str

definition new_RpcServer :: "u16 \<Rightarrow> RpcServer" where
  "new_RpcServer port = \<lparr>rs_port = port, rs_listener = - 1, rs_running = False, rs_api_key = []\<rparr>"

definition set_api_key :: "RpcServer \<Rightarrow> str \<Rightarrow> RpcServer" where
  "set_api_key rs api_key = rs\<lparr>rs_api_key := api_key\<rparr>"

definition api_key_required :: "RpcServer \<Rightarrow> bool" where
  "api_key_required rs \<longleftrightarrow> rs_api_key rs \<noteq> []"

definition check_api_key :: "RpcServer \<Rightarrow> str \<Rightarrow> bool" where
  "check_api_key rs provided_key \<longleftrightarrow> (if rs_api_key rs = [] then True else rs_api_key rs = provided_key)"

text \<open>The branches of \<open>handle_command\<close> once the command word is known; \<open>iss\<close> is the rest of the line.\<close>

definition rpc_submit_tx ::
  "('db, 'net) world \<Rightarrow> ('db, 'net) Node \<Rightarrow> str \<Rightarrow> ('db, 'net) Node \<times> str result" where
  "rpc_submit_tx W n hex =
     (if hex = [] then (n, Inr ''ERROR_EMPTY_PAYLOAD'')
      else case from_hex hex of
        None \<Rightarrow> (n, Inr ''ERROR_INVALID_HEX'')
      | Some bytes \<Rightarrow>
          (case tx_deserialize bytes of
             None \<Rightarrow> (n, Inr ''ERROR_INVALID_PAYLOAD'')
           | Some tx \<Rightarrow>
               (case node_submit_transaction W n tx of
                  (n, Inl e) \<Rightarrow> (n, Inl e)
                | (n, Inr _) \<Rightarrow> (n, Inr ''OK''))))"

definition rpc_dispatch ::
  "('db, 'net) world \<Rightarrow> ('db, 'net) Node \<Rightarrow> str \<Rightarrow> str \<Rightarrow> ('db, 'net) Node \<times> str result" where
  "rpc_dispatch W n command iss =
     (if command = ''GETBALANCE'' then
        let address = fst (take_token iss []) in
        if address = [] then (n, Inr ''ERROR_EMPTY_ADDRESS'')
        else case cm_get_balance (nd_chain n) address of
               Some v \<Rightarrow> (n, Inr (to_string (unat v)))
             | None \<Rightarrow> (n, Inr ''UNKNOWN'')
      else if command = ''GETNONCE'' then
        let address = fst (take_token iss []) in
        if address = [] then (n, Inr ''ERROR_EMPTY_ADDRESS'')
        else (n, Inr (to_string (unat (cm_next_nonce (nd_chain n) address))))
      else if command = ''SUBMITTX'' then rpc_submit_tx W n (fst (take_token iss []))
      else if command = ''HEIGHT'' then (n, Inr (to_string (chain_height (nd_chain n))))
      else if command = ''PEERS'' then (n, Inr (to_string (peer_count n)))
      else (n, Inr ''ERROR_UNKNOWN_COMMAND''))"

definition handle_command ::
  "('db, 'net) world \<Rightarrow> RpcServer \<Rightarrow> ('db, 'net) Node \<Rightarrow> str \<Rightarrow> ('db, 'net) Node \<times> str result" where
  "handle_command W rs n line =
     (case take_token line [] of
        (command, iss) \<Rightarrow>
          if api_key_required rs then
            if \<not> check_api_key rs command then (n, Inr ''ERROR unauthorized'')
            else case take_token iss command of (command, iss) \<Rightarrow> rpc_dispatch W n command iss
          else rpc_dispatch W n command iss)"

text \<open>Reading the request byte by byte; \<open>None\<close> as the line is one that got too long.\<close>

partial_function (option) rpc_read_line :: "'net os \<Rightarrow> 'net \<Rightarrow> int \<Rightarrow> str \<Rightarrow> ('net \<times> str option) option" where
  "rpc_read_line sys net fd line =
     Option.bind (read_exact sys net fd 1) (\<lambda>(net, got).
       case got of
         None \<Rightarrow> Some (net, Some line)
       | Some byte \<Rightarrow>
           if length line \<ge> 4096 then Some (net, None)
           else if byte_char (hd byte) = newline then Some (net, Some line)
           else rpc_read_line sys net fd (line @ [byte_char (hd byte)]))"

definition handle_connection ::
  "('db, 'net) world \<Rightarrow> RpcServer \<Rightarrow> ('db, 'net) Node \<Rightarrow> int \<Rightarrow> (('db, 'net) Node \<times> unit result) option" where
  "handle_connection W rs n fd = do {
     (net, line) \<leftarrow> rpc_read_line (w_os W) (nd_net n) fd [];
     let n = n\<lparr>nd_net := net\<rparr>;
     case line of
       None \<Rightarrow>
         let net = fst (send_exact (w_os W) (nd_net n) fd (str_bytes ''ERROR''))
         in Some (drop_socket W (n\<lparr>nd_net := net\<rparr>) fd, Inr ())
     | Some line \<Rightarrow>
         (case handle_command W rs n line of
            (n, Inl e) \<Rightarrow> Some (drop_socket W n fd, Inl e)
          | (n, Inr answer) \<Rightarrow>
              let net = fst (send_exact (w_os W) (nd_net n) fd (str_bytes (answer @ [newline])))
              in Some (drop_socket W (n\<lparr>nd_net := net\<rparr>) fd, Inr ()))
   }"

definition rpc_start :: "('db, 'net) world \<Rightarrow> ('db, 'net) Node \<Rightarrow> RpcServer \<Rightarrow> ('db, 'net) Node \<times> RpcServer \<times> bool" where
  "rpc_start W n rs =
     (case listen_on (w_tcp W) (nd_net n) (rs_port rs) of
        (net, fd) \<Rightarrow>
          let net = fst (close_socket (w_tcp W) net (rs_listener rs)); rs = rs\<lparr>rs_listener := fd\<rparr> in
          if \<not> is_valid fd then (n\<lparr>nd_net := net\<rparr>, rs, False)
          else (n\<lparr>nd_net := set_receive_timeout (w_tcp W) net fd 1\<rparr>, rs\<lparr>rs_running := True\<rparr>, True))"

text \<open>One turn of the accept loop.\<close>

definition rpc_accept_turn ::
  "('db, 'net) world \<Rightarrow> RpcServer \<Rightarrow> ('db, 'net) Node \<Rightarrow> (('db, 'net) Node \<times> unit result) option" where
  "rpc_accept_turn W rs n =
     (case accept_connection (w_tcp W) (nd_net n) (rs_listener rs) of
        (net, fd) \<Rightarrow>
          let n = n\<lparr>nd_net := net\<rparr> in
          if \<not> is_valid fd then Some (n, Inr ()) else handle_connection W rs n fd)"

definition rpc_stop :: "('db, 'net) world \<Rightarrow> ('db, 'net) Node \<Rightarrow> RpcServer \<Rightarrow> ('db, 'net) Node \<times> RpcServer" where
  "rpc_stop W n rs =
     (case close_socket (w_tcp W) (nd_net n) (rs_listener rs) of
        (net, fd) \<Rightarrow> (n\<lparr>nd_net := net\<rparr>, rs\<lparr>rs_running := False, rs_listener := fd\<rparr>))"

section \<open>Keys and the wallet\<close>

record KeyPair =
  kp_public_key :: bytes
  kp_private_key :: bytes

text \<open>\<open>BN_bn2bin\<close>: the bytes of a number, most significant first, without leading zeros.\<close>

fun big_endian :: "nat \<Rightarrow> bytes" where
  "big_endian n = (if n = 0 then [] else big_endian (n div 256) @ [word_of_nat (n mod 256)])"

declare big_endian.simps [simp del]

text \<open>\<open>key\<close> is what the key generator of OpenSSL produces: the private number and the encoded public point.\<close>

definition generate_keypair :: "openssl \<Rightarrow> nat \<times> bytes \<Rightarrow> KeyPair result" where
  "generate_keypair C key =
     require (ossl_call C ''EVP_PKEY_CTX_new_id'') ''EVP_PKEY_CTX_new_id failed'' (
     require (ossl_call C ''EVP_PKEY_keygen_init'') ''keygen init failed'' (
     require (ossl_call C ''EVP_PKEY_CTX_set_ec_paramgen_curve_nid'') ''set curve failed'' (
     require (ossl_call C ''EVP_PKEY_keygen'') ''EVP_PKEY_keygen failed'' (
     require (ossl_call C ''EVP_PKEY_get1_EC_KEY'') ''EVP_PKEY_get1_EC_KEY failed'' (
     Inr \<lparr>kp_public_key = snd key, kp_private_key = big_endian (fst key)\<rparr>)))))"

record Wallet =
  wa_keys :: KeyPair
  wa_address :: str

record RpcConfiguration =
  rc_address :: PeerAddress
  rc_rpc_api_key :: str

definition load_from_file :: "str \<Rightarrow> KeyPair option" where
  "load_from_file file = do {
     (buffer, file) \<leftarrow> read_token file;
     private_key \<leftarrow> from_hex buffer;
     (buffer, file) \<leftarrow> read_token file;
     public_key \<leftarrow> from_hex buffer;
     Some \<lparr>kp_public_key = public_key, kp_private_key = private_key\<rparr>
   }"

definition save_to_file :: "KeyPair \<Rightarrow> str" where
  "save_to_file keys = to_hex (kp_private_key keys) @ [newline] @ to_hex (kp_public_key keys) @ [newline]"

text \<open>
  The constructor: \<open>file\<close> is the text of the key file or \<open>None\<close> when it cannot be opened, \<open>writable\<close> whether it
  can be created. The second component is the text written, if any.
\<close>

definition new_Wallet :: "openssl \<Rightarrow> nat \<times> bytes \<Rightarrow> str option \<Rightarrow> bool \<Rightarrow> str \<Rightarrow> (Wallet \<times> str option) result" where
  "new_Wallet C key file writable path =
     (let wallet = (\<lambda>keys. \<lparr>wa_keys = keys, wa_address = derive_address C (kp_public_key keys)\<rparr>) in
      case file of
        Some text \<Rightarrow>
          (case load_from_file text of
             None \<Rightarrow> Inl (Runtime_error (''malformed keyfile: '' @ path))
           | Some keys \<Rightarrow> Inr (wallet keys, None))
      | None \<Rightarrow>
          bindE (generate_keypair C key) (\<lambda>keys.
            require writable (''failed to create keyfile: '' @ path) (Inr (wallet keys, Some (save_to_file keys)))))"

partial_function (option) read_from :: "'net os \<Rightarrow> 'net \<Rightarrow> int \<Rightarrow> str \<Rightarrow> ('net \<times> str) option" where
  "read_from sys net fd line =
     Option.bind (read_exact sys net fd 1) (\<lambda>(net, got).
       case got of
         None \<Rightarrow> Some (net, line)
       | Some byte \<Rightarrow>
           if byte_char (hd byte) = newline then Some (net, line)
           else read_from sys net fd (line @ [byte_char (hd byte)]))"

text \<open>Connect, send one command and read the answer: the body the wallet's requests share.\<close>

definition rpc_request ::
  "('db, 'net) world \<Rightarrow> 'net \<Rightarrow> RpcConfiguration \<Rightarrow> str \<Rightarrow> ('net \<times> str option) option" where
  "rpc_request W net cfg command = do {
     (net, fd) \<leftarrow> connect_to (w_tcp W) net (pa_host (rc_address cfg)) (pa_port (rc_address cfg));
     if \<not> is_valid fd then Some (net, None)
     else case send_exact (w_os W) net fd (str_bytes command) of
       (net, ok) \<Rightarrow>
         if \<not> ok then Some (fst (close_socket (w_tcp W) net fd), None)
         else do {
           (net, line) \<leftarrow> read_from (w_os W) net fd [];
           Some (fst (close_socket (w_tcp W) net fd), Some line)
         }
   }"

definition wallet_balance ::
  "('db, 'net) world \<Rightarrow> 'net \<Rightarrow> Wallet \<Rightarrow> RpcConfiguration \<Rightarrow> ('net \<times> str option) option" where
  "wallet_balance W net w cfg = rpc_request W net cfg (rc_rpc_api_key cfg @ '' GETBALANCE '' @ wa_address w @ [newline])"

definition wallet_height :: "('db, 'net) world \<Rightarrow> 'net \<Rightarrow> RpcConfiguration \<Rightarrow> ('net \<times> str option) option" where
  "wallet_height W net cfg = rpc_request W net cfg (rc_rpc_api_key cfg @ '' HEIGHT'' @ [newline])"

definition wallet_peers :: "('db, 'net) world \<Rightarrow> 'net \<Rightarrow> RpcConfiguration \<Rightarrow> ('net \<times> str option) option" where
  "wallet_peers W net cfg = rpc_request W net cfg (rc_rpc_api_key cfg @ '' PEERS'' @ [newline])"

definition wallet_next_nonce ::
  "('db, 'net) world \<Rightarrow> 'net \<Rightarrow> Wallet \<Rightarrow> RpcConfiguration \<Rightarrow> ('net \<times> str option) option" where
  "wallet_next_nonce W net w cfg = rpc_request W net cfg (rc_rpc_api_key cfg @ '' GETNONCE '' @ wa_address w @ [newline])"

text \<open>The signed payment \<open>send\<close> builds once it knows the nonce, and the line it submits it with.\<close>

definition wallet_tx :: "openssl \<Rightarrow> Wallet \<Rightarrow> str \<Rightarrow> u64 \<Rightarrow> u64 \<Rightarrow> int \<Rightarrow> Transaction result" where
  "wallet_tx C w recipient amount fee nonce =
     (let tx = mk_Transaction (wa_address w) recipient amount (kp_public_key (wa_keys w)) fee (word_of_int nonce) in
      bindE (sign C (serialize_for_signing tx) (kp_private_key (wa_keys w))) (\<lambda>signature.
        Inr (tx\<lparr>tx_signature := signature\<rparr>)))"

definition submit_command :: "RpcConfiguration \<Rightarrow> Transaction \<Rightarrow> str" where
  "submit_command cfg tx = rc_rpc_api_key cfg @ '' SUBMITTX '' @ to_hex (tx_serialize tx)"

definition wallet_send ::
  "('db, 'net) world \<Rightarrow> 'net \<Rightarrow> Wallet \<Rightarrow> str \<Rightarrow> u64 \<Rightarrow> u64 \<Rightarrow> RpcConfiguration \<Rightarrow> ('net \<times> bool option result) option" where
  "wallet_send W net w recipient amount fee cfg = do {
     (net, nonce_str) \<leftarrow> wallet_next_nonce W net w cfg;
     case Option.bind nonce_str parse_number of
       None \<Rightarrow> Some (net, Inr None)
     | Some nonce \<Rightarrow>
         (case wallet_tx (pf_crypto (w_platform W)) w recipient amount fee nonce of
            Inl e \<Rightarrow> Some (net, Inl e)
          | Inr tx \<Rightarrow> do {
              (net, answer) \<leftarrow> rpc_request W net cfg (submit_command cfg tx @ [newline]);
              Some (net, Inr (map_option (\<lambda>line. line = ''OK'') answer))
            })
   }"

section \<open>The wallet's command line\<close>

record WalletCli =
  wc_wallet :: Wallet
  wc_rpc_config :: RpcConfiguration

text \<open>Every command returns the new state, the network, what it printed and whether it threw.\<close>

definition cli_connect :: "WalletCli \<Rightarrow> str \<Rightarrow> WalletCli \<times> str list" where
  "cli_connect cli iss =
     (case read_token iss of
        None \<Rightarrow> (cli, [''usage: connect <host> <port>''])
      | Some (host, iss) \<Rightarrow>
          (case read_token iss of
             None \<Rightarrow> (cli, [''usage: connect <host> <port>''])
           | Some (port, _) \<Rightarrow>
               (case parse_number port of
                  None \<Rightarrow> (cli, [''invalid port: '' @ port])
                | Some port_number \<Rightarrow>
                    let p = (word_of_int port_number :: u16) in
                    (cli\<lparr>wc_rpc_config := (wc_rpc_config cli)\<lparr>rc_address := \<lparr>pa_host = host, pa_port = p\<rparr>\<rparr>\<rparr>,
                     [''target set to '' @ host @ '':'' @ to_string (unat p)]))))"

definition cli_set :: "WalletCli \<Rightarrow> str \<Rightarrow> WalletCli \<times> str list" where
  "cli_set cli iss =
     (case take_token iss [] of
        (subcommand, iss) \<Rightarrow>
          if subcommand = [] then (cli, [''usage: set rpc-api-key <value>''])
          else if subcommand = ''rpc-api-key'' then
            let api_key = fst (take_token iss []) in
            if api_key = [] then (cli, [''usage: set rpc-api-key <value>''])
            else (cli\<lparr>wc_rpc_config := (wc_rpc_config cli)\<lparr>rc_rpc_api_key := api_key\<rparr>\<rparr>, [''RPC API key set''])
          else (cli, [''unknown set target: '' @ subcommand]))"

text \<open>What \<open>send\<close> reads from its arguments: the recipient, the amount and the fee, or the message it prints.\<close>

definition send_arguments :: "str \<Rightarrow> str + (str \<times> u64 \<times> u64)" where
  "send_arguments iss =
     (case take_token iss [] of (recipient, iss) \<Rightarrow>
      case take_token iss [] of (amount_str, iss) \<Rightarrow>
      case take_token iss [] of (fee_str, iss) \<Rightarrow>
        if recipient = [] \<or> amount_str = [] then Inl ''usage: send <address> <amount> (optional) <fee>''
        else case parse_number amount_str of
          None \<Rightarrow> Inl (''invalid amount: '' @ amount_str)
        | Some amount \<Rightarrow>
            if fee_str = [] then Inr (recipient, word_of_int amount, 0)
            else case parse_number fee_str of
                   None \<Rightarrow> Inl (''invalid fee: '' @ fee_str)
                 | Some fee \<Rightarrow> Inr (recipient, word_of_int amount, word_of_int fee))"

definition cli_send ::
  "('db, 'net) world \<Rightarrow> 'net \<Rightarrow> WalletCli \<Rightarrow> str \<Rightarrow> ('net \<times> str list result) option" where
  "cli_send W net cli iss =
     (case send_arguments iss of
        Inl message \<Rightarrow> Some (net, Inr [message])
      | Inr (recipient, amount, fee) \<Rightarrow> do {
          (net, r) \<leftarrow> wallet_send W net (wc_wallet cli) recipient amount fee (wc_rpc_config cli);
          Some (net, map_sum id (\<lambda>ok. case ok of None \<Rightarrow> [''network error''] | Some True \<Rightarrow> [''sent'']
            | Some False \<Rightarrow> [''rejected by node'']) r)
        })"

text \<open>The answer, or that there was none.\<close>

definition print_answer :: "('net \<times> str option) option \<Rightarrow> ('net \<times> str list result) option" where
  "print_answer = map_option (\<lambda>(net, r). (net, Inr [case r of None \<Rightarrow> ''network error'' | Some line \<Rightarrow> line]))"

definition cli_balance :: "('db, 'net) world \<Rightarrow> 'net \<Rightarrow> WalletCli \<Rightarrow> ('net \<times> str list result) option" where
  "cli_balance W net cli = print_answer (wallet_balance W net (wc_wallet cli) (wc_rpc_config cli))"

definition cli_peers :: "('db, 'net) world \<Rightarrow> 'net \<Rightarrow> WalletCli \<Rightarrow> ('net \<times> str list result) option" where
  "cli_peers W net cli = print_answer (wallet_peers W net (wc_rpc_config cli))"

definition cli_height :: "('db, 'net) world \<Rightarrow> 'net \<Rightarrow> WalletCli \<Rightarrow> ('net \<times> str list result) option" where
  "cli_height W net cli = print_answer (wallet_height W net (wc_rpc_config cli))"

definition cli_help :: "str list" where
  "cli_help =
     [''commands:'',
      ''  send <address> <amount> [fee]  sign and submit a transaction'',
      ''  balance                  show this wallet'' @ [CHR 0x27] @ ''s balance'',
      ''  height                   show connected node'' @ [CHR 0x27] @ ''s chain height'',
      ''  peers                    show connected node'' @ [CHR 0x27] @ ''s peer count'',
      ''  connect <host> <port>    change which node'' @ [CHR 0x27] @ ''s RPC port to talk to'',
      ''  set rpc-api-key <value>  set the RPC auth token to send with requests'',
      ''  help                     show this message'',
      ''  quit / exit              exit the wallet'']"

text \<open>One line of input; the last component says whether the loop goes on.\<close>

definition cli_line ::
  "('db, 'net) world \<Rightarrow> 'net \<Rightarrow> WalletCli \<Rightarrow> str \<Rightarrow> ('net \<times> WalletCli \<times> str list result \<times> bool) option" where
  "cli_line W net cli buffer =
     (case take_token buffer [] of
        (command, iss) \<Rightarrow>
          let pure = (\<lambda>(cli, out). Some (net, cli, Inr out, True));
              remote = map_option (\<lambda>(net, out). (net, cli, out, True))
          in if command = [] then Some (net, cli, Inr [], True)
             else if command = ''help'' then Some (net, cli, Inr cli_help, True)
             else if command = ''connect'' then pure (cli_connect cli iss)
             else if command = ''set'' then pure (cli_set cli iss)
             else if command = ''exit'' \<or> command = ''quit'' then Some (net, cli, Inr [], False)
             else if command = ''balance'' then remote (cli_balance W net cli)
             else if command = ''send'' then remote (cli_send W net cli iss)
             else if command = ''peers'' then remote (cli_peers W net cli)
             else if command = ''height'' then remote (cli_height W net cli)
             else Some (net, cli, Inr [''unknown command: '' @ command], True))"

section \<open>Words of a request\<close>

lemma hex_char_not_space: "n < 16 \<Longrightarrow> \<not> is_space (hex_chars ! n)"
proof -
  assume "n < 16"
  then have "n \<in> set [0..<16]" by simp
  then show ?thesis by (simp add: upt_rec hex_chars_def is_space_def, elim disjE) simp_all
qed

lemma to_hex_word: "bs \<noteq> [] \<Longrightarrow> is_word (to_hex bs)"
proof -
  have "list_all (\<lambda>c. \<not> is_space c) (to_hex bs)"
    by (induction bs) (simp_all add: to_hex_Cons hex_char_not_space nibble_less, simp add: to_hex_def)
  then show "bs \<noteq> [] \<Longrightarrow> is_word (to_hex bs)" by (cases bs) (simp_all add: is_word_def to_hex_Cons)
qed

lemma take_token_word:
  assumes "is_word w"
  shows "take_token (w @ CHR '' '' # rest) old = (w, CHR '' '' # rest)" and "take_token w old = (w, [])"
    and "take_token (CHR '' '' # s) old = take_token s old"
  using read_token_cons [OF assms, of "CHR '' ''" rest] read_token_word [OF assms]
  by (simp_all add: take_token_def is_space_def read_token_space)

lemma take_token_space [simp]: "take_token (CHR '' '' # s) old = take_token s old"
  by (simp add: take_token_def is_space_def read_token_space)

lemma command_words [simp]: "is_word ''SUBMITTX''" "is_word ''GETNONCE''"
  by (simp_all add: is_word_def is_space_def)

text \<open>A request \<open>key COMMAND argument\<close> reaches the branch of its command, with or without a key.\<close>

lemma handle_keyed_command:
  assumes "rs_api_key rs = [] \<or> is_word (rs_api_key rs)" and "is_word command" and "is_word argument"
  shows "handle_command W rs n (rs_api_key rs @ '' '' @ command @ '' '' @ argument) =
    rpc_dispatch W n command (CHR '' '' # argument)"
  using assms take_token_word(1) [OF assms(2), of argument]
    take_token_word(1) [of "rs_api_key rs" "command @ CHR '' '' # argument"]
  by (auto simp: handle_command_def api_key_required_def check_api_key_def is_word_def)

section \<open>Properties\<close>

lemma take_token_tokens:
  assumes "take_token s old = (w, rest)"
  shows "tokens s = w # tokens rest \<or> (w = old \<and> rest = [] \<and> tokens s = [])"
  using assms tokens.simps [of s] by (auto simp: take_token_def split: option.splits)

lemma rpc_dispatch_change:
  assumes "rpc_dispatch W n command iss = (n', r)" and "n' \<noteq> n"
  obtains hex bs tx r' rest where "command = ''SUBMITTX''" "tokens iss = hex # rest" "from_hex hex = Some bs"
    "tx_deserialize bs = Some tx" "node_submit_transaction W n tx = (n', r')"
proof -
  have c: "command = ''SUBMITTX''" and s: "rpc_submit_tx W n (fst (take_token iss [])) = (n', r)"
    using assms by (auto simp: rpc_dispatch_def Let_def split: if_splits option.splits)
  obtain hex rest where t: "take_token iss [] = (hex, rest)" by fastforce
  obtain bs tx r' where d: "hex \<noteq> []" "from_hex hex = Some bs" "tx_deserialize bs = Some tx"
    "node_submit_transaction W n tx = (n', r')"
    using s t assms(2) by (auto simp: rpc_submit_tx_def split: if_splits option.splits prod.splits sum.splits)
  then show ?thesis using that [OF c _ d(2-4)] take_token_tokens [OF t] by auto
qed

text \<open>C22: The only way an RPC request changes anything in the node is by submitting a transaction, and with an
  API key set only if the key is the first word of the request: whatever line makes \<open>handle_command\<close> return a
  changed node consists of the key, the word \<open>SUBMITTX\<close> and the hexadecimal text of a transaction, and the
  change is exactly the submission of that transaction.\<close>

theorem rpc_changes_authorized:
  assumes "handle_command W rs n line = (n', r)" and "n' \<noteq> n"
  shows "\<exists>hex rest bs tx r'.
    tokens line = (if rs_api_key rs = [] then [] else [rs_api_key rs]) @ [''SUBMITTX'', hex] @ rest \<and>
    from_hex hex = Some bs \<and> tx_deserialize bs = Some tx \<and> node_submit_transaction W n tx = (n', r')"
proof -
  obtain w rest1 where t1: "take_token line [] = (w, rest1)" by fastforce
  show ?thesis
  proof (cases "rs_api_key rs = []")
    case True
    then have "rpc_dispatch W n w rest1 = (n', r)"
      using assms(1) t1 by (simp add: handle_command_def api_key_required_def)
    from rpc_dispatch_change [OF this assms(2)] obtain hex bs tx r' rest where
      x: "w = ''SUBMITTX''" "tokens rest1 = hex # rest" "from_hex hex = Some bs" "tx_deserialize bs = Some tx"
      "node_submit_transaction W n tx = (n', r')" .
    then show ?thesis using take_token_tokens [OF t1] True by auto
  next
    case False
    obtain c rest2 where t2: "take_token rest1 w = (c, rest2)" by fastforce
    have key: "w = rs_api_key rs" and d: "rpc_dispatch W n c rest2 = (n', r)"
      using assms t1 t2 False
      by (auto simp: handle_command_def api_key_required_def check_api_key_def split: if_splits)
    obtain hex bs tx r' rest where x: "c = ''SUBMITTX''" "tokens rest2 = hex # rest" "from_hex hex = Some bs"
      "tx_deserialize bs = Some tx" "node_submit_transaction W n tx = (n', r')"
      by (rule rpc_dispatch_change [OF d assms(2)])
    have "rest2 \<noteq> []" using x(2) tokens.simps [of "[]"] by (auto simp: read_token_def)
    then have "tokens line = w # c # tokens rest2"
      using take_token_tokens [OF t1] take_token_tokens [OF t2] key False by auto
    then show ?thesis using x key False by auto
  qed
qed

text \<open>The signing law: what the wallet's private key signs verifies under its public key.\<close>

definition keys_match :: "openssl \<Rightarrow> KeyPair \<Rightarrow> bool" where
  "keys_match C keys \<longleftrightarrow> (\<forall>msg sig. sign C msg (kp_private_key keys) = Inr sig \<longrightarrow>
     verify C msg sig (kp_public_key keys) = Inr True)"

lemma tx_serialize_nonempty: "tx_serialize tx \<noteq> []"
proof -
  have "length (u64_le (tx_nonce tx)) = 8" by simp
  then have "u64_le (tx_nonce tx) \<noteq> []" by (metis list.size(3) zero_neq_numeral)
  then show ?thesis by (auto simp: tx_serialize_def serialize_for_signing_def)
qed

lemma wallet_tx_valid:
  assumes "sha_len C" and "keys_match C (wa_keys w)" and "wa_address w = derive_address C (kp_public_key (wa_keys w))"
    and "wallet_tx C w recipient amount fee nonce = Inr tx"
  shows "has_valid_signature C tx = Inr True" and "tx_nonce tx = word_of_int nonce"
    and "tx_sender tx = wa_address w" and "tx_recipient tx = recipient" and "tx_amount tx = amount"
proof -
  let ?t = "mk_Transaction (wa_address w) recipient amount (kp_public_key (wa_keys w)) fee (word_of_int nonce)"
  obtain sig where s: "sign C (serialize_for_signing ?t) (kp_private_key (wa_keys w)) = Inr sig"
    "tx = ?t\<lparr>tx_signature := sig\<rparr>"
    using assms(4) by (auto simp: wallet_tx_def Let_def bindE_eq_Inr)
  have ser: "serialize_for_signing (?t\<lparr>tx_signature := sig\<rparr>) = serialize_for_signing ?t"
    by (simp add: serialize_for_signing_def)
  show "has_valid_signature C tx = Inr True"
    using assms(2,3) s ser derive_address_not_coinbase [OF assms(1)]
    by (simp add: has_valid_signature_def keys_match_def mk_Transaction_def)
qed (use assms(4) in \<open>auto simp: wallet_tx_def Let_def bindE_eq_Inr mk_Transaction_def\<close>)

lemma address_word: "sha_len C \<Longrightarrow> is_word (derive_address C key)"
proof -
  assume "sha_len C"
  then have "length (double_sha_256 C key) = 32" by (rule length_double_sha_256)
  then show ?thesis unfolding derive_address_def by (intro to_hex_word) auto
qed

lemma node_submission_pools:
  assumes "has_valid_signature (pf_crypto (w_platform W)) tx = Inr True"
    and "mp_size (cm_mempool (nd_chain n)) < mp_max_size (cm_mempool (nd_chain n))"
    and "\<not> cm_has_transaction (w_platform W) (nd_chain n) (tx_hash (pf_crypto (w_platform W)) tx)"
  obtains n' where "node_submit_transaction W n tx = (n', Inr ())" "tx \<in> set (mempool_snapshot (nd_chain n'))"
proof -
  let ?m = "nd_chain n" and ?C = "pf_crypto (w_platform W)"
  let ?m' = "?m\<lparr>cm_mempool := (cm_mempool ?m)\<lparr>mp_pending := fee_insert tx (mp_pending (cm_mempool ?m))\<rparr>\<rparr>"
  have s: "submit_transaction (w_platform W) ?m tx = (?m', Inr True)"
    using assms by (simp add: submit_transaction_def add_transaction_def cm_has_transaction_def mp_size_def)
  have chain: "nd_chain (broadcast_inv W (n\<lparr>nd_chain := ?m'\<rparr>) None Inv_transaction h) = ?m'" for h
  proof -
    have "nd_chain (foldl (\<lambda>n p. fst (send_msg W n p t b)) n0 ps) = nd_chain n0" for t b n0 ps
      by (rule foldl_keeps [where Q = "\<lambda>n. nd_chain n = nd_chain n0"]) (auto simp: send_msg_def split: prod.splits)
    then show ?thesis by (simp add: broadcast_inv_def send_to_all_def Let_def)
  qed
  have "tx \<in> set (mempool_snapshot ?m')"
    by (simp add: mempool_snapshot_pending)
  then show ?thesis
    using that [of "broadcast_inv W (n\<lparr>nd_chain := ?m'\<rparr>) None Inv_transaction (tx_hash ?C tx)"] s chain
    by (simp add: node_submit_transaction_def)
qed

lemma submit_accepted:
  assumes "has_valid_signature (pf_crypto (w_platform W)) tx = Inr True" and "wf_tx tx"
    and "rs_api_key rs = [] \<or> is_word (rs_api_key rs)" and "rc_rpc_api_key cfg = rs_api_key rs"
    and "mp_size (cm_mempool (nd_chain n)) < mp_max_size (cm_mempool (nd_chain n))"
    and "\<not> cm_has_transaction (w_platform W) (nd_chain n) (tx_hash (pf_crypto (w_platform W)) tx)"
  obtains n' where "handle_command W rs n (submit_command cfg tx) = (n', Inr ''OK'')"
    "tx \<in> set (mempool_snapshot (nd_chain n'))"
proof -
  obtain n' where n': "node_submit_transaction W n tx = (n', Inr ())" "tx \<in> set (mempool_snapshot (nd_chain n'))"
    by (rule node_submission_pools [OF assms(1,5,6)])
  have hexw: "is_word (to_hex (tx_serialize tx))" using tx_serialize_nonempty by (rule to_hex_word)
  have dec: "tx_deserialize (tx_serialize tx) = Some tx" using assms(2) by (rule tx_codec.des_ser)
  have "handle_command W rs n (submit_command cfg tx) = rpc_dispatch W n ''SUBMITTX'' (CHR '' '' # to_hex (tx_serialize tx))"
    using handle_keyed_command [OF assms(3) command_words(1) hexw] by (simp add: submit_command_def assms(4))
  also have "\<dots> = (n', Inr ''OK'')"
    using hexw take_token_word(2) [OF hexw] n'(1) dec
    by (simp add: rpc_dispatch_def rpc_submit_tx_def from_hex_def from_hex_loop_to_hex is_word_def)
  finally show ?thesis using that n'(2) by blast
qed

text \<open>C21: A payment from the wallet reaches the mempool. The server answers the wallet's nonce request with the
  number the ledger expects next, which the wallet reads back; the transaction it then builds, signs and sends
  as hexadecimal text is accepted with \<open>OK\<close>, carries that nonce and is in the mempool afterwards, provided the
  wallet sends the server's key, the mempool has room, the transaction is new, and the nonce is below 2^31, since the
  wallet reads it as an \<open>int\<close>. The command line is taken as read: the limit of 4096 bytes on a line is applied before,
  in \<open>rpc_read_line\<close>.\<close>

theorem wallet_payment_accepted:
  assumes "sha_len (pf_crypto (w_platform W))" and "keys_match (pf_crypto (w_platform W)) (wa_keys w)"
    and "wa_address w = derive_address (pf_crypto (w_platform W)) (kp_public_key (wa_keys w))"
    and "rs_api_key rs = [] \<or> is_word (rs_api_key rs)" and "rc_rpc_api_key cfg = rs_api_key rs"
    and "unat (cm_next_nonce (nd_chain n) (wa_address w)) < 2 ^ 31"
    and "wallet_tx (pf_crypto (w_platform W)) w recipient amount fee (uint (cm_next_nonce (nd_chain n) (wa_address w))) = Inr tx"
    and "wf_tx tx" and "mp_size (cm_mempool (nd_chain n)) < mp_max_size (cm_mempool (nd_chain n))"
    and "\<not> cm_has_transaction (w_platform W) (nd_chain n) (tx_hash (pf_crypto (w_platform W)) tx)"
  shows "\<exists>reply n'. handle_command W rs n (rc_rpc_api_key cfg @ '' GETNONCE '' @ wa_address w) = (n, Inr reply) \<and>
    parse_number reply = Some (uint (cm_next_nonce (nd_chain n) (wa_address w))) \<and>
    handle_command W rs n (submit_command cfg tx) = (n', Inr ''OK'') \<and>
    tx_nonce tx = cm_next_nonce (nd_chain n) (wa_address w) \<and> tx \<in> set (mempool_snapshot (nd_chain n'))"
proof -
  let ?C = "pf_crypto (w_platform W)" and ?nonce = "cm_next_nonce (nd_chain n) (wa_address w)"
  have addr: "is_word (wa_address w)" unfolding assms(3) by (rule address_word [OF assms(1)])
  note tx = wallet_tx_valid [OF assms(1-3,7)]
  obtain n' where n': "handle_command W rs n (submit_command cfg tx) = (n', Inr ''OK'')"
    "tx \<in> set (mempool_snapshot (nd_chain n'))"
    by (rule submit_accepted [OF tx(1) assms(8,4,5,9,10)])
  have "handle_command W rs n (rc_rpc_api_key cfg @ '' GETNONCE '' @ wa_address w) = (n, Inr (to_string (unat ?nonce)))"
    using handle_keyed_command [OF assms(4) command_words(2) addr] take_token_word(2) [OF addr] wordD(1) [OF addr]
    by (simp add: assms(5) rpc_dispatch_def Let_def)
  moreover have "parse_number (to_string (unat ?nonce)) = Some (uint ?nonce)"
    using parse_to_string [OF assms(6)] by simp
  ultimately show ?thesis using n' tx(2) by auto
qed

definition sample_wallet :: Wallet where
  "sample_wallet = \<lparr>wa_keys = \<lparr>kp_public_key = [7], kp_private_key = [7]\<rparr>, wa_address = derive_address sample_openssl [7]\<rparr>"

definition sample_server :: RpcServer where
  "sample_server = set_api_key (new_RpcServer 9000) ''k''"

definition sample_config :: RpcConfiguration where
  "sample_config = \<lparr>rc_address = \<lparr>pa_host = ''127.0.0.1'', pa_port = 9000\<rparr>, rc_rpc_api_key = ''k''\<rparr>"

definition sample_payment :: Transaction where
  "sample_payment = (mk_Transaction (wa_address sample_wallet) ''x'' 1 [7] 1 0)\<lparr>tx_signature := [7]\<rparr>"

lemma sample_payment_facts:
  "sha_len (pf_crypto (w_platform sample_world))" "keys_match (pf_crypto (w_platform sample_world)) (wa_keys sample_wallet)"
  "wa_address sample_wallet = derive_address (pf_crypto (w_platform sample_world)) (kp_public_key (wa_keys sample_wallet))"
  "rs_api_key sample_server = [] \<or> is_word (rs_api_key sample_server)"
  "rc_rpc_api_key sample_config = rs_api_key sample_server"
  "cm_next_nonce (nd_chain sample_node) (wa_address sample_wallet) = 0"
  "wallet_tx (pf_crypto (w_platform sample_world)) sample_wallet ''x'' 1 1 0 = Inr sample_payment"
  "wf_tx sample_payment"
  "mp_size (cm_mempool (nd_chain sample_node)) < mp_max_size (cm_mempool (nd_chain sample_node))"
  "\<not> cm_has_transaction (w_platform sample_world) (nd_chain sample_node)
     (tx_hash (pf_crypto (w_platform sample_world)) sample_payment)"
proof -
  have sgn: "sign sample_openssl msg [7] = Inr [7]" for msg by (simp add: sign_def require_def sample_openssl_def)
  show "sha_len (pf_crypto (w_platform sample_world))" by (simp add: sample_world_def)
  show "keys_match (pf_crypto (w_platform sample_world)) (wa_keys sample_wallet)"
    by (simp add: keys_match_def sample_world_def sample_wallet_def sgn)
  show "wa_address sample_wallet = derive_address (pf_crypto (w_platform sample_world)) (kp_public_key (wa_keys sample_wallet))"
    by (simp add: sample_world_def sample_wallet_def)
  show "wallet_tx (pf_crypto (w_platform sample_world)) sample_wallet ''x'' 1 1 0 = Inr sample_payment"
    by (simp add: wallet_tx_def sample_world_def sample_wallet_def sample_payment_def sgn)
  show "wf_tx sample_payment"
    by (simp add: wf_tx_def sample_payment_def mk_Transaction_def sample_wallet_def derive_address_def sample_sha_def)
qed (simp_all add: sample_server_def set_api_key_def new_RpcServer_def sample_config_def is_word_def is_space_def
    cm_next_nonce_def sample_node_def new_Node_def sample_manager_def empty_ledger_def next_nonce_def mk_Mempool_def
    mp_size_def cm_has_transaction_def mp_has_transaction_def)

theorem wallet_payment_accepted_witness:
  "\<exists>n'. handle_command sample_world sample_server sample_node (submit_command sample_config sample_payment) = (n', Inr ''OK'') \<and>
    sample_payment \<in> set (mempool_snapshot (nd_chain n'))"
  using wallet_payment_accepted [of sample_world sample_wallet sample_server sample_config sample_node "''x''" 1 1 sample_payment]
    sample_payment_facts by auto

theorem rpc_changes_authorized_witness:
  "\<exists>hex rest. tokens (submit_command sample_config sample_payment) = [''k'', ''SUBMITTX'', hex] @ rest"
proof -
  note f = sample_payment_facts
  have "has_valid_signature (pf_crypto (w_platform sample_world)) sample_payment = Inr True"
    using wallet_tx_valid(1) [OF f(1-3,7)] .
  then obtain n' where n': "handle_command sample_world sample_server sample_node (submit_command sample_config sample_payment) =
      (n', Inr ''OK'')" "sample_payment \<in> set (mempool_snapshot (nd_chain n'))"
    by (rule submit_accepted [OF _ f(8,4,5,9,10)])
  have "mempool_snapshot (nd_chain sample_node) = []"
    by (simp add: sample_node_def new_Node_def sample_manager_def mempool_snapshot_def get_transactions_for_block_def
        mk_Mempool_def mp_size_def)
  with n'(2) have "n' \<noteq> sample_node" by auto
  from rpc_changes_authorized [OF n'(1) this] show ?thesis
    by (auto simp: sample_server_def set_api_key_def new_RpcServer_def)
qed

text \<open>A wallet created without a key file can be opened again: the file it writes is read back as the same
  keys and gives the same address.\<close>

theorem wallet_file_roundtrip:
  assumes "new_Wallet C key None writable path = Inr (w, Some text)" and "fst key \<noteq> 0" and "snd key \<noteq> []"
  shows "new_Wallet C key' (Some text) writable' path' = Inr (w, None)"
proof -
  obtain keys where k: "keys = \<lparr>kp_public_key = snd key, kp_private_key = big_endian (fst key)\<rparr>"
    "text = save_to_file keys" "w = \<lparr>wa_keys = keys, wa_address = derive_address C (kp_public_key keys)\<rparr>"
    using assms(1)
    by (auto simp: new_Wallet_def generate_keypair_def require_def Let_def bindE_def split: if_splits sum.splits)
  have "big_endian (fst key) \<noteq> []" using assms(2) by (subst big_endian.simps) simp
  then have p: "is_word (to_hex (kp_private_key keys))" "is_word (to_hex (kp_public_key keys))"
    using assms(3) by (simp_all add: k(1) to_hex_word)
  have nl: "is_space newline" by (simp add: is_space_def)
  have "load_from_file text = Some keys"
    unfolding k(2) save_to_file_def load_from_file_def
    using read_token_cons [OF p(1) nl] read_token_cons [OF p(2) nl, of "[]"]
    by (simp add: read_token_space [OF nl] from_hex_def from_hex_loop_to_hex)
  then show ?thesis using k(3) by (simp add: new_Wallet_def Let_def)
qed

theorem wallet_file_roundtrip_witness:
  "\<exists>w text. new_Wallet sample_openssl (258, [7]) None True ''keys'' = Inr (w, Some text) \<and>
    new_Wallet sample_openssl (1, []) (Some text) False ''keys'' = Inr (w, None)"
proof -
  let ?keys = "\<lparr>kp_public_key = [7], kp_private_key = big_endian 258\<rparr>"
  have n: "new_Wallet sample_openssl (258, [7]) None True ''keys'' =
      Inr (\<lparr>wa_keys = ?keys, wa_address = derive_address sample_openssl [7]\<rparr>, Some (save_to_file ?keys))"
    by (simp add: new_Wallet_def generate_keypair_def require_def sample_openssl_def)
  from wallet_file_roundtrip [OF n, of "(1, [])" False "''keys''"] n show ?thesis by auto
qed

text \<open>C40: A negative amount typed at the wallet's prompt creates coins. The arguments \<open>x -5 5\<close> become an amount
  of \<open>2 ^ 64 - 5\<close> and a fee of 5, whose 64-bit sum is zero: an account with no coins at all can make the payment,
  and the recipient \<open>x\<close> is credited \<open>2 ^ 64 - 5\<close> coins.\<close>

theorem cli_negative_amount_mints:
  assumes "get_balance L sender = Some 0" and "next_nonce L sender = nonce" and "sender \<noteq> kCoinbaseSender"
    and "sender \<noteq> ''x''" and "get_balance L ''x'' = None"
  shows "\<exists>amount fee L'. send_arguments ''x -5 5'' = Inr (''x'', amount, fee) \<and>
    apply_transaction L (mk_Transaction sender ''x'' amount key fee nonce) = (L', True) \<and>
    get_balance L' ''x'' = Some (2 ^ 64 - 5)"
proof -
  have "send_arguments ''x -5 5'' = Inr (''x'', word_of_int (- 5), word_of_int 5)" by code_simp
  moreover have "(word_of_int (- 5) :: u64) + word_of_int 5 = 0" by simp
  moreover have "get_balance (set_balance (set_nonce (set_balance L sender 0) sender (nonce + 1)) ''x'' (- 5)) ''x'' =
      Some (- 5)" by simp
  ultimately show ?thesis
    using assms by (simp add: apply_transaction_alt balance_get mk_Transaction_def Let_def)
qed

theorem cli_negative_amount_mints_witness:
  "\<exists>amount fee L'. send_arguments ''x -5 5'' = Inr (''x'', amount, fee) \<and>
    apply_transaction (set_balance empty_ledger ''a'' 0) (mk_Transaction ''a'' ''x'' amount [] fee 0) = (L', True) \<and>
    get_balance L' ''x'' = Some (2 ^ 64 - 5)"
  by (rule cli_negative_amount_mints)
    (simp_all add: get_balance_def set_balance_def empty_ledger_def next_nonce_def kCoinbaseSender_def)

text \<open>The server reads one client at a time and without a timeout: one that connects and sends nothing keeps it
  from serving any other.\<close>

lemma silent_client_blocks_rpc:
  assumes "\<And>net n. snd (os_recv (w_os W) net fd n) \<in> {Interrupted, Would_block}"
    and "accept_connection (w_tcp W) (nd_net n) (rs_listener rs) = (net, fd)" and "is_valid fd"
  shows "rpc_accept_turn W rs n = None"
proof -
  have "read_exact (w_os W) net fd 1 = None"
    unfolding read_exact_def by (rule read_loop_silent [OF assms(1)]) simp
  then have "rpc_read_line (w_os W) net fd [] = None" by (simp add: rpc_read_line.simps)
  then show ?thesis using assms(2,3) by (simp add: rpc_accept_turn_def handle_connection_def Let_def)
qed

text \<open>A server that has just been started accepts requests before its key is set.\<close>

lemma rpc_open_before_key:
  assumes "rpc_start W n (new_RpcServer port) = (n', rs, True)"
  shows "rs_running rs \<and> \<not> api_key_required rs"
  using assms by (auto simp: rpc_start_def new_RpcServer_def api_key_required_def Let_def split: prod.splits if_splits)

end
