(* ===== verification/FC_App.thy ===== *)
theory FC_App
  imports FC_Sync FC_Rpc
begin

text \<open>
  The two programs: src/src/app/Orchestrator.cpp with main.cpp and DemoLog.hpp, and wallet_main.cpp.
  The orchestrator opens the storage, replays the stored chain, starts the node, mines and executes the
  operator's commands. Printed lines are returned as a list; the time format of the C library is a parameter.
  A program's \<open>main\<close> is modelled up to its command loop, whose turns are \<open>run_command\<close> and \<open>cli_line\<close>: it
  returns an exit code or the object the loop runs on, with the lines it printed.
\<close>

section \<open>The log\<close>

record DemoLog =
  dl_node_name :: str
  dl_last_prompt :: str
  dl_prompt_visible :: bool

definition new_DemoLog :: "str \<Rightarrow> DemoLog" where
  "new_DemoLog node_name = \<lparr>dl_node_name = node_name, dl_last_prompt = [], dl_prompt_visible = False\<rparr>"

text \<open>The text a call writes: \<open>clock\<close> is the local time as hours, minutes and seconds, \<open>ms\<close> the milliseconds.\<close>

definition log_text :: "DemoLog \<Rightarrow> str \<Rightarrow> nat \<Rightarrow> str \<Rightarrow> str \<Rightarrow> str" where
  "log_text lg clock ms category message =
     (let digits = to_string (ms mod 1000) in
      (if dl_prompt_visible lg then [CHR 0x0D, CHR 0x1B] @ ''[K'' else []) @
      ''['' @ clock @ ''.'' @ replicate (3 - length digits) (CHR ''0'') @ digits @ ''] ['' @ dl_node_name lg @ ''] ['' @
      category @ ''] '' @ message @ [newline] @
      (if dl_prompt_visible lg then dl_last_prompt lg else []))"

definition log_prompt :: "DemoLog \<Rightarrow> str \<Rightarrow> DemoLog \<times> str" where
  "log_prompt lg text = (lg\<lparr>dl_last_prompt := text, dl_prompt_visible := True\<rparr>, text)"

section \<open>Configuration\<close>

record OrchestratorConfig =
  oc_listen_port :: u16
  oc_addresses :: "PeerAddress list"
  oc_mine :: bool
  oc_consensus :: ConsensusParams
  oc_rpc_port :: u16
  oc_node_name :: str
  oc_reward_address :: str
  oc_db_path :: str
  oc_api_key :: str

definition default_config :: OrchestratorConfig where
  "default_config = \<lparr>oc_listen_port = 8000, oc_addresses = [], oc_mine = False, oc_consensus = kMainParams,
     oc_rpc_port = 0, oc_node_name = ''NODE'', oc_reward_address = [], oc_db_path = [], oc_api_key = []\<rparr>"

definition kMaxTxsPerBlock :: nat where "kMaxTxsPerBlock = 50"
definition kMaxPending :: nat where "kMaxPending = 1000"

definition is_option :: "str \<Rightarrow> str \<Rightarrow> str \<Rightarrow> bool" where
  "is_option view long_name short_name \<longleftrightarrow> view = long_name \<or> view = short_name"

text \<open>\<open>parse_args\<close> of main.cpp on the arguments after the program's name, with the bootstrap path.\<close>

fun parse_args :: "str list \<Rightarrow> OrchestratorConfig \<Rightarrow> str \<Rightarrow> (OrchestratorConfig \<times> str) result" where
  "parse_args [] config path = Inr (config, path)"
| "parse_args (view # args) config path =
     (if is_option view ''--port'' ''-p'' \<and> args \<noteq> [] then
        (case parse_number (hd args) of
           None \<Rightarrow> Inl (Invalid_argument ''invalid port'')
         | Some port \<Rightarrow> parse_args (tl args) (config\<lparr>oc_listen_port := word_of_int port\<rparr>) path)
      else if is_option view ''--connect'' ''-c'' \<and> length args \<ge> 2 then
        (case parse_number (args ! 1) of
           None \<Rightarrow> Inl (Invalid_argument ''invalid connect port'')
         | Some port \<Rightarrow>
             parse_args (drop 2 args)
               (config\<lparr>oc_addresses := oc_addresses config @ [\<lparr>pa_host = hd args, pa_port = word_of_int port\<rparr>]\<rparr>) path)
      else if is_option view ''--mine'' ''-m'' then parse_args args (config\<lparr>oc_mine := True\<rparr>) path
      else if is_option view ''--bootstrap-file'' ''-b'' \<and> args \<noteq> [] then
        parse_args (tl args) config (if hd args \<noteq> [] then hd args else path)
      else if is_option view ''--rpc-port'' ''-R'' \<and> args \<noteq> [] then
        (case parse_number (hd args) of
           None \<Rightarrow> Inl (Invalid_argument ''invalid rpc port'')
         | Some port \<Rightarrow> parse_args (tl args) (config\<lparr>oc_rpc_port := word_of_int port\<rparr>) path)
      else if is_option view ''--reward-address'' ''-r'' \<and> args \<noteq> [] then
        parse_args (tl args) (if hd args \<noteq> [] then config\<lparr>oc_reward_address := hd args\<rparr> else config) path
      else if is_option view ''--rpc-api-key'' ''-K'' \<and> args \<noteq> [] then
        parse_args (tl args) (if hd args \<noteq> [] then config\<lparr>oc_api_key := hd args\<rparr> else config) path
      else if is_option view ''--db-path'' ''-d'' \<and> args \<noteq> [] then
        parse_args (tl args) (if hd args \<noteq> [] then config\<lparr>oc_db_path := hd args\<rparr> else config) path
      else Inl (Invalid_argument ''invalid command argument''))"

text \<open>\<open>parse_args\<close> of wallet_main.cpp: the server's address and key and the key file; other arguments are skipped.\<close>

fun wallet_args :: "str list \<Rightarrow> RpcConfiguration \<Rightarrow> str \<Rightarrow> (RpcConfiguration \<times> str) result" where
  "wallet_args [] config path =
     (if path = [] then Inl (Invalid_argument ''missing required --keyfile <path>'') else Inr (config, path))"
| "wallet_args (view # args) config path =
     (if is_option view ''--connect'' ''-c'' \<and> length args \<ge> 2 then
        (case parse_number (args ! 1) of
           None \<Rightarrow> Inl (Invalid_argument ''invalid connect port'')
         | Some port \<Rightarrow>
             wallet_args (drop 2 args) (config\<lparr>rc_address := \<lparr>pa_host = hd args, pa_port = word_of_int port\<rparr>\<rparr>) path)
      else if is_option view ''--keyfile'' ''-k'' \<and> args \<noteq> [] then
        if hd args = [] then Inl (Invalid_argument ''invalid path to keys'') else wallet_args (tl args) config (hd args)
      else if is_option view ''--rpc-api-key'' ''-K'' \<and> args \<noteq> [] then
        if hd args = [] then Inl (Invalid_argument ''empty api key'')
        else wallet_args (tl args) (config\<lparr>rc_rpc_api_key := hd args\<rparr>) path
      else wallet_args args config path)"

text \<open>
  The bootstrap file's peers are added to the configured ones, with the warnings \<open>main\<close> prints; \<open>file\<close> is the
  text of the file if it can be opened.
\<close>

definition with_bootstrap :: "OrchestratorConfig \<Rightarrow> str \<Rightarrow> str option \<Rightarrow> OrchestratorConfig \<times> str list" where
  "with_bootstrap config path file =
     (let warning = (\<lambda>text. [''Warning: '' @ text @ '' -- continuing without it'']);
          quoted = [CHR 0x27] @ path @ [CHR 0x27]
      in case load_bootstrap_peers file of
        None \<Rightarrow> (config, if path \<noteq> [] then warning (''could not open bootstrap file '' @ quoted) else [])
      | Some peers \<Rightarrow>
          (config\<lparr>oc_addresses := oc_addresses config @ peers\<rparr>,
           if peers = [] \<and> path \<noteq> [] then warning (''bootstrap file '' @ quoted @ '' contains no valid entries'') else []))"

section \<open>The orchestrator\<close>

record ('db, 'net) Orchestrator =
  or_config :: OrchestratorConfig
  or_log :: DemoLog
  or_node :: "('db, 'net) Node"
  or_rpc_server :: "RpcServer option"
  or_running :: bool

text \<open>The loop of the constructor over the stored heights \<open>i\<close>, of which \<open>k\<close> are left.\<close>

fun restore_loop :: "'db platform \<Rightarrow> 'db ChainManager \<Rightarrow> 'db \<Rightarrow> nat \<Rightarrow> nat \<Rightarrow> 'db ChainManager result" where
  "restore_loop P m db i 0 = Inr (m\<lparr>cm_storage := Some db\<rparr>)"
| "restore_loop P m db i (Suc k) =
     (case load_block (pf_crypto P) (pf_sqlite P) db i of
        (db, Inl e) \<Rightarrow> Inl e
      | (db, Inr None) \<Rightarrow> Inl (Runtime_error (''storage corrupted: missing block at height '' @ to_string i))
      | (db, Inr (Some block)) \<Rightarrow>
          (case restore_block P m block of
             (m, Inl e) \<Rightarrow> Inl e
           | (m, Inr False) \<Rightarrow>
               Inl (Runtime_error (''storage corrupted: block at height '' @ to_string i @ '' does not apply cleanly''))
           | (m, Inr True) \<Rightarrow> restore_loop P m db (i + 1) k))"

definition restore_chain :: "'db platform \<Rightarrow> 'db ChainManager \<Rightarrow> 'db ChainManager result" where
  "restore_chain P m =
     (case cm_storage m of
        None \<Rightarrow> Inr m
      | Some db \<Rightarrow>
          (case block_count (pf_sqlite P) db of
             (db, Inl e) \<Rightarrow> Inl e
           | (db, Inr n) \<Rightarrow> restore_loop P m db 1 (n - 1)))"

definition new_Orchestrator ::
  "('db, 'net) world \<Rightarrow> 'net \<Rightarrow> u64 \<Rightarrow> 'db option \<Rightarrow> OrchestratorConfig \<Rightarrow> ('db, 'net) Orchestrator result" where
  "new_Orchestrator W net node_id opened config =
     bindE (if oc_db_path config = [] then Inr None
            else bindE (open_storage (pf_sqlite (w_platform W)) opened (oc_db_path config)) (\<lambda>db. Inr (Some db))) (\<lambda>storage.
       bindE (new_ChainManager (w_platform W) kMaxPending (oc_consensus config) storage) (\<lambda>m.
         bindE (restore_chain (w_platform W) m) (\<lambda>m.
           let info = \<lparr>vi_protocol_version = 1, vi_chain_height = 0, vi_timestamp = 0,
                       vi_listen_port = oc_listen_port config, vi_node_id = node_id\<rparr>
           in Inr \<lparr>or_config = config, or_log = new_DemoLog (oc_node_name config),
                   or_node = new_Node (tcp_now (w_tcp W) net) net (oc_listen_port config) info m,
                   or_rpc_server = None, or_running = False\<rparr>)))"

text \<open>Starting, with the categories and messages logged.\<close>

definition orchestrator_start ::
  "('db, 'net) world \<Rightarrow> ('db, 'net) Orchestrator \<Rightarrow> ('db, 'net) Orchestrator \<times> (str \<times> str) list \<times> bool" where
  "orchestrator_start W orc =
     (case node_start W (or_node orc) of
        (n, False) \<Rightarrow> (orc\<lparr>or_node := n\<rparr>, [], False)
      | (n, True) \<Rightarrow>
          let config = or_config orc;
              (n, server, config, failure) =
                (if oc_rpc_port config > 0
                 then case rpc_start W n (new_RpcServer (oc_rpc_port config)) of
                        (n, rs, False) \<Rightarrow>
                          (fst (rpc_stop W n rs), None, config,
                           [(''RPC'', ''FAILED to start RPC server on port '' @ to_string (unat (oc_rpc_port config)))])
                      | (n, rs, True) \<Rightarrow>
                          if oc_api_key config \<noteq> []
                          then (n, Some (set_api_key rs (oc_api_key config)), config\<lparr>oc_api_key := []\<rparr>, [])
                          else (n, Some rs, config, [])
                 else (n, or_rpc_server orc, config, []));
              n = foldl (\<lambda>n a. remember_peer W n (pa_host a) (pa_port a)) n (oc_addresses config);
              peers = (if oc_addresses config \<noteq> []
                       then [(''PEER'', ''bootstrapping from '' @ to_string (length (oc_addresses config)) @ '' configured peer(s)'')]
                       else [])
          in (orc\<lparr>or_config := config, or_node := n, or_rpc_server := server, or_running := True\<rparr>, failure @ peers, True))"

definition orchestrator_stop :: "('db, 'net) world \<Rightarrow> ('db, 'net) Orchestrator \<Rightarrow> ('db, 'net) Orchestrator" where
  "orchestrator_stop W orc =
     (let (n, server) =
        (case or_rpc_server orc of
           None \<Rightarrow> (or_node orc, None)
         | Some rs \<Rightarrow> (case rpc_stop W (or_node orc) rs of (n, rs) \<Rightarrow> (n, Some rs)))
      in orc\<lparr>or_running := False, or_rpc_server := server, or_node := node_stop W n\<rparr>)"

section \<open>Mining\<close>

text \<open>The transactions of the block to mine: the reward goes first when there is an address for it.\<close>

definition mining_txs :: "str \<Rightarrow> BlockTemplate \<Rightarrow> Transaction list" where
  "mining_txs reward_address tmpl =
     (if reward_address \<noteq> [] then
        let fees_total = foldl (\<lambda>total tx. total + tx_fee tx) 0 (tm_transactions tmpl)
        in mk_Transaction kCoinbaseSender reward_address (mining_reward + fees_total) [] 0 0 # tm_transactions tmpl
      else tm_transactions tmpl)"

definition mine_template :: "openssl \<Rightarrow> str \<Rightarrow> BlockTemplate \<Rightarrow> (nat \<Rightarrow> bool) \<Rightarrow> Block option" where
  "mine_template C reward_address tmpl should_stop =
     mine_block_cancel C 1 (tm_prev_hash tmpl) (tm_timestamp tmpl) (tm_difficulty tmpl)
       (mining_txs reward_address tmpl) (Some should_stop)"

text \<open>
  One turn of \<open>mining_loop\<close>. Other threads run while the miner searches; \<open>n'\<close> is the node at the moment the
  block is submitted. The last component is what was logged, if a block was found.
\<close>

definition mining_turn ::
  "('db, 'net) world \<Rightarrow> OrchestratorConfig \<Rightarrow> (nat \<Rightarrow> bool) \<Rightarrow> ('db, 'net) Node \<Rightarrow> ('db, 'net) Node \<Rightarrow>
     ('db, 'net) Node \<times> str option result" where
  "mining_turn W config should_stop n n' =
     (case block_template (w_platform W) (w_unix_time W (nd_net n)) (nd_chain n) kMaxTxsPerBlock of
        Inl e \<Rightarrow> (n', Inl e)
      | Inr tmpl \<Rightarrow>
          (case mine_template (pf_crypto (w_platform W)) (oc_reward_address config) tmpl should_stop of
             None \<Rightarrow> (n', Inr None)
           | Some mined \<Rightarrow>
               (case node_submit_block W n' mined of
                  (n', Inl e) \<Rightarrow> (n', Inl e)
                | (n', Inr _) \<Rightarrow>
                    (n', Inr (Some
                       (if cm_has_block (nd_chain n') (b_hash mined)
                        then ''block ACCEPTED, height now '' @ to_string (tm_height tmpl + 1)
                        else ''block REJECTED (stale or invalid)''))))))"

section \<open>Commands\<close>

text \<open>Each handler returns the lines it prints; those of a command that throws are not kept.\<close>

definition u64_text :: "u64 \<Rightarrow> str" where
  "u64_text v = to_string (unat v)"

definition handle_balance_command :: "'db ChainManager \<Rightarrow> str \<Rightarrow> str list" where
  "handle_balance_command m address =
     (case cm_get_balance m address of None \<Rightarrow> [''unknown address''] | Some v \<Rightarrow> [u64_text v])"

definition handle_height_command :: "'db ChainManager \<Rightarrow> str list" where
  "handle_height_command m = [to_string (chain_height m)]"

definition handle_peers_command :: "('db, 'net) Node \<Rightarrow> str list" where
  "handle_peers_command n = (if node_peers n = [] then [''(no peers connected)''] else node_peers n)"

definition handle_addrbook_command :: "('db, 'net) Node \<Rightarrow> str list" where
  "handle_addrbook_command n = (if book_lines n = [] then [''(address book is empty)''] else book_lines n)"

definition handle_status_command :: "'db platform \<Rightarrow> OrchestratorConfig \<Rightarrow> 'db ChainManager \<Rightarrow> str list result" where
  "handle_status_command P config m =
     bindE (next_block_difficulty P m) (\<lambda>difficulty. Inr (
       [''port: '' @ to_string (unat (oc_listen_port config)),
        if oc_rpc_port config > 0 then ''rpc: active on port '' @ to_string (unat (oc_rpc_port config)) else ''rpc: disabled''] @
       (if oc_mine config then
          [''mining: active'',
           if oc_reward_address config \<noteq> [] then ''reward address: '' @ oc_reward_address config
           else ''reward address: none (mined blocks have no coinbase)'']
        else [''mining: disabled'']) @
       [''difficulty: '' @ to_string (unat difficulty) @ '' bits (next block)'']))"

definition handle_help_command :: "str list" where
  "handle_help_command =
     [''commands:'',
      ''  balance <address>         show Ledger balance for address'',
      ''  height                    show current chain height'',
      ''  block <height>            show full contents of the block at that height'',
      ''  peers                     list connected peers (host:port, direction)'',
      ''  addrbook                  list known peer addresses and their state'',
      ''  mempool                   show pending transactions in mempool'',
      ''  ledger                    list known addresses and their balances'',
      ''  status                    show node configuration'',
      ''  set reward-address <addr> change mining reward address'',
      ''  set secret-key <value>    set/change the RPC auth token'',
      ''  connect <host> <port>     connect to a peer'',
      ''  help                      show this message'',
      ''  quit / exit               shut down the node'']"

definition handle_mempool_command :: "'db ChainManager \<Rightarrow> str list" where
  "handle_mempool_command m =
     (let txs = mempool_snapshot m in
      if txs = [] then [''(mempool is empty)'']
      else (to_string (length txs) @ '' transaction(s):'') #
        map (\<lambda>tx. ''  '' @ tx_sender tx @ '' -> '' @ tx_recipient tx @ '' : '' @ u64_text (tx_amount tx) @
          '' (fee: '' @ u64_text (tx_fee tx) @ '')'') txs)"

text \<open>\<open>order\<close> is the order the hash table iterates in.\<close>

definition handle_ledger_command ::
  "((str \<times> u64) list \<Rightarrow> (str \<times> u64) list) \<Rightarrow> 'db ChainManager \<Rightarrow> str list" where
  "handle_ledger_command order m =
     (let balances = cm_all_balances order m in
      if balances = [] then [''(ledger is empty)'']
      else (to_string (length balances) @ '' account(s):'') #
        map (\<lambda>(address, amount). ''  '' @ address @ '' : '' @ u64_text amount) balances)"

definition tx_lines :: "openssl \<Rightarrow> nat \<times> Transaction \<Rightarrow> str list" where
  "tx_lines C = (\<lambda>(i, tx).
     [''  ['' @ to_string i @ ''] '' @ to_hex (tx_hash C tx),
      ''      '' @ tx_sender tx @ '' -> '' @ tx_recipient tx,
      ''      amount '' @ u64_text (tx_amount tx) @ '', fee '' @ u64_text (tx_fee tx) @
        (if tx_sender tx = kCoinbaseSender then ''  (coinbase)'' else '', nonce '' @ u64_text (tx_nonce tx))])"

definition handle_block_command :: "openssl \<Rightarrow> (u64 \<Rightarrow> str) \<Rightarrow> 'db ChainManager \<Rightarrow> nat \<Rightarrow> str list result" where
  "handle_block_command C as_utc m height =
     (if height \<ge> chain_height m
      then Inr [''no block at height '' @ to_string height @ '' (chain height is '' @ to_string (chain_height m) @ '')'']
      else bindE (block_at m height) (\<lambda>block. Inr (
        [''height:     '' @ to_string height,
         ''hash:       '' @ to_hex (b_hash block),
         ''prev:       '' @ to_hex (b_prev_hash block),
         ''merkle:     '' @ to_hex (b_merkle_root block),
         ''timestamp:  '' @ u64_text (b_timestamp block) @ ''  ('' @ as_utc (b_timestamp block) @ '' UTC)'',
         ''difficulty: '' @ to_string (unat (b_difficulty block)) @ '' bits'',
         ''nonce:      '' @ to_string (unat (b_nonce block)),
         ''work:       '' @ u64_text (block_work block) @ ''  (cumulative '' @ u64_text (b_cumulative_work block) @ '')'',
         ''version:    '' @ to_string (unat (b_version block))] @
        (if b_transactions block = [] then [''transactions: (none)'']
         else (''transactions: '' @ to_string (length (b_transactions block))) #
           concat (map (tx_lines C) (enumerate 0 (b_transactions block)))))))"

definition handle_set_reward_address ::
  "('db, 'net) Orchestrator \<Rightarrow> str \<Rightarrow> ('db, 'net) Orchestrator \<times> str list" where
  "handle_set_reward_address orc address =
     (orc\<lparr>or_config := (or_config orc)\<lparr>oc_reward_address := address\<rparr>\<rparr>, [''reward address set to '' @ address])"

definition handle_set_secret_key_command ::
  "('db, 'net) Orchestrator \<Rightarrow> str \<Rightarrow> ('db, 'net) Orchestrator \<times> str list" where
  "handle_set_secret_key_command orc key =
     (case or_rpc_server orc of
        None \<Rightarrow> (orc, [''RPC is not enabled on this node (no --rpc-port given)''])
      | Some rs \<Rightarrow> (orc\<lparr>or_rpc_server := Some (set_api_key rs key)\<rparr>, []))"

definition handle_connect_to_peer ::
  "('db, 'net) world \<Rightarrow> ('db, 'net) Orchestrator \<Rightarrow> str \<Rightarrow> u16 \<Rightarrow>
     (('db, 'net) Orchestrator \<times> str list result) option" where
  "handle_connect_to_peer W orc host port = do {
     (n, r) \<leftarrow> connect_to_peer W (or_node orc) host port;
     Some (orc\<lparr>or_node := n\<rparr>, map_sum id (\<lambda>ok.
       [(if ok then ''connected to '' else ''failed to connect to '') @ host @ '':'' @ to_string (unat port)]) r)
   }"

definition set_command :: "('db, 'net) Orchestrator \<Rightarrow> str \<Rightarrow> ('db, 'net) Orchestrator \<times> str list" where
  "set_command orc iss =
     (case take_token iss [] of (subcommand, iss) \<Rightarrow>
        let value = fst (take_token iss []) in
        if subcommand = ''reward-address'' then
          if value = [] then (orc, [''usage: set reward-address <address>'']) else handle_set_reward_address orc value
        else if subcommand = ''secret-key'' then
          if value = [] then (orc, [''usage: set secret-key <value>'']) else handle_set_secret_key_command orc value
        else (orc, [''unknown set target: '' @ subcommand @
          '' (usage: set reward-address <address> | set secret-key <value>)'']))"

definition connect_command ::
  "('db, 'net) world \<Rightarrow> ('db, 'net) Orchestrator \<Rightarrow> str \<Rightarrow> (('db, 'net) Orchestrator \<times> str list result) option" where
  "connect_command W orc iss =
     (case read_token iss of
        None \<Rightarrow> Some (orc, Inr [''usage: connect <host> <port>''])
      | Some (host, iss) \<Rightarrow>
          (case read_token iss of
             None \<Rightarrow> Some (orc, Inr [''usage: connect <host> <port>''])
           | Some (port, _) \<Rightarrow>
               (case parse_number port of
                  None \<Rightarrow> Some (orc, Inr [''invalid port: '' @ port])
                | Some port_number \<Rightarrow> handle_connect_to_peer W orc host (word_of_int port_number))))"

definition block_command :: "openssl \<Rightarrow> (u64 \<Rightarrow> str) \<Rightarrow> 'db ChainManager \<Rightarrow> str \<Rightarrow> str list result" where
  "block_command C as_utc m iss =
     (case parse_number (fst (take_token iss [])) of
        None \<Rightarrow> Inr [''usage: block <height>'']
      | Some height \<Rightarrow> handle_block_command C as_utc m (unat (word_of_int height :: u64)))"

text \<open>
  A turn of \<open>run_command_loop\<close>: the prompt, and then one line; the last component of \<open>run_command\<close> says whether
  the loop goes on.
\<close>

definition show_prompt :: "('db, 'net) Orchestrator \<Rightarrow> ('db, 'net) Orchestrator \<times> str" where
  "show_prompt orc = (case log_prompt (or_log orc) ''>>> '' of (lg, text) \<Rightarrow> (orc\<lparr>or_log := lg\<rparr>, text))"

definition run_command ::
  "('db, 'net) world \<Rightarrow> (u64 \<Rightarrow> str) \<Rightarrow> ((str \<times> u64) list \<Rightarrow> (str \<times> u64) list) \<Rightarrow>
     ('db, 'net) Orchestrator \<Rightarrow> str \<Rightarrow>
     (('db, 'net) Orchestrator \<times> str list result \<times> bool) option" where
  "run_command W as_utc order orc buffer =
     (let P = w_platform W; n = or_node orc; m = nd_chain n;
          show = (\<lambda>lines. Some (orc, lines, True))
      in case take_token buffer [] of (command, iss) \<Rightarrow>
        if command = ''balance'' then
          let address = fst (take_token iss []) in
          show (Inr (if address = [] then [] else handle_balance_command m address))
        else if command = ''height'' then show (Inr (handle_height_command m))
        else if command = ''peers'' then show (Inr (handle_peers_command n))
        else if command = ''status'' then show (handle_status_command P (or_config orc) m)
        else if command = ''addrbook'' then show (Inr (handle_addrbook_command n))
        else if command = ''block'' then show (block_command (pf_crypto P) as_utc m iss)
        else if command = ''set'' then (case set_command orc iss of (orc, out) \<Rightarrow> Some (orc, Inr out, True))
        else if command = ''connect'' then map_option (\<lambda>(orc, out). (orc, out, True)) (connect_command W orc iss)
        else if command = ''mempool'' then show (Inr (handle_mempool_command m))
        else if command = ''ledger'' then show (Inr (handle_ledger_command order m))
        else if command = ''help'' then show (Inr handle_help_command)
        else if command = ''quit'' \<or> command = ''exit'' then Some (orc, Inr [], False)
        else show (Inr [''unknown command'']))"

section \<open>The programs\<close>

fun what :: "exn \<Rightarrow> str" where
  "what (Runtime_error text) = text"
| "what (Invalid_argument text) = text"
| "what _ = []"

text \<open>
  \<open>main\<close> of the node: \<open>read_file\<close> and \<open>open_db\<close> are what opening a file and a database gives. An exception of the
  constructor is not caught.
\<close>

definition node_main ::
  "('db, 'net) world \<Rightarrow> 'net \<Rightarrow> u64 \<Rightarrow> (str \<Rightarrow> str option) \<Rightarrow> (str \<Rightarrow> 'db option) \<Rightarrow> str list \<Rightarrow>
     (int + ('db, 'net) Orchestrator) result \<times> str list" where
  "node_main W net node_id read_file open_db args =
     (case parse_args args default_config [] of
        Inl e \<Rightarrow> (Inr (Inl 1), [''Error: '' @ what e])
      | Inr (config, path) \<Rightarrow>
          (case with_bootstrap config path (read_file path) of (config, warnings) \<Rightarrow>
             case new_Orchestrator W net node_id (open_db (oc_db_path config)) config of
               Inl e \<Rightarrow> (Inl e, warnings)
             | Inr orc \<Rightarrow>
                 (case orchestrator_start W orc of
                    (orc, logged, False) \<Rightarrow> (Inr (Inl 2), warnings @ [''Failed to start node (port already in use?)''])
                  | (orc, logged, True) \<Rightarrow> (Inr (Inr orc), warnings))))"

text \<open>
  The signal handler: \<open>g_shutting_down\<close> and the orchestrator, if there is one; the result is the exit code of
  the process, or nothing when a first interrupt is already being handled.
\<close>

definition handle_sigint ::
  "('db, 'net) world \<Rightarrow> bool \<times> ('db, 'net) Orchestrator option \<Rightarrow>
     (bool \<times> ('db, 'net) Orchestrator option) \<times> int option" where
  "handle_sigint W = (\<lambda>(g_shutting_down, g_orchestrator).
     if g_shutting_down then ((True, g_orchestrator), None)
     else ((True, map_option (orchestrator_stop W) g_orchestrator), Some 0))"

text \<open>\<open>main\<close> of the wallet. The port of a default configuration is not initialized: \<open>port\<close> is what it happens to be.\<close>

definition wallet_main ::
  "openssl \<Rightarrow> nat \<times> bytes \<Rightarrow> u16 \<Rightarrow> (str \<Rightarrow> str option) \<Rightarrow> (str \<Rightarrow> bool) \<Rightarrow> str list \<Rightarrow> (int + WalletCli) \<times> str list" where
  "wallet_main C key port read_file writable args =
     (case wallet_args args \<lparr>rc_address = \<lparr>pa_host = [], pa_port = port\<rparr>, rc_rpc_api_key = []\<rparr> [] of
        Inl e \<Rightarrow> (Inl 1, [''Error: '' @ what e])
      | Inr (config, path) \<Rightarrow>
          (case new_Wallet C key (read_file path) (writable path) path of
             Inl e \<Rightarrow> (Inl 2, [''Error: '' @ what e])
           | Inr (wallet, _) \<Rightarrow>
               (Inr \<lparr>wc_wallet = wallet, wc_rpc_config = config\<rparr>, [''Wallet address: '' @ wa_address wallet])))"

end
