(* ===== verification/FC_AppProps.thy ===== *)
theory FC_AppProps
  imports FC_App
begin

text \<open>
  What the node program achieves: a stored chain is restored as it was, a mined block is accepted by the
  chain it was mined for, and the program with all its threads, as the step relation \<open>app_step\<close>, keeps the
  invariants of the node in every run.
\<close>

section \<open>Restarting\<close>

text \<open>Statements that read the database or make sure that its tables exist succeed and keep the stored blocks.\<close>

definition usable :: "'db sqlite \<Rightarrow> 'db sqlite_view \<Rightarrow> bool" where
  "usable Q V \<longleftrightarrow>
     (\<forall>db h. sv_rows V (fst (Q db (Select_block h))) = sv_rows V db \<and>
        snd (Q db (Select_block h)) \<in> range Row_blob \<union> {Done}) \<and>
     (\<forall>db. snd (Q db Count_blocks) \<in> range Row_int) \<and>
     (\<forall>db. \<forall>stmt\<in>{Create_blocks, Create_balances}.
        sv_rows V (fst (Q db stmt)) = sv_rows V db \<and> snd (Q db stmt) = Done)"

lemma stored_load:
  assumes "sqlite_laws Q V" and "usable Q V" and "sv_rows V db = block_rows_from 0 bs" and "i < length bs"
    and "wf_block C (wire_block (bs ! i))"
  obtains db' where "load_block C Q db i = (db', Inr (Some (wire_block (bs ! i))))" "sv_rows V db' = sv_rows V db"
proof -
  obtain db' out where q: "Q db (Select_block (int i)) = (db', out)" by fastforce
  have rows: "sv_rows V db' = sv_rows V db" "out \<in> range Row_blob \<union> {Done}"
    using assms(2) [unfolded usable_def, THEN conjunct1, rule_format, of db "int i"] q by simp_all
  have mem: "(int i, b_hash (bs ! i), block_serialize (bs ! i)) \<in> sv_rows V db"
    using assms(3,4) by (auto simp: block_rows_from_iff)
  then have "out \<noteq> Done" using sqlite_lawsD(3) [OF assms(1), of db "int i"] q by force
  with rows(2) obtain raw where raw: "out = Row_blob raw" by auto
  then obtain k where "(int i, k, raw) \<in> sv_rows V db" using sqlite_lawsD(2) [OF assms(1), of db "int i" raw] q by auto
  then have "raw = block_serialize (wire_block (bs ! i))" using assms(3) by (auto simp: block_rows_from_iff)
  then show ?thesis
    using that [of db'] q raw rows(1) block_deserialize_serialize [OF assms(5)] by (simp add: load_block_def)
qed

lemma work_from_nth: "work_from w bs \<Longrightarrow> i < length bs \<Longrightarrow>
  b_cumulative_work (bs ! i) = block_work (bs ! i) + (if i = 0 then w else b_cumulative_work (bs ! (i - 1)))"
  by (induction bs arbitrary: w i) (auto simp: nth_Cons split: nat.splits)

lemma add_wire_block:
  assumes "chain_inv C S B" and "0 < i" and "i < length (bc_blocks B)" and "bc_blocks A = take i (bc_blocks B)"
  shows "bc_blocks (add_block A (wire_block (bc_blocks B ! i))) = take (Suc i) (bc_blocks B)"
proof -
  obtain bs where bs: "bc_blocks B = genesis_block C # bs" "work_from 0 bs" using assms(1) by (auto simp: chain_inv_def)
  obtain j where j: "i = Suc j" using assms(2) by (cases i) auto
  have g: "b_cumulative_work (genesis_block C) = 0" by (simp add: genesis_block_def mk_Block_def Let_def)
  have "b_cumulative_work (bc_blocks B ! i) = block_work (bc_blocks B ! i) + b_cumulative_work (bc_blocks B ! j)"
    using work_from_nth [OF bs(2), of j] assms(3) bs(1) j g by (cases j) auto
  moreover have "last (bc_blocks A) = bc_blocks B ! j" "bc_blocks A \<noteq> []"
    using assms(3,4) j by (simp_all add: take_Suc_conv_app_nth)
  ultimately have "bc_blocks (add_block A (wire_block (bc_blocks B ! i))) = bc_blocks A @ [bc_blocks B ! i]"
    by (simp add: add_block_def Let_def bc_size_def wire_block_def)
  then show ?thesis using assms(3,4) by (simp add: take_Suc_conv_app_nth)
qed

lemma card_block_rows: "finite (block_rows_from h bs) \<and> card (block_rows_from h bs) = length bs"
proof (induction bs arbitrary: h)
  case (Cons b bs)
  have "(int h, b_hash b, block_serialize b) \<notin> block_rows_from (Suc h) bs" by (simp add: block_rows_from_iff)
  then show ?case using Cons [of "Suc h"] by simp
qed simp

lemma restore_loop_stored:
  assumes "sqlite_laws (pf_sqlite P) V" and "usable (pf_sqlite P) V" and "chain_inv (pf_crypto P) S B"
    and "wire_chain (pf_crypto P) B"
    and "sv_rows V db = block_rows_from 0 (bc_blocks B)" and "i + k = length (bc_blocks B)" and "0 < i"
    and "bc_blocks (cm_blockchain m) = take i (bc_blocks B)"
    and "run_all apply_transaction (cm_ledger m) (branch_txs (drop i (bc_blocks B))) = Some L"
  shows "\<exists>m'. restore_loop P m db i k = Inr m' \<and> bc_blocks (cm_blockchain m') = bc_blocks B \<and> cm_ledger m' = L"
  using assms(5-9)
proof (induction k arbitrary: m db i)
  case (Suc k)
  let ?C = "pf_crypto P" and ?b = "bc_blocks B ! i"
  have i: "i < length (bc_blocks B)" using Suc.prems(2) by simp
  have wf: "wf_block ?C (wire_block ?b)" using assms(4) i by (simp add: wire_chain_def)
  obtain db' where l: "load_block ?C (pf_sqlite P) db i = (db', Inr (Some (wire_block ?b)))" "sv_rows V db' = sv_rows V db"
    by (rule stored_load [OF assms(1,2) Suc.prems(1) i wf])
  have d: "drop i (bc_blocks B) = ?b # drop (Suc i) (bc_blocks B)" using i by (rule Cons_nth_drop_Suc [symmetric])
  obtain L1 where L1: "run_all apply_transaction (cm_ledger m) (b_transactions ?b) = Some L1"
    "run_all apply_transaction L1 (branch_txs (drop (Suc i) (bc_blocks B))) = Some L"
    using Suc.prems(5) unfolding d by (auto simp: run_all_append split: bind_splits)
  have "apply_block_to_ledger ?C (cm_ledger m) (wire_block ?b) = (L1, Inr True)"
    unfolding apply_block_True_iff using L1(1) assms(4) i by (auto simp: wire_chain_def)
  then have r: "restore_block P m (wire_block ?b) =
      (m\<lparr>cm_ledger := L1, cm_blockchain := add_block (cm_blockchain m) (wire_block ?b), cm_tip_version := cm_tip_version m + 1\<rparr>, Inr True)"
    by (simp add: restore_block_def)
  show ?case
    using Suc.IH [of db' "Suc i" "fst (restore_block P m (wire_block ?b))"] Suc.prems l r L1(2)
      add_wire_block [OF assms(3) Suc.prems(3) i Suc.prems(4)] by simp
qed simp

lemma stored_count:
  assumes "sqlite_laws Q V" and "usable Q V" and "sv_rows V db = block_rows_from 0 bs"
  obtains db' where "block_count Q db = (db', Inr (length bs))" "sv_rows V db' = block_rows_from 0 bs"
proof -
  obtain db' out where q: "Q db Count_blocks = (db', out)" by fastforce
  obtain c where c: "out = Row_int c"
    using assms(2) [unfolded usable_def, THEN conjunct2, THEN conjunct1, rule_format, of db] q by auto
  have "c = int (card (sv_rows V db))"
    using assms(1) q c unfolding sqlite_laws_def sqlite_read_laws_def by (metis snd_conv)
  then have "c = int (length bs)" using assms(3) card_block_rows by simp
  then show ?thesis using that q c sqlite_lawsD(6) [OF assms(1) q] assms(3) by (simp add: block_count_def)
qed

text \<open>The chain manager the constructor starts from, and the database it has opened.\<close>

abbreviation first_manager :: "'db platform \<Rightarrow> nat \<Rightarrow> ConsensusParams \<Rightarrow> 'db \<Rightarrow> 'db ChainManager" where
  "first_manager P k params db \<equiv> \<lparr>cm_blockchain = new_Blockchain (pf_crypto P), cm_mempool = mk_Mempool k,
    cm_orphans = mk_OrphanPool kDefaultMaxOrphans, cm_ledger = empty_ledger, cm_storage = Some db,
    cm_params = params, cm_tip_version = 0\<rparr>"

lemma new_manager_stored:
  assumes "sqlite_laws (pf_sqlite P) V" and "usable (pf_sqlite P) V" and "bs \<noteq> []"
    and "sv_rows V db = block_rows_from 0 bs"
  obtains db' where "new_ChainManager P k params (Some db) = Inr (first_manager P k params db')"
    "sv_rows V db' = block_rows_from 0 bs"
proof -
  obtain db' where "block_count (pf_sqlite P) db = (db', Inr (length bs))" "sv_rows V db' = block_rows_from 0 bs"
    by (rule stored_count [OF assms(1,2,4)])
  then show ?thesis using that assms(3) by (simp add: new_ChainManager_def Let_def)
qed

lemma open_storage_rows:
  assumes "usable Q V"
  obtains db' where "open_storage Q (Some db) path = Inr db'" "sv_rows V db' = sv_rows V db"
proof -
  have u: "sv_rows V (fst (Q d stmt)) = sv_rows V d" "snd (Q d stmt) = Done" if "stmt \<in> {Create_blocks, Create_balances}" for d stmt
    using assms that unfolding usable_def by blast+
  obtain db1 where 1: "Q db Create_blocks = (db1, Done)" "sv_rows V db1 = sv_rows V db"
    using u [of Create_blocks db] by (cases "Q db Create_blocks") auto
  obtain db2 where 2: "Q db1 Create_balances = (db2, Done)" "sv_rows V db2 = sv_rows V db1"
    using u [of Create_balances db1] by (cases "Q db1 Create_balances") auto
  have "open_storage Q (Some db) path = Inr db2"
    by (simp add: open_storage_def create_schema_def exec_done_def 1(1) 2(1))
  with that 1(2) 2(2) show ?thesis by simp
qed

text \<open>C7: A restart restores the chain. When the block table holds the blocks of a valid chain and replaying its
  transactions from an empty ledger succeeds, the node program constructed on that database ends up with the same
  chain, accumulated work included, and with the replayed ledger, as long as the database can be read.\<close>

theorem restart_restores_chain:
  assumes "sqlite_laws (pf_sqlite (w_platform W)) V" and "usable (pf_sqlite (w_platform W)) V"
    and "chain_inv (pf_crypto (w_platform W)) S B" and "wire_chain (pf_crypto (w_platform W)) B"
    and "sv_rows V db = block_rows_from 0 (bc_blocks B)"
    and "run_all apply_transaction empty_ledger (branch_txs (bc_blocks B)) = Some L"
    and "oc_db_path config \<noteq> []"
  shows "\<exists>orc. new_Orchestrator W net node_id (Some db) config = Inr orc \<and>
    bc_blocks (cm_blockchain (nd_chain (or_node orc))) = bc_blocks B \<and> cm_ledger (nd_chain (or_node orc)) = L"
proof -
  let ?P = "w_platform W"
  obtain bs where bs: "bc_blocks B = genesis_block (pf_crypto ?P) # bs" using assms(3) by (auto simp: chain_inv_def)
  obtain db0 where db0: "open_storage (pf_sqlite ?P) (Some db) (oc_db_path config) = Inr db0"
    "sv_rows V db0 = block_rows_from 0 (bc_blocks B)"
    using open_storage_rows [OF assms(2), of db "oc_db_path config"] assms(5) by metis
  obtain db1 where db1: "new_ChainManager ?P kMaxPending (oc_consensus config) (Some db0) =
      Inr (first_manager ?P kMaxPending (oc_consensus config) db1)" "sv_rows V db1 = block_rows_from 0 (bc_blocks B)"
    by (rule new_manager_stored [OF assms(1,2) chain_inv_nonempty [OF assms(3)] db0(2)])
  obtain db2 where db2: "block_count (pf_sqlite ?P) db1 = (db2, Inr (length (bc_blocks B)))"
    "sv_rows V db2 = block_rows_from 0 (bc_blocks B)"
    by (rule stored_count [OF assms(1,2) db1(2)])
  have "\<exists>m'. restore_loop ?P (first_manager ?P kMaxPending (oc_consensus config) db1) db2 1 (length (bc_blocks B) - 1) = Inr m' \<and>
      bc_blocks (cm_blockchain m') = bc_blocks B \<and> cm_ledger m' = L"
    using assms(6) bs by (intro restore_loop_stored [OF assms(1-4) db2(2)]) (simp_all add: new_Blockchain_def)
  then show ?thesis
    using assms(7) db0(1) db1(1) db2(1) by (auto simp: new_Orchestrator_def restore_chain_def new_Node_def Let_def)
qed

lemma mem_usable: "usable mem_sqlite mem_view"
  by (auto simp: usable_def mem_view_def split: option.splits)

definition stored_db :: mem_db where
  "stored_db = fst (save_block mem_sqlite sample_db sample_a 1)"

lemma stored_db_rows: "sv_rows mem_view stored_db = block_rows_from 0 (bc_blocks sample_bc)"
  by (auto simp: stored_db_def save_block_def exec_done_def mem_view_def sample_db_def empty_db_def)

theorem restart_restores_chain_witness:
  "\<exists>orc. new_Orchestrator sample_world quiet_net 1 (Some stored_db) (default_config\<lparr>oc_db_path := ''db''\<rparr>) = Inr orc \<and>
    bc_blocks (cm_blockchain (nd_chain (or_node orc))) = bc_blocks sample_bc"
proof -
  have "run_all apply_transaction empty_ledger (branch_txs (bc_blocks sample_bc)) = Some empty_ledger" by simp
  with restart_restores_chain [of sample_world mem_view sample_universe sample_bc stored_db empty_ledger
      "default_config\<lparr>oc_db_path := ''db''\<rparr>" quiet_net 1]
    stored_db_rows mem_usable sample_wire_chain(2) show ?thesis by (auto simp: sample_world_def)
qed

section \<open>Mining\<close>

text \<open>
  The reward is applied before the payments that were selected without it. \<open>L'\<close> is \<open>L\<close> with \<open>d\<close> more coins
  at the address \<open>r\<close>: every payment that applies to \<open>L\<close> applies to \<open>L'\<close>.
\<close>

definition richer :: "str \<Rightarrow> u64 \<Rightarrow> Ledger \<Rightarrow> Ledger \<Rightarrow> bool" where
  "richer r d L L' \<longleftrightarrow> (\<forall>a. next_nonce L' a = next_nonce L a) \<and>
     (\<forall>a. get_balance L a \<noteq> None \<longrightarrow> get_balance L' a \<noteq> None) \<and>
     (\<forall>a. balance L' a = balance L a + (if a = r then d else 0))"

lemma richer_apply:
  assumes "richer r d L L'" and "ledger_inv L" and "total_supply L + unat d < 2 ^ 64"
    and "tx_sender tx \<noteq> kCoinbaseSender" and "apply_transaction L tx = (L1, True)"
  shows "\<exists>L1'. apply_transaction L' tx = (L1', True) \<and> richer r d L1 L1'"
proof -
  let ?s = "tx_sender tx" and ?t = "tx_amount tx + tx_fee tx" and ?c = "tx_recipient tx"
  from assms(4,5) have t: "?t \<le> balance L ?s" "get_balance L ?s \<noteq> None" "tx_nonce tx = next_nonce L ?s"
    and L1: "L1 = (let M = set_nonce (set_balance L ?s (balance L ?s - ?t)) ?s (tx_nonce tx + 1)
      in set_balance M ?c (balance M ?c + tx_amount tx))"
    by (auto simp: apply_transaction_alt Let_def not_less split: if_splits)
  have "unat (balance L ?s) + unat d < 2 ^ 64" using balance_le_supply [OF assms(2), of ?s] assms(3) by simp
  then have "balance L ?s \<le> balance L ?s + d" by (simp add: word_le_nat_alt unat_add_lem [THEN iffD1])
  then have le: "?t \<le> balance L' ?s" using t(1) assms(1) by (auto simp: richer_def)
  then have "apply_transaction L' tx =
      (let M = set_nonce (set_balance L' ?s (balance L' ?s - ?t)) ?s (tx_nonce tx + 1)
       in set_balance M ?c (balance M ?c + tx_amount tx), True)"
    using t assms(1,4) by (auto simp: apply_transaction_alt Let_def richer_def)
  moreover have "richer r d L1 (let M = set_nonce (set_balance L' ?s (balance L' ?s - ?t)) ?s (tx_nonce tx + 1)
       in set_balance M ?c (balance M ?c + tx_amount tx))"
    using assms(1) unfolding L1 Let_def by (auto simp: richer_def add.commute add.left_commute diff_add_eq)
  ultimately show ?thesis by blast
qed

lemma richer_run:
  assumes "run_all apply_transaction L txs = Some L1" and "richer r d L L'" and "ledger_inv L"
    and "total_supply L + unat d < 2 ^ 64" and "\<forall>tx\<in>set txs. tx_sender tx \<noteq> kCoinbaseSender \<and> tx_sum_safe tx"
  shows "\<exists>L1'. run_all apply_transaction L' txs = Some L1'"
  using assms
proof (induction txs arbitrary: L L')
  case (Cons tx txs)
  from Cons.prems(1) obtain L2 where a: "apply_transaction L tx = (L2, True)" "run_all apply_transaction L2 txs = Some L1"
    by (auto split: prod.splits if_splits)
  have tx: "tx_sender tx \<noteq> kCoinbaseSender" "tx_sum_safe tx" using Cons.prems(5) by simp_all
  obtain L2' where b: "apply_transaction L' tx = (L2', True)" "richer r d L2 L2'"
    using richer_apply [OF Cons.prems(2-4) tx(1) a(1)] by blast
  have "total_supply L2 + unat (tx_fee tx) = total_supply L"
    using Cons.prems(4) by (intro apply_payment_supply [OF Cons.prems(3) _ tx(2,1) a(1)]) simp
  moreover have "ledger_inv L2" using apply_transaction_inv [OF Cons.prems(3), of tx] a(1) by simp
  ultimately show ?case using Cons.IH [OF a(2) b(2)] Cons.prems(4,5) b(1) by simp
qed simp

lemma no_coinbase_scan: "\<forall>tx\<in>set txs. tx_sender tx \<noteq> kCoinbaseSender \<Longrightarrow> coinbase_scan txs i found = Some found"
  by (induction txs arbitrary: i) simp_all

lemma fees_except_later: "index < i \<Longrightarrow> fees_except txs i index acc = foldl (\<lambda>total tx. total + tx_fee tx) acc txs"
  by (induction txs arbitrary: i acc) simp_all

lemma mining_txs_coinbase:
  assumes "\<forall>tx\<in>set (tm_transactions tmpl). tx_sender tx \<noteq> kCoinbaseSender"
  shows "validate_coinbase_amount (mining_txs reward tmpl)"
    and "i < length (mining_txs reward tmpl) \<Longrightarrow> tx_sender (mining_txs reward tmpl ! i) = kCoinbaseSender \<Longrightarrow> i = 0"
  using assms
  by (auto simp: mining_txs_def validate_coinbase_amount_def no_coinbase_scan fees_except_later mk_Transaction_def Let_def
      nth_Cons split: if_splits nat.splits)

lemma mining_txs_apply:
  assumes "run_all apply_transaction L (tm_transactions tmpl) = Some L1" and "ledger_inv L"
    and "\<forall>tx\<in>set (tm_transactions tmpl). tx_sender tx \<noteq> kCoinbaseSender \<and> tx_sum_safe tx"
    and "total_supply L + minted (mining_txs reward tmpl) < 2 ^ 64"
  shows "\<exists>L'. run_all apply_transaction L (mining_txs reward tmpl) = Some L'"
proof (cases "reward = []")
  case False
  let ?d = "mining_reward + foldl (\<lambda>total tx. total + tx_fee tx) 0 (tm_transactions tmpl)"
  let ?c = "mk_Transaction kCoinbaseSender reward ?d [] 0 0"
  have txs: "mining_txs reward tmpl = ?c # tm_transactions tmpl" using False by (simp add: mining_txs_def Let_def)
  have c: "apply_transaction L ?c = (set_balance L reward (balance L reward + ?d), True)"
    by (simp add: apply_transaction_alt mk_Transaction_def)
  have "richer reward ?d L (set_balance L reward (balance L reward + ?d))" by (simp add: richer_def)
  moreover have "total_supply L + unat ?d < 2 ^ 64"
    using assms(4) unfolding txs by (simp add: minted_def mk_Transaction_def)
  ultimately show ?thesis unfolding txs using richer_run [OF assms(1) _ assms(2) _ assms(3)] c by simp
qed (use assms(1) in \<open>simp add: mining_txs_def\<close>)

lemma mined_timestamp_valid:
  assumes "median_time_past h (cp_mtp_window params) f = Inr median" and "median \<noteq> - 1"
    and "i \<le> 60" and "b_timestamp b = max now (median + 1) + word_of_nat i"
    and "unat (max now (median + 1)) + 60 < 2 ^ 64"
    and "unat (max now (median + 1)) + 60 \<le> unat now' + unat (cp_max_future_drift params)"
  shows "timestamp_is_valid b h now' params f = Inr True"
proof -
  let ?t = "max now (median + 1)"
  have ts: "unat (b_timestamp b) = unat ?t + i"
    using assms(3-5) unat_add_lem [of ?t "word_of_nat i"] by (simp add: unat_of_nat)
  have "unat (median + 1) = Suc (unat median)"
    using assms(2) unatSuc [of median] by (simp add: add.commute eq_neg_iff_add_eq_0)
  then have "median < ?t" by (simp add: word_less_nat_alt word_le_nat_alt max_def)
  then have med: "\<not> b_timestamp b \<le> median" using ts by (simp add: word_le_nat_alt word_less_nat_alt)
  have "\<not> b_timestamp b - now' > cp_max_future_drift params" if "b_timestamp b > now'"
    using that ts assms(3,6) by (simp add: word_less_nat_alt unat_sub word_le_nat_alt less_imp_le)
  then show ?thesis using assms(1) med by (simp add: timestamp_is_valid_def Let_def)
qed

lemma template_accepted:
  assumes "cm_inv P S m" and "takes_row P m b"
    and "block_template P now m kMaxTxsPerBlock = Inr tmpl"
    and "mine_template (pf_crypto P) reward_address tmpl should_stop = Some b"
    and "unat (tm_timestamp tmpl) + 60 < 2 ^ 64"
    and "unat (tm_timestamp tmpl) + 60 \<le> unat now' + unat (cp_max_future_drift (cm_params m))"
    and "\<forall>tx\<in>set (tm_transactions tmpl). tx_sum_safe tx"
    and "total_supply (cm_ledger m) + minted (mining_txs reward_address tmpl) < 2 ^ 64"
    and "median_time_past (chain_height m) (cp_mtp_window (cm_params m)) (bc_at (cm_blockchain m)) \<noteq> Inr (- 1)"
  shows "\<exists>m' out. submit_block P now' m b = (m', Inr out) \<and> bo_status out = Accepted \<and>
    bo_to_broadcast out = [b_hash b] \<and> chain_height m' = chain_height m + 1 \<and>
    latest_hash m' = b_hash b \<and> b_transactions b = mining_txs reward_address tmpl \<and>
    run_all apply_transaction (cm_ledger m) (b_transactions b) = Some (cm_ledger m') \<and>
    mempool_snapshot m' =
      filter (\<lambda>tx. tx_hash (pf_crypto P) tx \<notin> tx_hash (pf_crypto P) ` set (b_transactions b)) (mempool_snapshot m)"
proof -
  let ?bc = "cm_blockchain m"
  from assms(3) obtain median where med: "median_time_past (bc_size ?bc) (cp_mtp_window (cm_params m)) (bc_at ?bc) = Inr median"
    and d: "next_difficulty (pf_log2 P) (bc_size ?bc) (cm_params m) (bc_at ?bc) = Inr (tm_difficulty tmpl)"
    and t: "tm_prev_hash tmpl = b_hash (latest ?bc)" "tm_timestamp tmpl = max now (median + 1)"
      "tm_transactions tmpl = select_transactions m kMaxTxsPerBlock"
    by (auto simp: block_template_def Let_def bindE_eq_Inr)
  have b: "b_hash b = block_compute_hash (pf_crypto P) b" "meets_target (b_hash b) (tm_difficulty tmpl)"
    "b_prev_hash b = tm_prev_hash tmpl" "b_difficulty b = tm_difficulty tmpl"
    "b_transactions b = mining_txs reward_address tmpl" "\<exists>i\<le>60. b_timestamp b = tm_timestamp tmpl + word_of_nat i"
    using mine_cancel_sound [OF assms(4) [unfolded mine_template_def mine_block_cancel_def]]
    by (auto simp: sealed_def kMaxTimestampBumps_eq [simplified])
  have mp: "mempool_inv (pf_crypto P) (cm_mempool m)" and L: "ledger_inv (cm_ledger m)" using assms(1) by (auto simp: cm_inv_def)
  note sel = select_transactions_facts [OF mp, of kMaxTxsPerBlock, folded t(3)]
  then have nc: "\<forall>tx\<in>set (tm_transactions tmpl). tx_sender tx \<noteq> kCoinbaseSender \<and> tx_sum_safe tx"
    using assms(7) by (auto simp: has_valid_signature_Inr_True)
  have "classify_new_block (pf_crypto P) ?bc b = Valid"
    using b t(1) mining_txs_coinbase(2) [of tmpl _ reward_address] nc by (auto simp: classify_new_block_def list_ex_iff)
  moreover have "timestamp_is_valid b (bc_size ?bc) now' (cm_params m) (bc_at ?bc) = Inr True"
    using b(6) med assms(5,6,9) unfolding t(2) by (auto simp: chain_height_def intro: mined_timestamp_valid)
  ultimately have rules: "tip_rules P now' m b"
    using b d mining_txs_coinbase(1) [of tmpl reward_address] nc by (simp add: tip_rules_def)
  obtain L' where run: "run_all apply_transaction (cm_ledger m) (b_transactions b) = Some L'"
    using mining_txs_apply [OF _ L nc assms(8)] sel(1) b(5) by metis
  have "\<forall>tx\<in>set (b_transactions b). tx_sender tx = kCoinbaseSender \<or> has_valid_signature (pf_crypto P) tx = Inr True"
    using sel(2) unfolding b(5) by (auto simp: mining_txs_def mk_Transaction_def Let_def)
  with run have "apply_block_to_ledger (pf_crypto P) (cm_ledger m) b = (L', Inr True)" by (simp add: apply_block_True_iff)
  then obtain m' where m': "submit_block P now' m b = (m', Inr (accepted_outcome b))" "cm_blockchain m' = add_block ?bc b"
    "cm_ledger m' = L'" "cm_mempool m' = foldl (remove_transaction (pf_crypto P)) (cm_mempool m) (b_transactions b)"
    by (rule submit_block_takes [OF rules assms(2)])
  moreover have "mempool_snapshot m' =
      filter (\<lambda>tx. tx_hash (pf_crypto P) tx \<notin> tx_hash (pf_crypto P) ` set (b_transactions b)) (mempool_snapshot m)"
    unfolding mempool_snapshot_pending m'(4) using mp by (intro remove_transactions_pending) (simp add: mempool_inv_def)
  ultimately show ?thesis using run b(5)
    by (simp add: accepted_outcome_def chain_height_def latest_hash_def
        latest_add_block [OF chain_inv_nonempty [OF assms(1) [unfolded cm_inv_def, THEN conjunct1]]])
qed

text \<open>C6: The block the miner finds for the template the chain handed out is accepted when nothing else
  extended the chain in the meantime: it becomes the new tip, the ledger is the result of applying it, and the mempool
  keeps, in their order, exactly the transactions with none of the hashes of the block's transactions. The manager is
  in a state that satisfies its invariant, with or without a database; one it has must take the new row. The clock is
  not behind the template by more than the permitted drift, timestamps do not reach 2^64, the selected payments
  have sums of amount and fee below 2^64, and the coins in circulation with the reward fit 64 bits.\<close>

theorem mined_block_accepted:
  assumes "cm_inv P S m" and "takes_row P m b"
    and "block_template P now m kMaxTxsPerBlock = Inr tmpl"
    and "mine_template (pf_crypto P) reward_address tmpl should_stop = Some b"
    and "unat (tm_timestamp tmpl) + 60 < 2 ^ 64"
    and "unat (tm_timestamp tmpl) + 60 \<le> unat now' + unat (cp_max_future_drift (cm_params m))"
    and "\<forall>tx\<in>set (tm_transactions tmpl). tx_sum_safe tx"
    and "total_supply (cm_ledger m) + minted (mining_txs reward_address tmpl) < 2 ^ 64"
    and "median_time_past (chain_height m) (cp_mtp_window (cm_params m)) (bc_at (cm_blockchain m)) \<noteq> Inr (- 1)"
  shows "\<exists>m' out. submit_block P now' m b = (m', Inr out) \<and> bo_status out = Accepted \<and>
    bo_to_broadcast out = [b_hash b] \<and> chain_height m' = chain_height m + 1 \<and>
    latest_hash m' = b_hash b \<and> b_transactions b = mining_txs reward_address tmpl \<and>
    run_all apply_transaction (cm_ledger m) (b_transactions b) = Some (cm_ledger m') \<and>
    mempool_snapshot m' =
      filter (\<lambda>tx. tx_hash (pf_crypto P) tx \<notin> tx_hash (pf_crypto P) ` set (b_transactions b)) (mempool_snapshot m)"
  by (rule template_accepted [OF assms])

theorem mined_block_accepted_witness:
  "\<exists>tmpl b m' out. block_template sample_platform 5 (sample_manager (Some sample_db)) kMaxTxsPerBlock = Inr tmpl \<and>
     mine_template sample_openssl ''miner'' tmpl (\<lambda>_. False) = Some b \<and>
     submit_block sample_platform 6 (sample_manager (Some sample_db)) b = (m', Inr out) \<and> bo_status out = Accepted \<and>
     chain_height m' = 2"
proof -
  let ?m = "sample_manager (Some sample_db)"
  define tmpl where "tmpl = \<lparr>tm_prev_hash = b_hash (genesis_block sample_openssl), tm_height = 1, tm_timestamp = (5::u64),
    tm_difficulty = (1::u32), tm_tip_version = 0, tm_transactions = []\<rparr>"
  have t: "block_template sample_platform 5 ?m kMaxTxsPerBlock = Inr tmpl"
    using sample_median
    by (simp add: block_template_def tmpl_def next_difficulty_def sample_params_def kTestParams_def Let_def
        select_transactions_def get_transactions_for_block_def max_def mk_Mempool_def word_le_nat_alt)
  have "meets_target (block_compute_hash sample_openssl b) 1" for b
    unfolding block_compute_hash_def sample_double_sha sample_sha_def by (rule sample_hash_target) simp
  then have "mine_template sample_openssl ''miner'' tmpl (\<lambda>_. False) \<noteq> None"
    unfolding mine_template_def mine_block_cancel_def
    by (subst mine_cancel_unfold) (simp add: cancelled_def tmpl_def)
  then obtain b where b: "mine_template sample_openssl ''miner'' tmpl (\<lambda>_. False) = Some b" by auto
  have "takes_row sample_platform ?m b" by (simp add: takes_row_def save_block_def exec_done_def)
  moreover have "total_supply empty_ledger = 0" by (simp add: total_supply_def empty_ledger_def)
  moreover have "minted (mining_txs ''miner'' tmpl) = 50"
    by (simp add: mining_txs_def tmpl_def minted_def mk_Transaction_def mining_reward_def)
  ultimately have "\<exists>m' out. submit_block sample_platform 6 ?m b = (m', Inr out) \<and> bo_status out = Accepted \<and>
      chain_height m' = Suc (Suc 0)"
    using mined_block_accepted [of sample_platform sample_universe ?m b 5 tmpl "''miner''" "\<lambda>_. False" 6] t b
      sample_median
    by (auto simp: tmpl_def chain_height_def sample_params_def kTestParams_def)
  then show ?thesis using t b by (auto simp: numeral_2_eq_2)
qed

section \<open>The running program\<close>

text \<open>
  Everything that happens in a running program: a turn of one of the node's threads, the miner taking the state
  it builds its template from and later submitting what it found, a request to the RPC server, a line typed at
  the prompt, starting and stopping. The second component is the state the miner's template was taken from.
\<close>

inductive app_step ::
  "('db, 'net) world \<Rightarrow> bytes set \<Rightarrow> (u64 \<Rightarrow> str) \<Rightarrow> ((str \<times> u64) list \<Rightarrow> (str \<times> u64) list) \<Rightarrow>
     ('db, 'net) Orchestrator \<times> ('db, 'net) Node option \<Rightarrow> ('db, 'net) Orchestrator \<times> ('db, 'net) Node option \<Rightarrow> bool"
  for W :: "('db, 'net) world" and S :: "bytes set" and as_utc :: "u64 \<Rightarrow> str"
    and order :: "(str \<times> u64) list \<Rightarrow> (str \<times> u64) list" where
  node: "node_step W S (or_node orc) n \<Longrightarrow> app_step W S as_utc order (orc, t) (orc\<lparr>or_node := n\<rparr>, t)"
| template: "app_step W S as_utc order (orc, t) (orc, Some (or_node orc))"
| mining: "mining_turn W (or_config orc) should_stop t (or_node orc) = (n, r) \<Longrightarrow>
    (\<And>tmpl b. block_template (w_platform W) (w_unix_time W (nd_net t)) (nd_chain t) kMaxTxsPerBlock = Inr tmpl \<Longrightarrow>
      mine_template (pf_crypto (w_platform W)) (oc_reward_address (or_config orc)) tmpl should_stop = Some b \<Longrightarrow>
      block_serialize b \<in> S) \<Longrightarrow>
    app_step W S as_utc order (orc, Some t) (orc\<lparr>or_node := n\<rparr>, None)"
| rpc: "or_rpc_server orc = Some rs \<Longrightarrow> rpc_accept_turn W rs (or_node orc) = Some (n, r) \<Longrightarrow>
    app_step W S as_utc order (orc, t) (orc\<lparr>or_node := n\<rparr>, t)"
| prompt: "app_step W S as_utc order (orc, t) (fst (show_prompt orc), t)"
| console: "run_command W as_utc order orc line = Some (orc', out, goes_on) \<Longrightarrow>
    app_step W S as_utc order (orc, t) (orc', t)"
| start: "orchestrator_start W orc = (orc', logged, ok) \<Longrightarrow> app_step W S as_utc order (orc, t) (orc', t)"
| stop: "app_step W S as_utc order (orc, t) (orchestrator_stop W orc, t)"

lemma latest_hash_length:
  assumes "sha_len C" and "chain_inv C S bc"
  shows "length (b_hash (latest bc)) = 32"
proof -
  have "sound_block C S (latest bc)"
    using chain_inv_nonempty [OF assms(2)] by (intro chain_inv_sound [OF assms(2)]) (simp add: latest_def)
  then show ?thesis using assms(1) by (simp add: sound_block_def block_compute_hash_def length_double_sha_256)
qed

lemma mining_turn_inv:
  assumes "iteration_ok (pf_iter (w_platform W))" and "sha_len (pf_crypto (w_platform W))"
    and "node_inv W S t" and "node_inv W S n"
    and "\<And>tmpl b. block_template (w_platform W) (w_unix_time W (nd_net t)) (nd_chain t) kMaxTxsPerBlock = Inr tmpl \<Longrightarrow>
      mine_template (pf_crypto (w_platform W)) (oc_reward_address config) tmpl should_stop = Some b \<Longrightarrow>
      block_serialize b \<in> S"
    and "mining_turn W config should_stop t n = (n', r)"
  shows "node_inv W S n'"
proof -
  let ?P = "w_platform W"
  have prev: "length (b_prev_hash b) = 32"
    if "block_template ?P now (nd_chain t) k = Inr tmpl" "mine_template (pf_crypto ?P) reward tmpl should_stop = Some b"
    for now k tmpl reward b
  proof -
    have "tm_prev_hash tmpl = b_hash (latest (cm_blockchain (nd_chain t)))"
      using that(1) by (auto simp: block_template_def Let_def bindE_eq_Inr)
    moreover have "b_prev_hash b = tm_prev_hash tmpl"
      using mine_cancel_sound [OF that(2) [unfolded mine_template_def mine_block_cancel_def]] by (auto simp: sealed_def)
    moreover have "chain_inv (pf_crypto ?P) S (cm_blockchain (nd_chain t))"
      using node_inv_parts(1) [OF assms(3)] by (simp add: cm_inv_def)
    ultimately show ?thesis using latest_hash_length [OF assms(2)] by simp
  qed
  show ?thesis
    using assms(4,6) node_submit_block_inv [OF assms(1,4) assms(5)] prev
    by (fastforce simp: mining_turn_def split: sum.splits option.splits prod.splits)
qed

lemma rpc_dispatch_inv:
  "node_inv W S n \<Longrightarrow> rpc_dispatch W n command iss = (n', r) \<Longrightarrow> node_inv W S n'"
  by (auto simp: rpc_dispatch_def rpc_submit_tx_def Let_def intro: node_submit_transaction_inv
      split: if_splits option.splits prod.splits sum.splits)

lemma handle_command_inv: "node_inv W S n \<Longrightarrow> handle_command W rs n line = (n', r) \<Longrightarrow> node_inv W S n'"
  by (auto simp: handle_command_def intro: rpc_dispatch_inv split: prod.splits if_splits)

lemma handle_connection_inv:
  "node_inv W S n \<Longrightarrow> handle_connection W rs n fd = Some (n', r) \<Longrightarrow> node_inv W S n'"
  using handle_command_inv [of W S "n\<lparr>nd_net := _\<rparr>" rs]
  by (fastforce simp: handle_connection_def Let_def drop_socket_inv split: bind_splits option.splits prod.splits sum.splits)

lemma rpc_accept_turn_inv: "node_inv W S n \<Longrightarrow> rpc_accept_turn W rs n = Some (n', r) \<Longrightarrow> node_inv W S n'"
  by (auto simp: rpc_accept_turn_def Let_def split: prod.splits if_splits intro: handle_connection_inv [rotated])

lemma run_command_inv:
  assumes "node_inv W S (or_node orc)" and "run_command W as_utc order orc line = Some (orc', out, goes_on)"
  shows "node_inv W S (or_node orc')"
proof -
  have set: "or_node (fst (set_command orc iss)) = or_node orc" for iss
    by (simp add: set_command_def handle_set_reward_address_def handle_set_secret_key_command_def Let_def
        split: prod.splits option.splits)
  have conn: "node_inv W S (or_node orc1)" if "connect_command W orc iss = Some (orc1, r)" for iss orc1 r
    using that assms(1) connect_to_peer_inv [OF assms(1)]
    by (auto simp: connect_command_def handle_connect_to_peer_def split: option.splits prod.splits bind_splits)
  obtain command iss where t: "take_token line [] = (command, iss)" by fastforce
  show ?thesis
    using assms set [of iss] conn [of iss] by (auto simp: run_command_def t Let_def split: if_splits prod.splits)
qed

lemma foldl_remember_inv:
  "node_inv W S n \<Longrightarrow> node_inv W S (foldl (\<lambda>n a. remember_peer W n (pa_host a) (pa_port a)) n addresses)"
  by (induction addresses arbitrary: n) (simp_all add: remember_peer_inv)

lemma orchestrator_start_inv:
  assumes "node_inv W S (or_node orc)" and "orchestrator_start W orc = (orc', logged, ok)"
  shows "node_inv W S (or_node orc')"
proof -
  obtain n b where n: "node_start W (or_node orc) = (n, b)" by fastforce
  have inv: "node_inv W S n" by (rule node_start_inv [OF assms(1) n])
  have rpc: "node_inv W S n'" if "rpc_start W n rs = (n', rs', c)" for n' rs rs' c
    using that inv by (auto simp: rpc_start_def Let_def split: prod.splits if_splits)
  have stop: "node_inv W S (fst (rpc_stop W n' rs))" if "node_inv W S n'" for n' rs
    using that by (simp add: rpc_stop_def split: prod.splits)
  show ?thesis
    using assms(2) inv n rpc stop
    by (auto simp: orchestrator_start_def Let_def foldl_remember_inv split: bool.splits prod.splits if_splits)
qed

lemma orchestrator_stop_inv: "node_inv W S (or_node orc) \<Longrightarrow> node_inv W S (or_node (orchestrator_stop W orc))"
  by (auto simp: orchestrator_stop_def rpc_stop_def intro!: node_stop_inv split: option.splits prod.splits)

definition app_inv :: "('db, 'net) world \<Rightarrow> bytes set \<Rightarrow> ('db, 'net) Orchestrator \<times> ('db, 'net) Node option \<Rightarrow> bool" where
  "app_inv W S = (\<lambda>(orc, t). node_inv W S (or_node orc) \<and> pred_option (node_inv W S) t)"

lemma app_step_inv:
  assumes "iteration_ok (pf_iter (w_platform W))" and "sha_len (pf_crypto (w_platform W))"
    and "app_step W S as_utc order x y" and "app_inv W S x"
  shows "app_inv W S y"
  using assms(3)
proof cases
  case (node orc n t)
  then show ?thesis using assms(4) node_step_inv [OF assms(1)] by (simp add: app_inv_def)
next
  case (mining orc should_stop t n r)
  have "node_inv W S t" "node_inv W S (or_node orc)" using assms(4) mining(1) by (simp_all add: app_inv_def)
  from mining_turn_inv [OF assms(1,2) this mining(4,3)] show ?thesis using mining(2) by (simp add: app_inv_def)
next
  case (rpc orc rs n r t)
  then show ?thesis using assms(4) rpc_accept_turn_inv by (fastforce simp: app_inv_def)
next
  case (console orc line orc' out goes_on t)
  then show ?thesis using assms(4) run_command_inv by (fastforce simp: app_inv_def)
next
  case (start orc orc' logged ok t)
  then show ?thesis using assms(4) orchestrator_start_inv by (fastforce simp: app_inv_def)
qed (use assms(4) in \<open>simp_all add: app_inv_def orchestrator_stop_inv show_prompt_def split: prod.splits\<close>)

lemma app_reach_inv:
  assumes "iteration_ok (pf_iter (w_platform W))" and "sha_len (pf_crypto (w_platform W))"
    and "rtranclp (app_step W S as_utc order) x y" and "app_inv W S x"
  shows "app_inv W S y"
  using assms(3,4) by (induction rule: rtranclp_induct) (auto intro: app_step_inv [OF assms(1,2)])

section \<open>A program that starts from its database\<close>

lemma restore_loop_inv:
  assumes "sqlite_laws (pf_sqlite P) V" and "usable (pf_sqlite P) V" and "chain_inv (pf_crypto P) S B"
    and "wire_chain (pf_crypto P) B"
    and "sv_rows V db = block_rows_from 0 (bc_blocks B)" and "i + k = length (bc_blocks B)" and "0 < i"
    and "bc_blocks (cm_blockchain m) = take i (bc_blocks B)" and "cm_inv P S m"
    and "restore_loop P m db i k = Inr m'"
  shows "cm_inv P S m'"
  using assms(5-10)
proof (induction k arbitrary: m db i)
  case (Suc k)
  let ?b = "wire_block (bc_blocks B ! i)"
  have i: "i < length (bc_blocks B)" using Suc.prems(2) by simp
  have wf: "wf_block (pf_crypto P) ?b" using assms(4) i by (simp add: wire_chain_def)
  obtain db' where l: "load_block (pf_crypto P) (pf_sqlite P) db i = (db', Inr (Some ?b))" "sv_rows V db' = sv_rows V db"
    by (rule stored_load [OF assms(1,2) Suc.prems(1) i wf])
  obtain m1 where m1: "restore_block P m ?b = (m1, Inr True)" "restore_loop P m1 db' (i + 1) k = Inr m'"
    using Suc.prems(6) l(1) by (auto split: prod.splits sum.splits bool.splits)
  obtain j where j: "i = Suc j" using Suc.prems(3) by (cases i) auto
  have last: "latest (cm_blockchain m) = bc_blocks B ! j"
    using Suc.prems(4) i j by (simp add: latest_def take_Suc_conv_app_nth)
  have "b_prev_hash ?b = b_hash (latest (cm_blockchain m))" using chain_prev [OF assms(3), of j] i j last by simp
  moreover have "sound_block (pf_crypto P) S ?b" using chain_inv_sound [OF assms(3)] i by simp
  ultimately have inv: "cm_inv P S m1" using restore_block_inv [OF Suc.prems(5) _ _ m1(1)] by simp
  have "bc_blocks (cm_blockchain m1) = take (Suc i) (bc_blocks B)"
    using m1(1) add_wire_block [OF assms(3) Suc.prems(3) i Suc.prems(4)]
    by (auto simp: restore_block_def split: prod.splits sum.splits if_splits)
  from Suc.IH [OF _ _ _ this inv] m1(2) l(2) Suc.prems(1,2) show ?case by simp
qed auto

text \<open>What a database may hold when the program starts: nothing yet, or the blocks of a valid chain.\<close>

definition good_store :: "'db platform \<Rightarrow> bytes set \<Rightarrow> 'db \<Rightarrow> bool" where
  "good_store P S db \<longleftrightarrow> (\<exists>V B. sqlite_laws (pf_sqlite P) V \<and> usable (pf_sqlite P) V \<and>
     chain_inv (pf_crypto P) S B \<and> wire_chain (pf_crypto P) B \<and>
     (sv_rows V db = {} \<or> sv_rows V db = block_rows_from 0 (bc_blocks B)))"

lemma good_store_opened:
  assumes "good_store P S db" and "open_storage (pf_sqlite P) (Some db) path = Inr db'"
  shows "good_store P S db'"
proof -
  from assms(1) obtain V B where V: "sqlite_laws (pf_sqlite P) V" "usable (pf_sqlite P) V"
    "chain_inv (pf_crypto P) S B" "wire_chain (pf_crypto P) B"
    "sv_rows V db = {} \<or> sv_rows V db = block_rows_from 0 (bc_blocks B)"
    unfolding good_store_def by blast
  obtain db1 where "open_storage (pf_sqlite P) (Some db) path = Inr db1" "sv_rows V db1 = sv_rows V db"
    by (rule open_storage_rows [OF V(2)])
  then have "sv_rows V db' = sv_rows V db" using assms(2) by simp
  then show ?thesis unfolding good_store_def using V by (intro exI [of _ V] exI [of _ B]) simp
qed

lemma restored_inv:
  assumes "collision_free (pf_crypto P) S" and "block_serialize (genesis_block (pf_crypto P)) \<in> S" and "good_store P S db"
    and "new_ChainManager P k params (Some db) = Inr m" and "restore_chain P m = Inr m'"
  shows "cm_inv P S m'"
proof -
  have m: "cm_inv P S m" by (rule new_ChainManager_inv [OF assms(1,2,4)])
  from assms(3) obtain V B where V: "sqlite_laws (pf_sqlite P) V" "usable (pf_sqlite P) V"
    and B: "chain_inv (pf_crypto P) S B" "wire_chain (pf_crypto P) B"
    and rows: "sv_rows V db = {} \<or> sv_rows V db = block_rows_from 0 (bc_blocks B)"
    unfolding good_store_def by blast
  obtain bs where bs: "bc_blocks B = genesis_block (pf_crypto P) # bs" using B(1) by (auto simp: chain_inv_def)
  from rows show ?thesis
  proof
    assume "sv_rows V db = {}"
    then have e: "sv_rows V db = block_rows_from 0 []" by simp
    obtain db1 where db1: "block_count (pf_sqlite P) db = (db1, Inr (length ([] :: Block list)))" "sv_rows V db1 = block_rows_from 0 []"
      by (rule stored_count [OF V e])
    obtain db2 where db2: "save_block (pf_sqlite P) db1 (genesis_block (pf_crypto P)) 0 = (db2, Inr ())" "cm_storage m = Some db2"
      using assms(4) db1(1) by (auto simp: new_ChainManager_def Let_def new_Blockchain_def split: prod.splits sum.splits)
    have "pf_sqlite P db1 (Insert_block (int 0) (b_hash (genesis_block (pf_crypto P))) (block_serialize (genesis_block (pf_crypto P)))) =
        (db2, Done)" using db2(1) by (simp add: save_block_def exec_done_Inr)
    from sqlite_lawsD(1) [OF V(1) this] db1(2) have g: "sv_rows V db2 = block_rows_from 0 [genesis_block (pf_crypto P)]"
      by (auto simp: insert_row_def)
    obtain db3 where "block_count (pf_sqlite P) db2 = (db3, Inr (length [genesis_block (pf_crypto P)]))"
      by (rule stored_count [OF V g])
    with db2(2) assms(5) have "m' = m\<lparr>cm_storage := Some db3\<rparr>" by (simp add: restore_chain_def)
    then show ?thesis using m by simp
  next
    assume r: "sv_rows V db = block_rows_from 0 (bc_blocks B)"
    obtain db1 where new: "new_ChainManager P k params (Some db) = Inr (first_manager P k params db1)"
      and rows1: "sv_rows V db1 = block_rows_from 0 (bc_blocks B)"
      by (rule new_manager_stored [OF V chain_inv_nonempty [OF B(1)] r])
    have db1: "m = first_manager P k params db1" using new assms(4) by simp
    obtain db2 where db2: "block_count (pf_sqlite P) db1 = (db2, Inr (length (bc_blocks B)))"
      "sv_rows V db2 = block_rows_from 0 (bc_blocks B)"
      by (rule stored_count [OF V rows1])
    have "restore_loop P m db2 1 (length (bc_blocks B) - 1) = Inr m'"
      using assms(5) db1 db2(1) by (simp add: restore_chain_def)
    from restore_loop_inv [OF V B db2(2) _ _ _ m this] show ?thesis using bs db1 by (simp add: new_Blockchain_def)
  qed
qed

lemma new_Orchestrator_inv:
  assumes "collision_free (pf_crypto (w_platform W)) S" and "block_serialize (genesis_block (pf_crypto (w_platform W))) \<in> S"
    and "\<And>db. oc_db_path config \<noteq> [] \<Longrightarrow> opened = Some db \<Longrightarrow> good_store (w_platform W) S db"
    and "new_Orchestrator W net node_id opened config = Inr orc"
  shows "node_inv W S (or_node orc)"
proof -
  let ?P = "w_platform W"
  obtain storage m m' where c: "new_ChainManager ?P kMaxPending (oc_consensus config) storage = Inr m" "restore_chain ?P m = Inr m'"
    and s: "oc_db_path config = [] \<and> storage = None \<or> oc_db_path config \<noteq> [] \<and>
      (\<exists>db. open_storage (pf_sqlite ?P) opened (oc_db_path config) = Inr db \<and> storage = Some db)"
    and orc: "or_node orc = new_Node (tcp_now (w_tcp W) net) net (oc_listen_port config)
      \<lparr>vi_protocol_version = 1, vi_chain_height = 0, vi_timestamp = 0, vi_listen_port = oc_listen_port config,
       vi_node_id = node_id\<rparr> m'"
    using assms(4) unfolding new_Orchestrator_def by (auto simp: bindE_eq_Inr Let_def split: if_splits)
  have "cm_inv ?P S m'"
  proof (cases storage)
    case None
    then have "m' = m" using c by (auto simp: new_ChainManager_def restore_chain_def Let_def)
    then show ?thesis using new_ChainManager_inv [OF assms(1,2) c(1)] by simp
  next
    case (Some db)
    then obtain db0 where o: "oc_db_path config \<noteq> []" "opened = Some db0"
        "open_storage (pf_sqlite ?P) (Some db0) (oc_db_path config) = Inr db"
      using s by (auto simp: open_storage_def split: option.splits)
    have "good_store ?P S db" by (rule good_store_opened [OF assms(3) [OF o(1,2)] o(3)])
    then show ?thesis using restored_inv [OF assms(1,2) _ _ c(2)] c(1) Some by simp
  qed
  then show ?thesis using orc new_Node_inv by metis
qed

text \<open>C1: The program is safe in every run. It starts from an empty database, from one that holds a valid chain,
  or without storage; then the node's threads, the miner, RPC requests, console commands, start and stop take turns
  in any order, with any messages from peers and whichever of them throw. At every moment the node has a valid
  chain from its own genesis block, an address book of at most a thousand distinct addresses, only blocks that carry
  their own hash in its catch-up buffer, and no two live connections to the same address; peers that announce port
  zero, the value for accepting no connections, have no address in this sense and are exempt. Block payloads are
  assumed to come from a set on which the hash does not collide.\<close>

theorem program_runs_safely:
  assumes "collision_free (pf_crypto (w_platform W)) S" and "sha_len (pf_crypto (w_platform W))"
    and "block_serialize (genesis_block (pf_crypto (w_platform W))) \<in> S"
    and "iteration_ok (pf_iter (w_platform W))"
    and "oc_db_path config = [] \<or> (\<exists>db. opened = Some db \<and> good_store (w_platform W) S db)"
    and "new_Orchestrator W net node_id opened config = Inr orc0"
    and "rtranclp (app_step W S as_utc order) (orc0, None) (orc, t)" and "n = or_node orc"
  shows "bc_is_valid (pf_crypto (w_platform W)) (cm_blockchain (nd_chain n)) \<and>
    hd (bc_blocks (cm_blockchain (nd_chain n))) = genesis_block (pf_crypto (w_platform W)) \<and>
    book_size (nd_address_book n) \<le> 1000 \<and> distinct (map ae_address (nd_address_book n)) \<and>
    (\<forall>b\<in>set (ss_buffer (nd_sync_state n)). b_hash b = block_compute_hash (pf_crypto (w_platform W)) b) \<and>
    (\<forall>e\<in>set (nd_peers n). \<forall>e'\<in>set (nd_peers n). pr_alive (entry_peer n e) \<and> pr_alive (entry_peer n e') \<and>
       pa_port (entry_address n e) \<noteq> 0 \<and> entry_address n e = entry_address n e' \<longrightarrow> e = e')"
proof -
  have "node_inv W S (or_node orc0)"
    using assms(5) by (intro new_Orchestrator_inv [OF assms(1,3) _ assms(6)]) auto
  then have "app_inv W S (orc, t)" by (intro app_reach_inv [OF assms(4,2,7)]) (simp add: app_inv_def)
  then have "node_inv W S n" using assms(8) by (simp add: app_inv_def)
  note safe = node_inv_safe [OF this]
  show ?thesis using safe(1-4) safe(5) safe(6) by blast
qed

text \<open>The program on an empty database, with the reward address set at the console while the miner works.\<close>

definition fresh_config :: OrchestratorConfig where
  "fresh_config = default_config\<lparr>oc_db_path := ''db''\<rparr>"

lemma fresh_program:
  "\<exists>orc. new_Orchestrator sample_world quiet_net 1 (Some empty_db) fresh_config = Inr orc"
  by (simp add: new_Orchestrator_def fresh_config_def sample_world_def open_storage_def create_schema_def exec_done_def
      new_ChainManager_def block_count_def empty_db_def save_block_def restore_chain_def Let_def)

theorem program_runs_safely_witness:
  "\<exists>orc0 orc t. new_Orchestrator sample_world quiet_net 1 (Some empty_db) fresh_config = Inr orc0 \<and>
     rtranclp (app_step sample_world sample_universe (\<lambda>_. []) (\<lambda>x. x)) (orc0, None) (orc, t) \<and>
     oc_reward_address (or_config orc) = ''x'' \<and> bc_is_valid sample_openssl (cm_blockchain (nd_chain (or_node orc)))"
proof -
  obtain orc0 where o: "new_Orchestrator sample_world quiet_net 1 (Some empty_db) fresh_config = Inr orc0"
    using fresh_program by blast
  let ?step = "app_step sample_world sample_universe (\<lambda>_. []) (\<lambda>x. x)"
  let ?orc = "fst (handle_set_reward_address orc0 ''x'')"
  have t: "take_token ''set reward-address x'' [] = (''set'', '' reward-address x'')"
    "take_token ''reward-address x'' [] = (''reward-address'', '' x'')" "take_token ''x'' [] = (''x'', [])" by code_simp+
  have "run_command sample_world (\<lambda>_. []) (\<lambda>x. x) orc0 ''set reward-address x'' = Some (?orc, Inr [''reward address set to x''], True)"
    by (simp add: run_command_def set_command_def t Let_def handle_set_reward_address_def)
  then have "?step (orc0, Some (or_node orc0)) (?orc, Some (or_node orc0))" by (rule app_step.console)
  then have run: "rtranclp ?step (orc0, None) (?orc, Some (or_node orc0))"
    using app_step.template by (metis converse_rtranclp_into_rtranclp rtranclp.rtrancl_refl)
  have "sv_rows mem_view empty_db = {}" by (simp add: mem_view_def empty_db_def)
  then have "good_store sample_platform sample_universe empty_db"
    unfolding good_store_def using mem_usable sample_wire_chain(2)
    by (intro exI [of _ mem_view] exI [of _ sample_bc]) simp
  with program_runs_safely [OF _ _ _ _ _ o run refl] have "bc_is_valid sample_openssl (cm_blockchain (nd_chain (or_node ?orc)))"
    by (simp add: sample_world_def)
  moreover have "oc_reward_address (or_config ?orc) = ''x''" by (simp add: handle_set_reward_address_def)
  ultimately show ?thesis using o run by blast
qed

end
