(* ===== verification/FC_LedgerChain.thy ===== *)
theory FC_LedgerChain
  imports FC_ChainProps
begin

text \<open>
  The ledger of a chain manager (src/src/chain/ChainManager.cpp) against its chain: the ledger should be what
  replaying the transactions of the chain from an empty ledger gives, up to entries of zero. Extending and
  restoring the chain keep it so, and a reorganization does when the two branches share no payment. Two runs
  show what happens otherwise.
\<close>

section \<open>Replaying a chain\<close>

definition replayed :: "Blockchain \<Rightarrow> Ledger option" where
  "replayed bc = run_all apply_transaction empty_ledger (branch_txs (bc_blocks bc))"

definition ledger_follows :: "'db ChainManager \<Rightarrow> bool" where
  "ledger_follows m \<longleftrightarrow> (\<exists>L. replayed (cm_blockchain m) = Some L \<and> ledger_ext L (cm_ledger m))"

text \<open>No sum of a run of transactions wraps: neither amount and fee of one, nor all coins created.\<close>

definition sums_safe :: "Transaction list \<Rightarrow> bool" where
  "sums_safe txs \<longleftrightarrow> (\<forall>tx\<in>set txs. tx_sum_safe tx) \<and> minted txs < 2 ^ 64"

definition moves_coins :: "Transaction \<Rightarrow> bool" where
  "moves_coins tx \<longleftrightarrow> tx_sender tx = kCoinbaseSender \<or> tx_amount tx + tx_fee tx \<noteq> 0"

lemma empty_supply [simp]: "total_supply empty_ledger = 0"
  by (simp add: total_supply_def empty_ledger_def)

lemma empty_ledger_reads [simp]:
  "balance empty_ledger a = 0" "get_balance empty_ledger a = None" "next_nonce empty_ledger a = 0"
  by (simp_all add: balance_def get_balance_def next_nonce_def umap_at_def empty_ledger_def)

lemma sums_safe_append: "sums_safe (xs @ ys) \<Longrightarrow> sums_safe xs"
  by (simp add: sums_safe_def)

lemma replayed_supply:
  assumes "run_all apply_transaction empty_ledger txs = Some L" and "sums_safe txs"
  shows "ledger_inv L" and "total_supply L \<le> minted txs"
  using run_all_supply [OF ledger_inv_empty _ _ assms(1)] assms(2) by (simp_all add: sums_safe_def)

lemma replayed_split:
  assumes "run_all apply_transaction empty_ledger (xs @ ys) = Some L" and "sums_safe (xs @ ys)"
  obtains M where "run_all apply_transaction empty_ledger xs = Some M" "run_all apply_transaction M ys = Some L"
    "safe_run credit_safe apply_transaction M ys"
proof -
  obtain M where M: "run_all apply_transaction empty_ledger xs = Some M" "run_all apply_transaction M ys = Some L"
    using assms(1) by (auto simp: run_all_append split: bind_splits)
  note s = replayed_supply [OF M(1) sums_safe_append [OF assms(2)]]
  have "safe_run credit_safe apply_transaction M ys"
    using run_all_supply [OF s(1) _ _ M(2)] s(2) assms(2) by (simp add: sums_safe_def)
  with M that show ?thesis by blast
qed

text \<open>A run on an extension of a ledger is a run on the ledger, when every transaction moves coins.\<close>

lemma run_ext_back:
  assumes "run_all apply_transaction L' txs = Some M'" and "ledger_ext L L'" and "\<forall>tx\<in>set txs. moves_coins tx"
  shows "\<exists>M. run_all apply_transaction L txs = Some M \<and> ledger_ext M M'"
  using assms
proof (induction txs arbitrary: L L')
  case (Cons tx txs)
  from Cons.prems(1) obtain L1' where a: "apply_transaction L' tx = (L1', True)"
    and r: "run_all apply_transaction L1' txs = Some M'"
    by (auto split: prod.splits if_splits)
  obtain L1 where "apply_transaction L tx = (L1, True)" "ledger_ext L1 L1'"
    using apply_ext_back [OF a Cons.prems(2)] Cons.prems(3) by (auto simp: moves_coins_def)
  with Cons.IH [OF r] Cons.prems(3) show ?case by simp
qed auto

section \<open>Extending the chain\<close>

lemma follows_extended:
  assumes "ledger_follows m" and "run_all apply_transaction (cm_ledger m) (b_transactions block) = Some L"
    and "\<forall>tx\<in>set (b_transactions block). moves_coins tx"
    and "cm_blockchain m' = add_block (cm_blockchain m) block" and "cm_ledger m' = L"
  shows "ledger_follows m'"
proof -
  obtain L0 where L0: "replayed (cm_blockchain m) = Some L0" "ledger_ext L0 (cm_ledger m)"
    using assms(1) by (auto simp: ledger_follows_def)
  obtain M where "run_all apply_transaction L0 (b_transactions block) = Some M" "ledger_ext M L"
    using run_ext_back [OF assms(2) L0(2) assms(3)] by blast
  with L0(1) assms(4,5) show ?thesis
    by (auto simp: ledger_follows_def replayed_def run_all_append add_block_def Let_def)
qed

lemma follows_rolled_back:
  assumes "ledger_follows m" and "ledger_ext (cm_ledger m) L" and "cm_blockchain m' = cm_blockchain m" and "cm_ledger m' = L"
  shows "ledger_follows m'"
  using assms ledger_rev.ext_trans by (auto simp: ledger_follows_def)

lemma submit_follows:
  assumes "ledger_follows m" and "ledger_inv (cm_ledger m)" and "\<forall>tx\<in>set (b_transactions block). tx_sum_safe tx \<and> moves_coins tx"
    and "total_supply (cm_ledger m) + minted (b_transactions block) < 2 ^ 64"
    and "submit_block P now m block = (m', Inr out)" and "bo_status out \<noteq> Reorged"
  shows "ledger_follows m'"
  using assms(5)
proof (cases rule: submit_block_cases)
  case unchanged
  then show ?thesis using assms(1) by simp
next
  case (unapplied L res)
  then have "apply_block_to_ledger (pf_crypto P) (cm_ledger m) block = (L, Inr False)" by (cases res) auto
  then have "ledger_ext (cm_ledger m) L" using assms(2-4) by (intro apply_block_rollback) simp_all
  then show ?thesis using unapplied(4) by (intro follows_rolled_back [OF assms(1)]) simp_all
next
  case (extends L)
  then show ?thesis using assms(3) by (intro follows_extended [OF assms(1)]) (simp_all add: apply_block_True_iff)
next
  case (saves L db db' res)
  then show ?thesis using assms(3) by (intro follows_extended [OF assms(1)]) (simp_all add: apply_block_True_iff)
next
  case fork
  then obtain pool where "m' = m\<lparr>cm_orphans := pool\<rparr>" using handle_fork_outcome(2) assms(6) by blast
  then show ?thesis using assms(1) by (simp add: ledger_follows_def)
qed

lemma restore_follows:
  assumes "ledger_follows m" and "ledger_inv (cm_ledger m)" and "\<forall>tx\<in>set (b_transactions block). tx_sum_safe tx \<and> moves_coins tx"
    and "total_supply (cm_ledger m) + minted (b_transactions block) < 2 ^ 64"
    and "restore_block P m block = (m', Inr ok)"
  shows "ledger_follows m'"
proof (cases ok)
  case True
  then obtain L where "apply_block_to_ledger (pf_crypto P) (cm_ledger m) block = (L, Inr True)"
    "cm_blockchain m' = add_block (cm_blockchain m) block" "cm_ledger m' = L"
    using assms(5) by (auto simp: restore_block_def split: prod.splits sum.splits if_splits)
  then show ?thesis using assms(3) by (intro follows_extended [OF assms(1)]) (simp_all add: apply_block_True_iff)
next
  case False
  then obtain L where L: "apply_block_to_ledger (pf_crypto P) (cm_ledger m) block = (L, Inr False)"
    "cm_blockchain m' = cm_blockchain m" "cm_ledger m' = L"
    using assms(5) by (auto simp: restore_block_def split: prod.splits sum.splits if_splits)
  have "ledger_ext (cm_ledger m) L" using assms(2-4) by (intro apply_block_rollback [OF _ _ _ L(1)]) simp_all
  then show ?thesis using L(2,3) by (rule follows_rolled_back [OF assms(1)])
qed

section \<open>Changing the branch\<close>

lemma undo_discarded_unshared:
  "undo_discarded C H L mp txs = (L', mp', Inr u) \<Longrightarrow> \<forall>tx\<in>set txs. tx_hash C tx \<notin> H \<Longrightarrow>
     L' = undo_all reverse_transaction L txs"
  by (induction txs arbitrary: L mp) (auto simp: Let_def split: prod.splits sum.splits if_splits)

lemma apply_new_unshared:
  "run_all apply_transaction L txs = Some L' \<Longrightarrow> \<forall>tx\<in>set txs. tx_hash C tx \<notin> H \<Longrightarrow> apply_new C H L txs = L'"
  by (induction txs arbitrary: L) (auto split: prod.splits if_splits)

text \<open>No transaction of one branch has the hash of a payment of the other.\<close>

definition unshared :: "openssl \<Rightarrow> Transaction list \<Rightarrow> Transaction list \<Rightarrow> bool" where
  "unshared C txs txs' \<longleftrightarrow> (\<forall>tx\<in>set txs. tx_hash C tx \<notin> payment_hashes C txs') \<and>
     (\<forall>tx\<in>set txs'. tx_hash C tx \<notin> payment_hashes C txs)"

lemma branch_txs_with_work [simp]: "branch_txs (with_work w bs) = branch_txs bs"
  by (induction bs arbitrary: w) simp_all

lemma reorg_follows:
  assumes "chain_inv (pf_crypto P) S (cm_blockchain m)" and "fork_of (pf_crypto P) S (cm_blockchain m) fork"
    and "try_reorg P m fork = (m', Inr (Some hs))" and "ledger_follows m" and "replayed (cm_blockchain m') \<noteq> None"
    and "sums_safe (branch_txs (bc_blocks (cm_blockchain m)))"
    and "unshared (pf_crypto P) (branch_txs (fc_blocks fork))
      (branch_txs (drop (bc_size (cm_blockchain m') - length hs) (bc_blocks (cm_blockchain m))))"
  shows "ledger_follows m'"
  using assms(3)
proof (cases rule: try_reorg_cases)
  case (switch bc discarded L mp u)
  let ?C = "pf_crypto P" and ?A = "bc_blocks (cm_blockchain m)" and ?new = "branch_txs (fc_blocks fork)"
  obtain h where h: "h < length ?A" "discarded = drop (Suc h) ?A"
      "bc_blocks bc = take (Suc h) ?A @ with_work (b_cumulative_work (fc_common_ancestor fork)) (fc_blocks fork)"
    using reorganize_to_fork [OF assms(1,2)] switch(3) by (metis option.inject prod.inject)
  have u: "u = Inr ()" "hs = map b_hash (fc_blocks fork)" using switch(11) by simp_all
  let ?old = "branch_txs discarded" and ?pre = "branch_txs (take (Suc h) ?A)"
  have A: "branch_txs ?A = ?pre @ ?old" unfolding h(2) by (metis append_take_drop_id concat_append map_append)
  have B: "branch_txs (bc_blocks (cm_blockchain m')) = ?pre @ ?new" using h(3) switch(5) by simp
  have "bc_size (cm_blockchain m') - length hs = Suc h" using h(1,3) u(2) switch(5) by (simp add: bc_size_def)
  then have sep: "unshared ?C ?new ?old" using assms(7) h(2) by simp
  obtain L0 where L0: "run_all apply_transaction empty_ledger (?pre @ ?old) = Some L0" "ledger_ext L0 (cm_ledger m)"
    using assms(4) A by (auto simp: ledger_follows_def replayed_def)
  obtain M where M: "run_all apply_transaction empty_ledger ?pre = Some M" "run_all apply_transaction M ?old = Some L0"
    "safe_run credit_safe apply_transaction M ?old"
    by (rule replayed_split [OF L0(1) assms(6) [unfolded A]])
  obtain L1 where L1: "run_all apply_transaction M ?new = Some L1"
    using assms(5) M(1) unfolding replayed_def B by (auto simp: run_all_append)
  have L: "L = undo_all reverse_transaction (cm_ledger m) (rev ?old)"
    using switch(4) sep u(1) by (intro undo_discarded_unshared [of ?C]) (auto simp: unshared_def)
  obtain L2 where L2: "run_all apply_transaction L ?new = Some L2" "ledger_ext L1 L2"
    using ledger_rev.switch_run [OF M(2,3) L0(2) L1] unfolding L by blast
  have "cm_ledger m' = L2"
    using switch(10) u(1) apply_new_unshared [OF L2(1)] sep by (simp add: unshared_def)
  moreover have "replayed (cm_blockchain m') = Some L1" unfolding replayed_def B using M(1) L1 by (simp add: run_all_append)
  ultimately show ?thesis using L2(2) by (simp add: ledger_follows_def)
qed simp

section \<open>Sample chains\<close>

text \<open>A miner with address one is paid for a block and spends all of it in the same block.\<close>

definition sample_spend :: Transaction where
  "sample_spend = sample_tx 1 2 50 0 0"

definition paid_block :: Block where
  "paid_block = sample_child (genesis_block sample_openssl) 5 1 [sample_coin, sample_spend]"

definition paid_bc :: Blockchain where
  "paid_bc = add_block (new_Blockchain sample_openssl) paid_block"

definition paid_ledger :: Ledger where
  "paid_ledger = fst (apply_transaction (fst (apply_transaction empty_ledger sample_coin)) sample_spend)"

definition paid_manager :: "mem_db ChainManager" where
  "paid_manager = extended sample_platform (sample_manager None) paid_block paid_ledger"

text \<open>A rival of that block with the same reward and the same payment, and a block on top of it.\<close>

definition rival_block :: Block where
  "rival_block = sample_child (genesis_block sample_openssl) 20 1 [sample_coin, sample_spend]"

definition rival_tip :: Block where
  "rival_tip = sample_child rival_block 30 1 []"

lemma sample_spend_sel [simp]:
  "tx_sender sample_spend = derive_address sample_openssl [1]" "tx_recipient sample_spend = derive_address sample_openssl [2]"
  "tx_amount sample_spend = 50" "tx_fee sample_spend = 0" "tx_nonce sample_spend = 0"
  "derive_address sample_openssl [1] \<noteq> kCoinbaseSender" "has_valid_signature sample_openssl sample_spend = Inr True"
  by (simp_all add: sample_spend_def derive_address_not_coinbase)

lemma sample_txs_sum:
  "length (tx_serialize sample_coin) = 112" "length (tx_serialize sample_spend) = 170"
  "sum_list (tx_serialize sample_coin) = 191" "sum_list (tx_serialize sample_spend) = 185"
  "sum_list (serialize_for_signing sample_coin) = 191" "sum_list (serialize_for_signing sample_spend) = 183"
proof -
  show "length (tx_serialize sample_coin) = 112" "length (tx_serialize sample_spend) = 170"
    by (simp_all add: tx_serialize_def serialize_for_signing_def sample_coin_def sample_spend_def sample_tx_def
        mk_Transaction_def kCoinbaseSender_def derive_address_def sample_sha_def)
  show "sum_list (tx_serialize sample_coin) = 191" "sum_list (tx_serialize sample_spend) = 185"
    "sum_list (serialize_for_signing sample_coin) = 191" "sum_list (serialize_for_signing sample_spend) = 183"
    by code_simp+
qed

lemma paid_hash:
  assumes "unat t < 256"
  shows "b_hash (sample_child (genesis_block sample_openssl) t 1 [sample_coin, sample_spend]) =
    sample_hash (word_of_nat (unat t) + 15)"
  using assms
  by (simp add: sample_child_def Let_def block_compute_hash_def block_serialize_def mk_Block_def
      sample_sha_def u32_le_small u64_le_small size_le_def frame_def sample_txs_sum)

lemma rival_hashes [simp]:
  "b_hash paid_block = sample_hash 20" "b_hash rival_block = sample_hash 35" "b_hash rival_tip = sample_hash 67"
  using paid_hash [of 5] paid_hash [of 20] sample_child_hash [of rival_block 35 30 1]
  by (simp_all add: paid_block_def rival_block_def rival_tip_def)

lemma rival_sel [simp]:
  "b_prev_hash paid_block = sample_hash 1" "b_prev_hash rival_block = sample_hash 1" "b_prev_hash rival_tip = sample_hash 35"
  "b_timestamp rival_block = 20" "b_timestamp rival_tip = 30" "b_difficulty rival_block = 1" "b_difficulty rival_tip = 1"
  "b_difficulty paid_block = 1" "b_transactions paid_block = [sample_coin, sample_spend]"
  "b_transactions rival_block = [sample_coin, sample_spend]" "b_transactions rival_tip = []"
  by (simp_all add: paid_block_def rival_tip_def) (simp_all add: rival_block_def)

lemma paid_run: "run_all apply_transaction empty_ledger [sample_coin, sample_spend] = Some paid_ledger"
  by (simp add: paid_ledger_def sample_coin_applies apply_transaction_alt Let_def)

lemma paid_supply: "total_supply paid_ledger = 50"
proof -
  have s: "sums_safe [sample_coin, sample_spend]" by (simp add: sums_safe_def tx_sum_safe_def)
  then have "\<forall>tx\<in>set [sample_coin, sample_spend]. tx_sum_safe tx" by (simp add: sums_safe_def)
  from run_all_supply [OF ledger_inv_empty this [rule_format] _ paid_run] show ?thesis by simp
qed

lemma paid_accepted:
  "submit_block sample_platform 5 (sample_manager None) paid_block = (paid_manager,
     Inr (new_outcome\<lparr>bo_status := Accepted, bo_to_broadcast := [sample_hash 20]\<rparr>))"
proof -
  have "tip_rules sample_platform 5 (sample_manager None) paid_block"
    unfolding paid_block_def
    by (rule sample_child_rules) (auto simp: validate_coinbase_amount_def mining_reward_def less_Suc_eq nth_Cons')
  moreover have "apply_block_to_ledger sample_openssl empty_ledger paid_block = (paid_ledger, Inr True)"
    using paid_run by (simp add: apply_block_True_iff)
  ultimately show ?thesis
    unfolding paid_manager_def using submit_block_accepts [of sample_platform 5 "sample_manager None" paid_block paid_ledger] by simp
qed

lemma paid_manager_sel [simp]:
  "cm_blockchain paid_manager = paid_bc" "cm_ledger paid_manager = paid_ledger" "cm_storage paid_manager = None"
  "cm_params paid_manager = sample_params"
  by (simp_all add: paid_manager_def paid_bc_def)

lemma paid_blocks [simp]: "bc_blocks paid_bc = [genesis_block sample_openssl, paid_block\<lparr>b_cumulative_work := 2\<rparr>]"
  by (simp add: paid_bc_def add_block_blocks new_Blockchain_def latest_def block_work_def word_le_nat_alt)

lemma paid_index: "map_of (bc_index paid_bc) h =
    (if h = sample_hash 20 then Some 1 else if h = sample_hash 1 then Some 0 else None)"
  by (simp add: paid_bc_def add_block_def new_Blockchain_def Let_def update_conv' bc_size_def)

lemma paid_find [simp]:
  "find_height paid_bc (sample_hash 1) = Some 0" "find_height paid_bc (sample_hash 35) = None"
  by (simp_all add: find_height_alt paid_index)

abbreviation rival_fork :: "Block \<Rightarrow> Block \<Rightarrow> ForkChain" where
  "rival_fork b b' \<equiv> \<lparr>fc_blocks = [b, b'], fc_common_ancestor = genesis_block sample_openssl\<rparr>"

lemma rival_reorganizes:
  assumes "b_prev_hash b = sample_hash 1" and "b_difficulty b = 1" and "b_difficulty b' = 1"
  obtains bc where "reorganize_to paid_bc (rival_fork b b') = (bc, Some [paid_block\<lparr>b_cumulative_work := 2\<rparr>])"
    "bc_size bc = 3" "branch_txs (bc_blocks bc) = b_transactions b @ b_transactions b'"
    "is_fork_heavier paid_bc (rival_fork b b')"
proof -
  have g: "b_transactions (genesis_block sample_openssl) = []" by (simp add: genesis_block_def mk_Block_def Let_def)
  have "is_fork_heavier paid_bc (rival_fork b b')"
    using assms by (simp add: is_fork_heavier_def fork_work_def latest_def block_work_def word_le_nat_alt)
  then show ?thesis
    using that by (simp add: reorganize_to_def Let_def add_block_def bc_size_def g)
qed

lemma sample_tx_hashes [simp]:
  "tx_hash sample_openssl sample_coin = sample_hash 191" "tx_hash sample_openssl sample_spend = sample_hash 183"
  by (simp_all add: tx_hash_def sample_sha_def sample_txs_sum)

lemma sample_payment_hashes [simp]: "payment_hashes sample_openssl [sample_coin, sample_spend] = {sample_hash 183}"
  by (simp add: payment_hashes_def)

lemma paid_balance: "get_balance paid_ledger (derive_address sample_openssl [1]) = Some 0"
  by (simp add: paid_ledger_def sample_coin_applies apply_transaction_alt Let_def)

lemma rival_adopted:
  obtains m' where "adopt_branch sample_platform 40 paid_manager [rival_block, rival_tip] = (m', Inr True)"
    "branch_txs (bc_blocks (cm_blockchain m')) = [sample_coin, sample_spend]"
    "cm_ledger m' = fst (apply_transaction paid_ledger sample_coin)"
proof -
  let ?fork = "rival_fork rival_block rival_tip" and ?txs = "[sample_coin, sample_spend]"
  obtain bc where bc: "reorganize_to paid_bc ?fork = (bc, Some [paid_block\<lparr>b_cumulative_work := 2\<rparr>])"
    "branch_txs (bc_blocks bc) = ?txs" "is_fork_heavier paid_bc ?fork"
    by (rule rival_reorganizes [of rival_block rival_tip]) simp_all
  have undo: "undo_discarded sample_openssl {sample_hash 183} paid_ledger mp [sample_spend, sample_coin] = (paid_ledger, mp, Inr ())"
    for mp using paid_balance by (simp add: reverse_transaction_alt balance_get)
  have "branch_signed sample_openssl ?txs = Inr True" by simp
  then have "\<exists>m'. try_reorg sample_platform paid_manager ?fork = (m', Inr (Some [sample_hash 35, sample_hash 67])) \<and>
      cm_blockchain m' = bc \<and> cm_ledger m' = fst (apply_transaction paid_ledger sample_coin)"
    using bc(1,3) undo by (simp add: try_reorg_def Let_def)
  moreover have "valid_prefix_length fp_exact sample_params paid_bc ?fork 40 = Inr 2"
    by (rule two_block_prefix) simp_all
  moreover have "keep_prefix 2 ?fork = ?fork" by (simp add: keep_prefix_def)
  ultimately have "\<exists>m'. adopt_branch sample_platform 40 paid_manager [rival_block, rival_tip] = (m', Inr True) \<and>
      cm_blockchain m' = bc \<and> cm_ledger m' = fst (apply_transaction paid_ledger sample_coin)"
    by (auto simp: adopt_branch_def bc_has_block_def paid_index bc_at_def vec_at_def Let_def)
  then show ?thesis using that bc(2) by blast
qed

section \<open>Properties\<close>

text \<open>C4: The ledger follows the chain. If it is, up to entries of zero, what replaying the chain from an empty
  ledger gives, then it still is after a submitted block that did not reorganize the chain, accepted or not, after
  a restored block, and after a reorganization to a branch that can be replayed and shares no payment with
  the branch given up. No sum wraps around, and every payment of a submitted or restored block moves coins.\<close>

theorem ledger_follows_chain:
  assumes "cm_inv P S m" and "ledger_follows m"
    and "\<forall>tx\<in>set (b_transactions block). tx_sum_safe tx \<and> moves_coins tx"
    and "total_supply (cm_ledger m) + minted (b_transactions block) < 2 ^ 64"
  shows "(submit_block P now m block = (m', Inr out) \<and> bo_status out \<noteq> Reorged \<longrightarrow> ledger_follows m') \<and>
    (restore_block P m block = (m', Inr ok) \<longrightarrow> ledger_follows m') \<and>
    (fork_of (pf_crypto P) S (cm_blockchain m) fork \<and> try_reorg P m fork = (m', Inr (Some hs)) \<and>
      replayed (cm_blockchain m') \<noteq> None \<and> sums_safe (branch_txs (bc_blocks (cm_blockchain m))) \<and>
      unshared (pf_crypto P) (branch_txs (fc_blocks fork))
        (branch_txs (drop (bc_size (cm_blockchain m') - length hs) (bc_blocks (cm_blockchain m)))) \<longrightarrow>
      ledger_follows m')"
proof -
  have inv: "ledger_inv (cm_ledger m)" "chain_inv (pf_crypto P) S (cm_blockchain m)" using assms(1) by (simp_all add: cm_inv_def)
  show ?thesis
    using submit_follows [OF assms(2) inv(1) assms(3,4)] restore_follows [OF assms(2) inv(1) assms(3,4)]
      reorg_follows [OF inv(2) _ _ assms(2)] by blast
qed

lemma paid_replayed: "replayed paid_bc = Some paid_ledger"
  using paid_run by (simp add: replayed_def genesis_block_def mk_Block_def Let_def)

text \<open>A rival branch that pays the miner but has no payment.\<close>

definition lone_block :: Block where
  "lone_block = sample_child (genesis_block sample_openssl) 20 1 [sample_coin]"

definition lone_tip :: Block where
  "lone_tip = sample_child lone_block 30 1 []"

definition lone_universe :: "Block set" where
  "lone_universe = {genesis_block sample_openssl, paid_block, lone_block, lone_tip}"

lemma lone_sel [simp]:
  "b_prev_hash lone_block = sample_hash 1" "b_difficulty lone_block = 1" "b_difficulty lone_tip = 1"
  "b_transactions lone_block = [sample_coin]" "b_transactions lone_tip = []" "b_prev_hash lone_tip = b_hash lone_block"
  by (simp_all add: lone_block_def) (simp_all add: lone_tip_def lone_block_def)

lemma lone_hashes [simp]: "b_hash lone_block = sample_hash 6" "b_hash lone_tip = sample_hash 38"
proof -
  show h: "b_hash lone_block = sample_hash 6"
    by (simp add: lone_block_def sample_child_def Let_def block_compute_hash_def block_serialize_def mk_Block_def
        sample_sha_def u32_le_small u64_le_small size_le_def frame_def sample_txs_sum)
  show "b_hash lone_tip = sample_hash 38" using sample_child_hash [OF h, of 30 1] by (simp add: lone_tip_def)
qed

lemma lone_sound:
  assumes "b \<in> lone_universe"
  shows "sound_block sample_openssl (block_serialize ` lone_universe) b"
proof -
  have computed: "b_hash b = block_compute_hash sample_openssl b" if "b \<in> lone_universe" for b
  proof -
    have "b_hash paid_block = block_compute_hash sample_openssl paid_block"
      "b_hash lone_block = block_compute_hash sample_openssl lone_block"
      "b_hash lone_tip = block_compute_hash sample_openssl lone_tip"
      unfolding paid_block_def lone_tip_def lone_block_def by (rule sample_child_hash_eq)+
    moreover have "b_hash (genesis_block sample_openssl) = block_compute_hash sample_openssl (genesis_block sample_openssl)"
      using sample_sound(1) by (simp add: sound_block_def)
    ultimately show ?thesis using that unfolding lone_universe_def insert_iff empty_iff by (elim disjE FalseE) (simp_all only:)
  qed
  have "collision_free sample_openssl (block_serialize ` lone_universe)"
    by (intro collision_free_blocks ballI computed) (auto simp: lone_universe_def inj_on_def zero_hash_sample)
  moreover have "length (b_prev_hash b) = 32" using assms by (auto simp: lone_universe_def zero_hash_def)
  ultimately show ?thesis using computed [OF assms] assms by (simp add: sound_block_def)
qed

lemma lone_reorg:
  obtains m' where "try_reorg sample_platform paid_manager (rival_fork lone_block lone_tip) =
      (m', Inr (Some [sample_hash 6, sample_hash 38]))" "bc_size (cm_blockchain m') = 3"
    "branch_txs (bc_blocks (cm_blockchain m')) = [sample_coin]"
proof -
  let ?fork = "rival_fork lone_block lone_tip"
  obtain bc where bc: "reorganize_to paid_bc ?fork = (bc, Some [paid_block\<lparr>b_cumulative_work := 2\<rparr>])"
    "bc_size bc = 3" "branch_txs (bc_blocks bc) = [sample_coin]" "is_fork_heavier paid_bc ?fork"
    by (rule rival_reorganizes [of lone_block lone_tip]) simp_all
  have "payment_hashes sample_openssl [sample_coin] = {}" by (simp add: payment_hashes_def)
  moreover have "\<exists>L mp. undo_discarded sample_openssl {} paid_ledger (cm_mempool paid_manager) [sample_spend, sample_coin] =
      (L, mp, Inr ())"
    by (simp add: paid_manager_def add_transaction_def mk_Mempool_def Let_def)
  ultimately have "\<exists>m'. try_reorg sample_platform paid_manager ?fork = (m', Inr (Some [sample_hash 6, sample_hash 38])) \<and>
      cm_blockchain m' = bc"
    using bc(1,4) by (auto simp: try_reorg_def Let_def)
  then show ?thesis using that bc(2,3) by blast
qed

lemma lone_inv:
  "cm_inv sample_platform (block_serialize ` lone_universe) paid_manager"
  "fork_of sample_openssl (block_serialize ` lone_universe) paid_bc (rival_fork lone_block lone_tip)"
proof -
  have s: "sound_block sample_openssl (block_serialize ` lone_universe) b" if "b \<in> lone_universe" for b
    using that by (rule lone_sound)
  have mem: "genesis_block sample_openssl \<in> lone_universe" "paid_block \<in> lone_universe"
    "lone_block \<in> lone_universe" "lone_tip \<in> lone_universe" by (simp_all add: lone_universe_def)
  have "collision_free sample_openssl (block_serialize ` lone_universe)" using s [OF mem(1)] by (simp add: sound_block_def)
  then have "chain_inv sample_openssl (block_serialize ` lone_universe) (new_Blockchain sample_openssl)"
    using mem by (intro new_chain_inv) simp_all
  then have "cm_inv sample_platform (block_serialize ` lone_universe) (sample_manager None)"
    using pool_sound_new by (simp add: cm_inv_def)
  from submit_block_inv [OF this _ _ _ paid_accepted] mem(2)
  show "cm_inv sample_platform (block_serialize ` lone_universe) paid_manager" by simp
  show "fork_of sample_openssl (block_serialize ` lone_universe) paid_bc (rival_fork lone_block lone_tip)"
    using s mem by (simp add: fork_of_def)
qed

theorem ledger_follows_chain_witness:
  "ledger_follows paid_manager \<and>
   (\<exists>m'. try_reorg sample_platform paid_manager (rival_fork lone_block lone_tip) =
       (m', Inr (Some [sample_hash 6, sample_hash 38])) \<and> ledger_follows m')"
proof -
  let ?fork = "rival_fork lone_block lone_tip"
  have coins: "\<forall>tx\<in>set (b_transactions paid_block). tx_sum_safe tx \<and> moves_coins tx"
    "total_supply (cm_ledger (sample_manager None)) + minted (b_transactions paid_block) < 2 ^ 64"
    "total_supply (cm_ledger paid_manager) + minted (b_transactions paid_block) < 2 ^ 64"
    by (simp_all add: tx_sum_safe_def moves_coins_def paid_supply)
  have "ledger_follows (sample_manager None)"
    by (simp add: ledger_follows_def replayed_def genesis_block_def mk_Block_def Let_def ledger_rev.ext_refl)
  from ledger_follows_chain [OF sample_manager_inv [of None] this coins(1,2), THEN conjunct1, THEN mp, OF conjI, OF paid_accepted]
  have paid: "ledger_follows paid_manager" by simp
  obtain m' where m': "try_reorg sample_platform paid_manager ?fork = (m', Inr (Some [sample_hash 6, sample_hash 38]))"
    "bc_size (cm_blockchain m') = 3" "branch_txs (bc_blocks (cm_blockchain m')) = [sample_coin]"
    by (rule lone_reorg)
  have "replayed (cm_blockchain m') \<noteq> None" using m'(3) by (simp add: replayed_def sample_coin_applies)
  moreover have "sums_safe (branch_txs (bc_blocks paid_bc))"
    by (simp add: sums_safe_def tx_sum_safe_def genesis_block_def mk_Block_def Let_def)
  moreover have "unshared sample_openssl [sample_coin] [sample_coin, sample_spend]"
    by (simp add: unshared_def payment_hashes_def)
  ultimately have "ledger_follows m'"
    using ledger_follows_chain [OF lone_inv(1) paid coins(1,3), THEN conjunct2, THEN conjunct2, THEN mp, OF conjI,
        of ?fork m' "[sample_hash 6, sample_hash 38]"] lone_inv(2) m'(1,2) by (simp add: numeral_2_eq_2)
  with paid m'(1) show ?thesis by blast
qed

text \<open>C26: A reorganization creates coins when the branches share a payment. A miner is paid fifty coins by a block
  and spends them in it; the node then adopts a heavier branch whose first block pays the miner the same reward
  and contains the same payment. The code leaves the shared payment alone, cannot take back the reward that
  has been spent, ignores that, and pays the new reward on top. The ledger holds a hundred coins; replaying the new
  chain, as every other node and the next start do, gives fifty.\<close>

theorem shared_payment_mints:
  "\<exists>m out m' L. submit_block sample_platform 5 (sample_manager None) paid_block = (m, Inr out) \<and> bo_status out = Accepted \<and>
     adopt_branch sample_platform 40 m [rival_block, rival_tip] = (m', Inr True) \<and>
     replayed (cm_blockchain m') = Some L \<and> total_supply L = 50 \<and> total_supply (cm_ledger m') = 100"
proof -
  obtain m' where m': "adopt_branch sample_platform 40 paid_manager [rival_block, rival_tip] = (m', Inr True)"
    "branch_txs (bc_blocks (cm_blockchain m')) = [sample_coin, sample_spend]"
    "cm_ledger m' = fst (apply_transaction paid_ledger sample_coin)"
    by (rule rival_adopted)
  have r: "replayed (cm_blockchain m') = Some paid_ledger" using m'(2) paid_run by (simp add: replayed_def)
  have inv: "ledger_inv paid_ledger" by (simp add: paid_ledger_def apply_transaction_inv)
  obtain L1 ok where a: "apply_transaction paid_ledger sample_coin = (L1, ok)" by fastforce
  have "total_supply L1 = 100" using apply_coinbase_supply [OF inv _ _ a] paid_supply by simp
  then show ?thesis using paid_accepted m'(1,3) r paid_supply a by auto
qed

text \<open>A payment of nothing, by an account that has an entry in some ledgers only.\<close>

definition zero_block :: Block where
  "zero_block = sample_child (genesis_block sample_openssl) 6 1 [sample_tx 1 3 0 0 0]"

text \<open>C27: A refused block can make a node disagree with the others later. The rollback of a refused block leaves
  accounts with a balance of zero behind, and an account that has an entry may send a payment of nothing. A
  node that was offered a bad block accepts a block with such a payment, which a node that never saw the bad block refuses.\<close>

theorem refused_block_splits_nodes:
  "\<exists>m m' out. submit_block sample_platform 5 (sample_manager None) sample_overspend = (m, Inr new_outcome) \<and>
     submit_block sample_platform 6 m zero_block = (m', Inr out) \<and> bo_status out = Accepted \<and>
     submit_block sample_platform 6 (sample_manager None) zero_block = (sample_manager None, Inr new_outcome)"
proof -
  let ?a = "derive_address sample_openssl [1]" and ?m = "sample_manager None"
  let ?L = "set_balance (set_balance empty_ledger ?a 50) ?a 0"
  have x: "tx_sender (sample_tx 1 t a f n) \<noteq> kCoinbaseSender" for t a f n by (simp add: derive_address_not_coinbase)
  have "apply_transaction (set_balance empty_ledger ?a 50) (sample_tx 1 2 100 1 0) = (set_balance empty_ledger ?a 50, False)"
    using x by (simp add: apply_transaction_alt Let_def)
  moreover have "reverse_transaction (set_balance empty_ledger ?a 50) sample_coin = (?L, True)"
    by (simp add: reverse_transaction_alt)
  ultimately have over: "apply_block_to_ledger sample_openssl empty_ledger sample_overspend = (?L, Inr False)"
    by (simp add: apply_block_to_ledger_def sample_overspend_def sample_coin_applies)
  have "tip_rules sample_platform 5 ?m sample_overspend"
    unfolding sample_overspend_def using x
    by (intro sample_child_rules) (auto simp: validate_coinbase_amount_def mining_reward_def less_Suc_eq nth_Cons')
  with over have s1: "submit_block sample_platform 5 ?m sample_overspend = (?m\<lparr>cm_ledger := ?L\<rparr>, Inr new_outcome)"
    by (simp add: submit_block_def tip_rules_def Let_def)
  have rules: "tip_rules sample_platform 6 ?m zero_block"
    unfolding zero_block_def using x by (intro sample_child_rules) (auto simp: validate_coinbase_amount_def)
  obtain L where "apply_block_to_ledger sample_openssl ?L zero_block = (L, Inr True)"
    using x by (simp add: apply_block_to_ledger_def zero_block_def apply_transaction_alt Let_def)
  with rules have s2: "\<exists>m' out. submit_block sample_platform 6 (?m\<lparr>cm_ledger := ?L\<rparr>) zero_block = (m', Inr out) \<and> bo_status out = Accepted"
    by (simp add: submit_block_def tip_rules_def Let_def)
  have "apply_block_to_ledger sample_openssl empty_ledger zero_block = (empty_ledger, Inr False)"
    using x by (simp add: apply_block_to_ledger_def zero_block_def apply_transaction_alt Let_def)
  with rules have "submit_block sample_platform 6 ?m zero_block = (?m, Inr new_outcome)"
    by (simp add: submit_block_def tip_rules_def Let_def sample_manager_def)
  with s1 s2 show ?thesis by blast
qed

end
