(* ===== verification/FC_Starvation.thy ===== *)
theory FC_Starvation
  imports FC_AppProps FC_LedgerChain
begin

text \<open>
  The miner (src/src/app/Orchestrator.cpp, \<open>mining_loop\<close>) against the mempool (src/src/core/Mempool.cpp): a template looks
  at the best-paying pending transactions only, and a transaction that cannot apply is never removed.
\<close>

section \<open>Pending payments that cannot apply\<close>

text \<open>A payment from an account the ledger does not know. The mempool takes it, since it only checks the signature.\<close>

definition unfunded :: "Ledger \<Rightarrow> Transaction \<Rightarrow> bool" where
  "unfunded L tx \<longleftrightarrow> tx_sender tx \<noteq> kCoinbaseSender \<and> get_balance L (tx_sender tx) = None"

text \<open>The transactions a template looks at cannot apply, and will not once the miner is paid.\<close>

definition clogged :: "openssl \<Rightarrow> str \<Rightarrow> nat \<Rightarrow> 'db ChainManager \<Rightarrow> bool" where
  "clogged C reward_address limit m \<longleftrightarrow>
     (\<forall>tx\<in>set (take limit (mp_pending (cm_mempool m))). unfunded (cm_ledger m) tx \<and> tx_sender tx \<noteq> reward_address) \<and>
     (\<forall>tx\<in>set (mp_pending (cm_mempool m)). tx_hash C tx \<noteq> tx_hash C (mk_Transaction kCoinbaseSender reward_address mining_reward [] 0 0))"

lemma unfunded_select: "\<forall>tx\<in>set txs. unfunded L tx \<Longrightarrow> select_loop L acc txs = acc"
  by (induction txs) (simp_all add: unfunded_def apply_transaction_alt Let_def)

lemma clogged_select: "clogged C r limit m \<Longrightarrow> select_transactions m limit = []"
proof -
  assume c: "clogged C r limit m"
  have "get_transactions_for_block (cm_mempool m) limit = take limit (mp_pending (cm_mempool m))"
    by (simp add: get_transactions_for_block_def mp_size_def min_def)
  then show ?thesis using c unfunded_select by (simp add: select_transactions_def clogged_def)
qed

lemma erase_first_none: "\<forall>x\<in>set xs. \<not> Q x \<Longrightarrow> erase_first Q xs = xs"
  by (induction xs) simp_all

section \<open>Rounds of mining\<close>

text \<open>A round: the miner takes a template, finds a block, and the chain accepts it.\<close>

inductive mined :: "'db platform \<Rightarrow> str \<Rightarrow> nat \<Rightarrow> 'db ChainManager \<Rightarrow> 'db ChainManager \<Rightarrow> bool" for P reward_address limit where
  round: "block_template P now m limit = Inr tmpl \<Longrightarrow>
    mine_template (pf_crypto P) reward_address tmpl should_stop = Some b \<Longrightarrow>
    submit_block P now' m b = (m', Inr out) \<Longrightarrow> bo_status out = Accepted \<Longrightarrow> mined P reward_address limit m m'"

lemma mined_clogged:
  assumes "mined P r limit m m'" and "clogged (pf_crypto P) r limit m"
  shows "mp_pending (cm_mempool m') = mp_pending (cm_mempool m) \<and> clogged (pf_crypto P) r limit m' \<and>
    (\<forall>tx\<in>set (b_transactions (latest (cm_blockchain m'))). tx_sender tx = kCoinbaseSender)"
  using assms(1)
proof cases
  case (round now tmpl should_stop b now' out)
  let ?cb = "mk_Transaction kCoinbaseSender r mining_reward [] 0 0"
  have "tm_transactions tmpl = []"
    using round(1) clogged_select [OF assms(2)] by (auto simp: block_template_def Let_def bindE_eq_Inr)
  then have txs: "b_transactions b = (if r \<noteq> [] then [?cb] else [])"
    using mine_cancel_sound [OF round(2) [unfolded mine_template_def mine_block_cancel_def]]
    by (auto simp: sealed_def mining_txs_def)
  note acc = submit_block_accepted [OF round(3,4)]
  have L: "run_all apply_transaction (cm_ledger m) (b_transactions b) = Some (cm_ledger m')"
    using acc(2) by (simp add: apply_block_True_iff)
  have cb: "tx_sender ?cb = kCoinbaseSender" "tx_recipient ?cb = r" by (simp_all add: mk_Transaction_def)
  have pend: "mp_pending (cm_mempool m') = mp_pending (cm_mempool m)"
    using assms(2) unfolding acc(5) txs by (auto simp: remove_transaction_def clogged_def intro!: erase_first_none)
  have "get_balance L a = get_balance (cm_ledger m) a"
    if "a \<noteq> r" and "run_all apply_transaction (cm_ledger m) (b_transactions b) = Some L" for a L
    using that cb by (auto simp: txs apply_transaction_alt Let_def split: if_splits)
  then have "clogged (pf_crypto P) r limit m'" using assms(2) L by (simp add: clogged_def unfunded_def pend)
  moreover have "b_transactions (latest (cm_blockchain m')) = b_transactions b" unfolding acc(3) by (simp add: latest_def add_block_def Let_def)
  ultimately show ?thesis using pend txs cb by (auto split: if_splits)
qed

section \<open>Property\<close>

text \<open>C29: Payments from nowhere starve the others. When the pending transactions a template looks at, the best paying ones
  up to its limit, are from accounts the ledger does not know, every block the miner finds has no payment, and the
  mempool stays as it is, after any number of blocks: a payment behind them is never confirmed, however well it is
  funded. Such transactions cost their sender nothing. No pending transaction has the hash of the miner's coinbase.\<close>

theorem unfunded_payments_starve:
  assumes "(mined P reward_address limit ^^ k) m m'" and "clogged (pf_crypto P) reward_address limit m"
  shows "mp_pending (cm_mempool m') = mp_pending (cm_mempool m) \<and> select_transactions m' limit = [] \<and>
    (0 < k \<longrightarrow> (\<forall>tx\<in>set (b_transactions (latest (cm_blockchain m'))). tx_sender tx = kCoinbaseSender))"
proof -
  have "mp_pending (cm_mempool m') = mp_pending (cm_mempool m) \<and> clogged (pf_crypto P) reward_address limit m' \<and>
      (0 < k \<longrightarrow> (\<forall>tx\<in>set (b_transactions (latest (cm_blockchain m'))). tx_sender tx = kCoinbaseSender))"
    using assms(1)
  proof (induction k arbitrary: m')
    case (Suc k)
    then obtain m1 where "(mined P reward_address limit ^^ k) m m1" "mined P reward_address limit m1 m'" by auto
    with Suc.IH mined_clogged [of P reward_address limit m1 m'] show ?case by simp
  qed (use assms(2) in simp)
  then show ?thesis using clogged_select by blast
qed

definition clogged_manager :: "mem_db ChainManager" where
  "clogged_manager = (sample_manager None)\<lparr>cm_mempool := (mk_Mempool 10)\<lparr>mp_pending := [sample_spend]\<rparr>\<rparr>"

lemma clogged_manager_sel [simp]:
  "cm_blockchain clogged_manager = new_Blockchain sample_openssl" "cm_ledger clogged_manager = empty_ledger"
  "cm_storage clogged_manager = None" "cm_params clogged_manager = sample_params"
  "mp_pending (cm_mempool clogged_manager) = [sample_spend]"
  by (simp_all add: clogged_manager_def)

lemma clogged_manager_inv: "cm_inv sample_platform sample_universe clogged_manager"
  using sample_manager_inv [of None]
  by (simp add: cm_inv_def clogged_manager_def mempool_inv_def mk_Mempool_def)

lemma clogged_sample: "clogged sample_openssl ''miner'' kMaxTxsPerBlock clogged_manager"
proof -
  have "sum_list (serialize_for_signing (mk_Transaction kCoinbaseSender ''miner'' mining_reward [] 0 0)) \<noteq> 183" by code_simp
  then have "tx_hash sample_openssl (mk_Transaction kCoinbaseSender ''miner'' mining_reward [] 0 0) \<noteq> sample_hash 183"
    by (simp add: tx_hash_def sample_sha_def)
  moreover have "length (derive_address sample_openssl [1]) = 64" by (simp add: derive_address_def sample_sha_def)
  then have "derive_address sample_openssl [1] \<noteq> ''miner''" by auto
  ultimately show ?thesis by (auto simp: clogged_def unfunded_def take_Cons split: nat.splits)
qed

theorem unfunded_payments_starve_witness:
  "\<exists>m'. mined sample_platform ''miner'' kMaxTxsPerBlock clogged_manager m' \<and> mempool_snapshot m' = [sample_spend]"
proof -
  let ?m = clogged_manager
  define tmpl where "tmpl = \<lparr>tm_prev_hash = b_hash (genesis_block sample_openssl), tm_height = 1, tm_timestamp = (5::u64),
    tm_difficulty = (1::u32), tm_tip_version = 0, tm_transactions = []\<rparr>"
  have t: "block_template sample_platform 5 ?m kMaxTxsPerBlock = Inr tmpl"
    using sample_median clogged_select [OF clogged_sample]
    by (simp add: block_template_def tmpl_def next_difficulty_def sample_params_def kTestParams_def Let_def max_def word_le_nat_alt)
      (simp add: clogged_manager_def sample_manager_def)
  have "meets_target (block_compute_hash sample_openssl b) 1" for b
    unfolding block_compute_hash_def sample_double_sha sample_sha_def by (rule sample_hash_target) simp
  then have "mine_template sample_openssl ''miner'' tmpl (\<lambda>_. False) \<noteq> None"
    unfolding mine_template_def mine_block_cancel_def
    by (subst mine_cancel_unfold) (simp add: cancelled_def tmpl_def)
  then obtain b where b: "mine_template sample_openssl ''miner'' tmpl (\<lambda>_. False) = Some b" by auto
  have "minted (mining_txs ''miner'' tmpl) = 50"
    by (simp add: mining_txs_def tmpl_def minted_def mk_Transaction_def mining_reward_def)
  then obtain m' out where s: "submit_block sample_platform 6 ?m b = (m', Inr out)" "bo_status out = Accepted"
    using template_accepted [OF clogged_manager_inv, of b 5 tmpl "''miner''" "\<lambda>_. False" 6] t b sample_median
    by (auto simp: takes_row_def tmpl_def chain_height_def sample_params_def kTestParams_def)
  then have r: "mined sample_platform ''miner'' kMaxTxsPerBlock ?m m'" using t b by (intro mined.round) simp_all
  then have "(mined sample_platform ''miner'' kMaxTxsPerBlock ^^ 1) ?m m'" by (simp add: eq_OO)
  from unfunded_payments_starve [OF this] clogged_sample have "mp_pending (cm_mempool m') = [sample_spend]" by simp
  with r show ?thesis by (auto simp: mempool_snapshot_def get_transactions_for_block_def mp_size_def)
qed

end
