(* ===== verification/FC_Authentic.thy ===== *)
theory FC_Authentic
  imports FC_LedgerChain FC_NodeInv
begin

text \<open>
  Who authorized the payments of a chain: every payment in the chain of src/src/chain/ChainManager.cpp is signed with
  the key of its sender, however the chain came about, which completes what holds in every reachable state; and the
  payments of one sender in a chain that can be replayed carry the numbers 0, 1, 2 and so on. The check behind the first ends the process when a peer sends a key that is no
  curve point.
\<close>

section \<open>Signed payments\<close>

definition signed_txs :: "openssl \<Rightarrow> Transaction list \<Rightarrow> bool" where
  "signed_txs C txs \<longleftrightarrow> (\<forall>tx\<in>set txs. tx_sender tx = kCoinbaseSender \<or> has_valid_signature C tx = Inr True)"

definition payments_signed :: "openssl \<Rightarrow> Blockchain \<Rightarrow> bool" where
  "payments_signed C bc \<longleftrightarrow> (\<forall>b\<in>set (bc_blocks bc). signed_txs C (b_transactions b))"

lemma branch_signed_txs: "branch_signed C txs = Inr True \<Longrightarrow> signed_txs C txs"
proof (induction txs)
  case (Cons tx txs)
  then show ?case
    by (cases "has_valid_signature C tx") (auto simp: signed_txs_def bindE_def split: if_splits)
qed (simp add: signed_txs_def)

lemma add_block_signed:
  "payments_signed C bc \<Longrightarrow> signed_txs C (b_transactions b) \<Longrightarrow> payments_signed C (add_block bc b)"
  by (auto simp: payments_signed_def add_block_def Let_def)

lemma add_blocks_signed:
  "payments_signed C bc \<Longrightarrow> signed_txs C (branch_txs bs) \<Longrightarrow> payments_signed C (foldl add_block bc bs)"
proof (induction bs arbitrary: bc)
  case (Cons b bs)
  from Cons.prems have "payments_signed C (add_block bc b)" by (intro add_block_signed) (simp_all add: signed_txs_def)
  moreover have "signed_txs C (branch_txs bs)" using Cons.prems(2) by (auto simp: signed_txs_def)
  ultimately show ?case using Cons.IH by simp
qed simp

lemma reorganize_signed:
  assumes "payments_signed C bc" and "signed_txs C (branch_txs (fc_blocks fork))" and "reorganize_to bc fork = (bc', d)"
  shows "payments_signed C bc'"
proof (cases "find_height bc (b_hash (fc_common_ancestor fork))")
  case None
  then show ?thesis using assms by (simp add: reorganize_to_def)
next
  case (Some h)
  let ?bc = "bc\<lparr>bc_index := foldl (\<lambda>m block. AList.delete (b_hash block) m) (bc_index bc) (drop (h + 1) (bc_blocks bc)),
    bc_blocks := take (h + 1) (bc_blocks bc)\<rparr>"
  have "payments_signed C ?bc" using assms(1) by (auto simp: payments_signed_def dest: in_set_takeD)
  from add_blocks_signed [OF this assms(2)] Some assms(3) show ?thesis by (simp add: reorganize_to_def Let_def)
qed

lemma try_reorg_signed:
  assumes "payments_signed (pf_crypto P) (cm_blockchain m)" and "try_reorg P m fork = (m', r)"
  shows "payments_signed (pf_crypto P) (cm_blockchain m')"
  using assms(2)
proof (cases rule: try_reorg_cases)
  case none
  then show ?thesis using assms(1) by simp
next
  case (switch bc discarded L mp u)
  then show ?thesis using reorganize_signed [OF assms(1) branch_signed_txs] by blast
qed

lemma handle_fork_signed:
  assumes "payments_signed (pf_crypto P) (cm_blockchain m)" and "handle_fork_candidate P now m block = (m', r)"
  shows "payments_signed (pf_crypto P) (cm_blockchain m')"
  using assms(2)
proof (cases rule: handle_fork_cases)
  case (tried pool best m1 r1)
  then have "payments_signed (pf_crypto P) (cm_blockchain m1)" using try_reorg_signed [of P "m\<lparr>cm_orphans := pool\<rparr>"] assms(1) by simp
  then show ?thesis using tried(4) by (auto split: sum.splits option.splits)
qed (use assms(1) in simp_all)

lemma applied_signed: "apply_block_to_ledger C L b = (L', Inr True) \<Longrightarrow> signed_txs C (b_transactions b)"
  using apply_txs_True by (fastforce simp: apply_block_to_ledger_def signed_txs_def)

lemma submit_block_signed:
  assumes "payments_signed (pf_crypto P) (cm_blockchain m)" and "submit_block P now m block = (m', r)"
  shows "payments_signed (pf_crypto P) (cm_blockchain m')"
  using assms(2)
proof (cases rule: submit_block_cases)
  case (extends L)
  then show ?thesis using add_block_signed [OF assms(1) applied_signed] by simp
next
  case (saves L db db' res)
  then show ?thesis using add_block_signed [OF assms(1) applied_signed] by simp
next
  case fork
  then show ?thesis using handle_fork_signed [OF assms(1)] by blast
qed (use assms(1) in simp_all)

lemma restore_block_signed:
  assumes "payments_signed (pf_crypto P) (cm_blockchain m)" and "restore_block P m block = (m', r)"
  shows "payments_signed (pf_crypto P) (cm_blockchain m')"
proof -
  obtain L ok where a: "apply_block_to_ledger (pf_crypto P) (cm_ledger m) block = (L, ok)" by fastforce
  show ?thesis
  proof (cases "ok = Inr True")
    case True
    with a assms(2) have "cm_blockchain m' = add_block (cm_blockchain m) block" by (auto simp: restore_block_def)
    then show ?thesis using a True add_block_signed [OF assms(1) applied_signed] by simp
  next
    case False
    then show ?thesis using a assms by (auto simp: restore_block_def split: sum.splits if_splits)
  qed
qed

lemma cm_step_signed:
  assumes "cm_step P S R m m'" and "payments_signed (pf_crypto P) (cm_blockchain m)"
  shows "payments_signed (pf_crypto P) (cm_blockchain m')"
  using assms(1)
proof cases
  case (submit_block now block r)
  then show ?thesis using submit_block_signed [OF assms(2)] by blast
next
  case (submit_transaction tx r)
  then show ?thesis using assms(2) by (auto simp: submit_transaction_def split: prod.splits)
next
  case (set_balance address amount)
  then show ?thesis using assms(2) by (simp add: cm_set_balance_def)
next
  case (restore_block block r)
  then show ?thesis using restore_block_signed [OF assms(2)] by blast
next
  case (adopt_branch now blocks r)
  from adopt_branch(1) show ?thesis
  proof (cases rule: adopt_branch_cases)
    case (tried start height ancestor n r1)
    then show ?thesis using try_reorg_signed [OF assms(2)] by blast
  qed (use assms(2) in simp)
qed

lemma cm_reach_signed:
  "cm_reach P S R m m' \<Longrightarrow> payments_signed (pf_crypto P) (cm_blockchain m) \<Longrightarrow> payments_signed (pf_crypto P) (cm_blockchain m')"
  by (induction rule: rtranclp_induct) (auto intro: cm_step_signed)

section \<open>Payment numbers\<close>

lemma run_all_nonces:
  assumes "run_all apply_transaction L txs = Some L'" and "a \<noteq> kCoinbaseSender"
  shows "map tx_nonce (filter (\<lambda>tx. tx_sender tx = a) txs) = map (\<lambda>i. next_nonce L a + word_of_nat i) [0..<sent_by a txs]"
  using assms(1)
proof (induction txs arbitrary: L)
  case (Cons tx txs)
  then obtain L1 where a: "apply_transaction L tx = (L1, True)" and r: "run_all apply_transaction L1 txs = Some L'"
    by (auto split: prod.splits if_splits)
  note IH = Cons.IH [OF r]
  show ?case
  proof (cases "tx_sender tx = a")
    case True
    have "tx_nonce tx = next_nonce L a"
      using a True assms(2) by (auto simp: apply_transaction_alt Let_def split: if_splits)
    moreover have "next_nonce L1 a = next_nonce L a + 1" using apply_next_nonce [OF a, of a] True assms(2) by simp
    moreover have "[0..<sent_by a (tx # txs)] = 0 # map Suc [0..<sent_by a txs]"
      using True by (simp add: sent_by_def upt_conv_Cons map_Suc_upt del: upt_Suc)
    ultimately show ?thesis using IH True by (simp add: algebra_simps)
  next
    case False
    then show ?thesis using IH apply_next_nonce [OF a, of a] by (simp add: sent_by_def)
  qed
qed (simp add: sent_by_def)

section \<open>Properties\<close>

lemma new_ChainManager_chain:
  "new_ChainManager P n params storage = Inr m \<Longrightarrow> cm_blockchain m = new_Blockchain (pf_crypto P)"
  by (auto simp: new_ChainManager_def Let_def split: option.splits prod.splits sum.splits if_splits)

lemma reach_payments_signed:
  assumes "new_ChainManager P n params storage = Inr m0" and "cm_reach P S R m0 m"
  shows "payments_signed (pf_crypto P) (cm_blockchain m)"
  using new_ChainManager_chain [OF assms(1)]
  by (intro cm_reach_signed [OF assms(2)])
    (simp add: payments_signed_def signed_txs_def new_Blockchain_def genesis_block_def mk_Block_def Let_def)

text \<open>C5: Authentic chains. Whatever sequence of submitted blocks and transactions, credits, restored blocks and adopted
  branches a freshly constructed manager goes through, and whichever blocks the store returns, every transaction in its
  chain is a coinbase or a payment from the address of the public key it carries, with a signature by that key over its
  contents.\<close>

theorem chain_authentic:
  assumes "new_ChainManager P n params storage = Inr m0" and "cm_reach P S any_block m0 m"
    and "b \<in> set (bc_blocks (cm_blockchain m))" and "tx \<in> set (b_transactions b)" and "tx_sender tx \<noteq> kCoinbaseSender"
  shows "derive_address (pf_crypto P) (tx_pubkey tx) = tx_sender tx \<and> ossl_oct2point (pf_crypto P) (tx_pubkey tx) \<and>
    ossl_verify (pf_crypto P) (tx_pubkey tx) (tx_signature tx) (serialize_for_signing tx)"
proof -
  from reach_payments_signed [OF assms(1,2)] assms(3-5) have "has_valid_signature (pf_crypto P) tx = Inr True"
    by (auto simp: payments_signed_def signed_txs_def)
  then show ?thesis by (auto simp: has_valid_signature_Inr_True dest: verify_Inr)
qed

theorem chain_authentic_witness:
  "derive_address sample_openssl (tx_pubkey sample_spend) = tx_sender sample_spend \<and>
   ossl_verify sample_openssl (tx_pubkey sample_spend) (tx_signature sample_spend) (serialize_for_signing sample_spend)"
proof -
  let ?U = "block_serialize ` {genesis_block sample_openssl, paid_block}"
  have "cm_reach sample_platform ?U any_block (sample_manager None) paid_manager"
    using cm_step.submit_block [OF paid_accepted, of ?U] by (auto simp: paid_block_def sample_child_def mk_Block_def Let_def)
  from chain_authentic [OF _ this, of 10 sample_params None "paid_block\<lparr>b_cumulative_work := 2\<rparr>" sample_spend]
  show ?thesis by (simp add: sample_new_manager)
qed

text \<open>C8: Whatever sequence of submitted blocks and transactions, credits, restored blocks and adopted
  branches a freshly constructed manager goes through, and however each of them ends, its chain passes
  the code's own validity check, starts at the genesis block, indexes every block under its height and has only
  correctly signed payments; the mempool is within its bound and holds only correctly signed transactions with
  distinct hashes; the orphan pool is within its bound. Blocks come from a set on which the hash does not collide.
  The blocks given to \<open>restore_block\<close> must be what a sound store returns: each carries its own hash and names the tip
  as its parent. The code does not check that, and without it the chain can become invalid
  (\<open>restore_block_unlinked\<close> in \<open>FC_ChainProps\<close>). Nothing of the kind is assumed of submitted blocks; adopted ones carry
  their own hash, as all blocks from the deserializer do.\<close>

theorem reachable_states_valid:
  assumes "collision_free (pf_crypto P) S" and "block_serialize (genesis_block (pf_crypto P)) \<in> S"
    and "iteration_ok (pf_iter P)" and "new_ChainManager P n params storage = Inr m0"
    and "cm_reach P S (next_block (pf_crypto P) S) m0 m"
  shows "bc_is_valid (pf_crypto P) (cm_blockchain m) \<and>
    hd (bc_blocks (cm_blockchain m)) = genesis_block (pf_crypto P) \<and>
    (\<forall>h i. find_height (cm_blockchain m) h = Some i \<longleftrightarrow>
       i < chain_height m \<and> b_hash (bc_blocks (cm_blockchain m) ! i) = h) \<and>
    (\<forall>b tx. b \<in> set (bc_blocks (cm_blockchain m)) \<and> tx \<in> set (b_transactions b) \<longrightarrow>
       tx_sender tx = kCoinbaseSender \<or> has_valid_signature (pf_crypto P) tx = Inr True) \<and>
    mp_size (cm_mempool m) \<le> mp_max_size (cm_mempool m) \<and>
    distinct (map (tx_hash (pf_crypto P)) (mempool_snapshot m)) \<and>
    (\<forall>tx. tx \<in> set (mempool_snapshot m) \<longrightarrow> has_valid_signature (pf_crypto P) tx = Inr True) \<and>
    orphan_count (cm_orphans m) \<le> 1000"
proof -
  have inv: "cm_inv P S m"
    using cm_reach_inv [OF assms(3,5)] new_ChainManager_inv [OF assms(1,2,4)] by simp
  then have c: "chain_inv (pf_crypto P) S (cm_blockchain m)" by (simp add: cm_inv_def)
  have "bc_is_valid (pf_crypto P) (cm_blockchain m)" using c by (rule chain_inv_valid)
  moreover have "hd (bc_blocks (cm_blockchain m)) = genesis_block (pf_crypto P)"
    using c by (auto simp: chain_inv_def)
  moreover have "\<forall>h i. find_height (cm_blockchain m) h = Some i \<longleftrightarrow>
       i < chain_height m \<and> b_hash (bc_blocks (cm_blockchain m) ! i) = h"
    using find_height_Some [OF c] by (simp add: chain_height_def bc_size_def)
  moreover have "orphan_count (cm_orphans m) \<le> 1000"
    using inv by (simp add: cm_inv_def pool_sound_def orphan_inv_def orphan_count_def kDefaultMaxOrphans_def)
  moreover have "\<forall>b tx. b \<in> set (bc_blocks (cm_blockchain m)) \<and> tx \<in> set (b_transactions b) \<longrightarrow>
       tx_sender tx = kCoinbaseSender \<or> has_valid_signature (pf_crypto P) tx = Inr True"
    using reach_payments_signed [OF assms(4,5)] unfolding payments_signed_def signed_txs_def by blast
  ultimately show ?thesis
    using inv unfolding mempool_snapshot_pending by (simp add: cm_inv_def mempool_inv_def mp_size_def)
qed

text \<open>A block is submitted and accepted, and a second one comes back from a store.\<close>

theorem reachable_states_valid_witness:
  "\<exists>m m'. submit_block sample_platform 20 (sample_manager None) sample_c = (m, Inr (accepted_outcome sample_c)) \<and>
     restore_block sample_platform m sample_d = (m', Inr True) \<and> bc_is_valid sample_openssl (cm_blockchain m') \<and>
     chain_height m' = 3"
proof -
  let ?S = "block_serialize ` branch_blocks"
  have L: "apply_block_to_ledger sample_openssl empty_ledger b = (empty_ledger, Inr True)" if "b_transactions b = []" for b
    using that by (simp add: apply_block_True_iff)
  have "tip_rules sample_platform 20 (sample_manager None) sample_c"
    unfolding sample_c_def by (rule sample_child_rules) (simp_all add: validate_coinbase_amount_def)
  then obtain m where m: "submit_block sample_platform 20 (sample_manager None) sample_c = (m, Inr (accepted_outcome sample_c))"
    "cm_blockchain m = add_block (new_Blockchain sample_openssl) sample_c" "cm_ledger m = empty_ledger"
    by (rule submit_block_takes [of _ _ _ _ empty_ledger]) (simp_all add: takes_row_def L)
  then obtain m' where m': "restore_block sample_platform m sample_d = (m', Inr True)"
    "cm_blockchain m' = add_block (cm_blockchain m) sample_d"
    by (simp add: restore_block_def L)
  let ?step = "cm_step sample_platform ?S (next_block sample_openssl ?S)"
  have "next_block sample_openssl ?S m sample_d"
    by (simp add: next_block_def m(2) latest_def add_block_def Let_def)
  then have "?step m m'" by (rule cm_step.restore_block [OF m'(1)])
  moreover have "?step (sample_manager None) m" by (rule cm_step.submit_block [OF m(1)]) simp_all
  ultimately have "rtranclp ?step (sample_manager None) m'" by auto
  moreover have "collision_free sample_openssl ?S" using branch_sound [OF branch_members(1)] by (simp add: sound_block_def)
  ultimately have "bc_is_valid sample_openssl (cm_blockchain m')"
    using reachable_states_valid [of sample_platform ?S 10 sample_params None "sample_manager None" m'] by (simp add: sample_new_manager)
  moreover have "chain_height m' = 3" by (simp add: chain_height_def m'(2) m(2) bc_size_def add_block_def Let_def)
  ultimately show ?thesis using m(1) m'(1) by blast
qed

text \<open>C20: Payment numbers. When the transactions of a chain apply one after the other to an empty ledger, the payments of
  each address carry the numbers 0, 1, 2 and so on in the order of the chain, and the ledger expects the next one:
  no payment is left out, and with fewer than 2 to the 64 payments of one sender no number occurs twice, so no
  payment is repeated.\<close>

theorem nonces_consecutive:
  assumes "replayed bc = Some L" and "a \<noteq> kCoinbaseSender"
  shows "map tx_nonce (filter (\<lambda>tx. tx_sender tx = a) (branch_txs (bc_blocks bc))) =
      map word_of_nat [0..<sent_by a (branch_txs (bc_blocks bc))] \<and>
    next_nonce L a = word_of_nat (sent_by a (branch_txs (bc_blocks bc))) \<and>
    (sent_by a (branch_txs (bc_blocks bc)) < 2 ^ 64 \<longrightarrow>
      distinct (map tx_nonce (filter (\<lambda>tx. tx_sender tx = a) (branch_txs (bc_blocks bc)))))"
proof -
  let ?txs = "branch_txs (bc_blocks bc)"
  have run: "run_all apply_transaction empty_ledger ?txs = Some L" using assms(1) by (simp add: replayed_def)
  have nonces: "map tx_nonce (filter (\<lambda>tx. tx_sender tx = a) ?txs) = map word_of_nat [0..<sent_by a ?txs]"
    using run_all_nonces [OF run assms(2)] by simp
  have "inj_on (word_of_nat :: nat \<Rightarrow> u64) {0..<sent_by a ?txs}" if "sent_by a ?txs < 2 ^ 64"
    using that by (intro inj_onI) (auto simp: word_of_nat_eq_iff take_bit_eq_mod)
  then have "distinct (map (word_of_nat :: nat \<Rightarrow> u64) [0..<sent_by a ?txs])" if "sent_by a ?txs < 2 ^ 64"
    using that by (simp add: distinct_map)
  then show ?thesis using nonces run_all_next_nonce [OF run assms(2)] by simp
qed

theorem nonces_consecutive_witness:
  "map tx_nonce (filter (\<lambda>tx. tx_sender tx = tx_sender sample_spend) (branch_txs (bc_blocks paid_bc))) = [0] \<and>
   next_nonce paid_ledger (tx_sender sample_spend) = 1"
proof -
  have s: "tx_sender sample_spend \<noteq> kCoinbaseSender" unfolding sample_spend_sel(1) by (rule derive_address_not_coinbase [OF sample_sha_len])
  have "sent_by (tx_sender sample_spend) (branch_txs (bc_blocks paid_bc)) = 1"
    by (simp add: sent_by_def genesis_block_def mk_Block_def Let_def derive_address_not_coinbase [THEN not_sym])
  with nonces_consecutive [OF paid_replayed s] show ?thesis by simp
qed

text \<open>C30: One message ends a node. For every public key that is no curve point, a peer can build a transaction from the
  address of that key. When a node receives it, the signature check throws, the handler does not catch it, and the
  exception leaves the peer thread, whatever the state of the node.\<close>

theorem malformed_key_ends_node:
  assumes "\<not> ossl_oct2point (pf_crypto (w_platform W)) key" and "length key < 2 ^ 32" and "length recipient < 2 ^ 32"
    and "sha_len (pf_crypto (w_platform W))" and "nd_running n" and "pr_alive (peer_of n p)"
    and "tx = mk_Transaction (derive_address (pf_crypto (w_platform W)) key) recipient amount key fee nonce"
    and "receive_message (w_os W) (nd_net n) (pr_socket (peer_of n p)) =
      Some (net, Some \<lparr>msg_type = TX, msg_payload = tx_serialize tx\<rparr>)"
  shows "\<exists>n' msg. peer_loop_turn W n p = Some (n', Inl (Runtime_error msg)) \<and> nd_chain n' = nd_chain n"
proof -
  let ?C = "pf_crypto (w_platform W)"
  have tx: "tx_sender tx = derive_address ?C key" "tx_pubkey tx = key" "tx_recipient tx = recipient" "tx_signature tx = []"
    using assms(7) by (simp_all add: mk_Transaction_def)
  have "wf_tx tx" using tx assms(2-4) by (simp add: wf_tx_def derive_address_def length_double_sha_256)
  then have de: "tx_deserialize (tx_serialize tx) = Some tx" by (rule tx_deserialize_serialize)
  have "tx_sender tx \<noteq> kCoinbaseSender" using tx(1) assms(4) by (simp add: derive_address_not_coinbase)
  then obtain msg where "has_valid_signature ?C tx = Inl (Runtime_error msg)"
    using verify_bad_point [of ?C key] assms(1) tx by (auto simp: has_valid_signature_def)
  then have "add_transaction ?C mp tx = (mp, Inl (Runtime_error msg))" for mp by (simp add: add_transaction_def)
  then show ?thesis using assms(5,6,8) de
    by (simp add: peer_loop_turn_def handle_message_def handle_tx_def submit_transaction_def Let_def)
qed

theorem malformed_key_ends_node_witness:
  "\<exists>n n' :: (mem_db, mem_net) Node. \<exists>msg. peer_loop_turn sample_world n 0 = Some (n', Inl (Runtime_error msg))"
proof -
  let ?tx = "mk_Transaction (derive_address sample_openssl []) ''x'' 1 [] 0 0"
  let ?msg = "\<lparr>msg_type = TX, msg_payload = tx_serialize ?tx\<rparr>"
  let ?in = "quiet_net\<lparr>mn_in := (\<lambda>_. [Some (message_header ?msg @ tx_serialize ?tx)])\<rparr>"
  let ?n = "(new_Node 0 ?in 8000 sample_version (sample_manager None))
    \<lparr>nd_running := True, nd_store := [new_Peer 0 3 sample_version ''10.0.0.2'']\<rparr>"
  have w: "pf_crypto (w_platform sample_world) = sample_openssl" "w_os sample_world = mem_os" by (simp_all add: sample_world_def)
  have "length (tx_serialize ?tx) < 1000"
    by (simp add: length_tx_serialize mk_Transaction_def derive_address_def sample_sha_def)
  then have "wf_message ?msg" by (simp add: wf_message_def named_type_def MAX_PAYLOAD_SIZE_def)
  then obtain net where r: "receive_message mem_os ?in 3 = Some (net, Some ?msg)"
    using receive_message_ok [OF mem_recv_laws, of ?msg ?in 3 "[]"] by (auto simp: mem_net_view_def)
  have "\<exists>n' msg. peer_loop_turn sample_world ?n 0 = Some (n', Inl (Runtime_error msg)) \<and> nd_chain n' = nd_chain ?n"
  proof (rule malformed_key_ends_node [of _ "[]" "''x''" _ _ ?tx 1 0 0 net], unfold w)
    show "receive_message mem_os (nd_net ?n) (pr_socket (peer_of ?n 0)) = Some (net, Some ?msg)"
      using r by (simp add: new_Peer_def new_Node_def)
  qed (simp_all add: sample_openssl_def new_Peer_def new_Node_def sha_len_def sample_sha_def)
  then show ?thesis by blast
qed

end
