(* ===== verification/FC_Download.thy ===== *)
theory FC_Download
  imports FC_Sync "HOL-Library.Sublist"
begin

text \<open>
  Catching up over several rounds (src/src/network/Node.cpp). A peer answers a request with at most 2000 blocks, so a node
  that is further behind asks again. A node that only lacks blocks gets all of them; one that is on a branch of its
  own gets nowhere when the first 2000 blocks of the peer's branch are not heavier than its own.
\<close>

section \<open>The first blocks of a chain\<close>

definition chain_prefix :: "nat \<Rightarrow> Blockchain \<Rightarrow> Blockchain" where
  "chain_prefix k bc = \<lparr>bc_blocks = take k (bc_blocks bc),
     bc_index = foldl (\<lambda>m b. AList.delete (b_hash b) m) (bc_index bc) (drop k (bc_blocks bc))\<rparr>"

lemma chain_prefix_blocks [simp]: "bc_blocks (chain_prefix k bc) = take k (bc_blocks bc)"
  by (simp add: chain_prefix_def)

lemma chain_prefix_inv:
  assumes "chain_inv C S bc" and "0 < k"
  shows "chain_inv C S (chain_prefix k bc)"
proof (cases "k \<le> length (bc_blocks bc)")
  case True
  then show ?thesis using truncate_inv [OF assms(1), of "k - 1"] assms(2) by (simp add: chain_prefix_def)
next
  case False
  then have "chain_prefix k bc = bc" by (simp add: chain_prefix_def)
  then show ?thesis using assms(1) by simp
qed

lemma chain_prefix_wire: "wire_chain C bc \<Longrightarrow> wire_chain C (chain_prefix k bc)"
  by (auto simp: wire_chain_def dest: in_set_takeD)

lemma chain_prefix_rules:
  assumes "obeys_rules P params now bc"
  shows "obeys_rules P params now (chain_prefix k bc)"
  unfolding obeys_rules_def
proof (intro allI impI)
  fix i assume i: "0 < i \<and> i < length (bc_blocks (chain_prefix k bc))"
  then have v: "same_view i (bc_at (chain_prefix k bc)) (bc_at bc)" by (simp add: same_view_def bc_at_def vec_at_def)
  have "timestamp_is_valid (bc_blocks bc ! i) i now params (bc_at bc) = Inr True"
    "next_difficulty (pf_log2 P) i params (bc_at bc) = Inr (b_difficulty (bc_blocks bc ! i))"
    using assms i by (simp_all add: obeys_rules_def)
  then show "timestamp_is_valid (bc_blocks (chain_prefix k bc) ! i) i now params (bc_at (chain_prefix k bc)) = Inr True \<and>
      next_difficulty (pf_log2 P) i params (bc_at (chain_prefix k bc)) = Inr (b_difficulty (bc_blocks (chain_prefix k bc) ! i))"
    using i timestamp_is_valid_cong [OF v] next_difficulty_cong [OF v] by simp
qed

lemma chain_prefix_latest:
  assumes "0 < k" and "bc_blocks bc \<noteq> []"
  shows "latest (chain_prefix k bc) = bc_blocks bc ! (min k (length (bc_blocks bc)) - 1)"
  using assms by (simp add: latest_def last_conv_nth min_def)

section \<open>Rounds\<close>

text \<open>One round of a node with a peer whose node is \<open>q\<close>: the request, the whole answer, and the end of the catch-up.\<close>

inductive sync_round ::
  "('db, 'net) world \<Rightarrow> nat \<Rightarrow> ('db2, 'net2) Node \<Rightarrow> ('db, 'net) Node \<Rightarrow> ('db, 'net) Node \<Rightarrow> bool" for W p q where
  round: "\<not> ss_active (nd_sync_state n) \<Longrightarrow> ask_blocks W n p = (n1, Inr ()) \<Longrightarrow> ss_active (nd_sync_state n1) \<Longrightarrow>
    cm_locator (nd_chain n) = Inr locator \<Longrightarrow>
    blocks_after_locator (nd_chain q) locator MAX_BLOCKS_PER_RESPONSE = Inr blocks \<Longrightarrow>
    delivered W p n1 (map block_message blocks) n2 \<Longrightarrow> sync_due W n2 \<Longrightarrow> finish_sync_if_due W n2 = (n', r) \<Longrightarrow>
    sync_round W p q n n'"

lemma finish_sync_chain:
  assumes "sync_due W n" and "ss_active (nd_sync_state n)" and "finish_sync_if_due W n = (n', r)"
  shows "nd_chain n' = (if ss_buffer (nd_sync_state n) = [] then nd_chain n
    else fst (adopt_branch (w_platform W) (w_unix_time W (nd_net n)) (nd_chain n) (ss_buffer (nd_sync_state n))))"
  using assms by (auto simp: finish_sync_if_due_def sync_due_def reset_sync_state_def Let_def split: prod.splits if_splits)

lemma sync_round_adopts:
  assumes "sync_round W p q n n'" and "chain_inv (pf_crypto (w_platform W)) S (cm_blockchain (nd_chain n))"
    and "chain_inv (pf_crypto (w_platform W)) S (cm_blockchain (nd_chain q))"
    and "wire_chain (pf_crypto (w_platform W)) (cm_blockchain (nd_chain q))" and "chain_height (nd_chain q) < 2 ^ 63"
  obtains locator h net where "cm_locator (nd_chain n) = Inr locator"
    "find_locator_match (cm_blockchain (nd_chain q)) locator = Some h"
    "h < length (bc_blocks (cm_blockchain (nd_chain n)))" "h < length (bc_blocks (cm_blockchain (nd_chain q)))"
    "b_hash (bc_blocks (cm_blockchain (nd_chain n)) ! h) = b_hash (bc_blocks (cm_blockchain (nd_chain q)) ! h)"
    "nd_chain n' = fst (adopt_branch (w_platform W) (w_unix_time W net) (nd_chain n) (map wire_block
       (drop (Suc h) (bc_blocks (chain_prefix (Suc h + MAX_BLOCKS_PER_RESPONSE) (cm_blockchain (nd_chain q)))))))"
  using assms(1)
proof cases
  case (round n1 locator blocks n2 r)
  let ?C = "pf_crypto (w_platform W)" and ?B = "cm_blockchain (nd_chain q)"
  obtain h where h: "find_locator_match ?B locator = Some h" "h < length (bc_blocks (cm_blockchain (nd_chain n)))"
    "h < length (bc_blocks ?B)" "b_hash (bc_blocks (cm_blockchain (nd_chain n)) ! h) = b_hash (bc_blocks ?B ! h)"
    by (rule locator_meets [OF assms(2,3) round(4) [unfolded cm_locator_def]])
  have ans: "blocks = drop (Suc h) (bc_blocks (chain_prefix (Suc h + MAX_BLOCKS_PER_RESPONSE) ?B))"
    using answer_blocks [OF h(1,3) assms(5) round(5)] by simp
  have n1: "nd_chain n1 = nd_chain n" "ss_peer (nd_sync_state n1) = Some p" "ss_buffer (nd_sync_state n1) = []"
    by (rule catch_up_started [OF round(1-3)], blast)+
  have "\<forall>b\<in>set blocks. block_deserialize ?C (block_serialize b) = Some (wire_block b)"
    unfolding ans by (rule suffix_decodes [OF chain_prefix_wire [OF assms(4)]])
  from delivered_blocks [OF round(6) refl this round(3) n1(2)] n1
  have n2: "nd_chain n2 = nd_chain n" "ss_active (nd_sync_state n2)" "ss_buffer (nd_sync_state n2) = map wire_block blocks"
    by simp_all
  have "nd_chain n' = fst (adopt_branch (w_platform W) (w_unix_time W (nd_net n2)) (nd_chain n) (map wire_block blocks))"
    using finish_sync_chain [OF round(7) n2(2) round(8)] n2(1,3) by (simp add: adopt_branch_def split: if_splits)
  then show ?thesis using that round(4) h unfolding ans by blast
qed

section \<open>A node that lacks blocks\<close>

definition work_grows :: "Blockchain \<Rightarrow> bool" where
  "work_grows bc \<longleftrightarrow> (\<forall>i j. i < j \<and> j < length (bc_blocks bc) \<longrightarrow>
     b_cumulative_work (bc_blocks bc ! i) < b_cumulative_work (bc_blocks bc ! j))"

text \<open>The node has the first \<open>j\<close> blocks of the chain, a working database if any, and clocks that accept the chain.\<close>

definition downloading :: "('db, 'net) world \<Rightarrow> bytes set \<Rightarrow> 'db sqlite_view \<Rightarrow> Blockchain \<Rightarrow> nat \<Rightarrow> ('db, 'net) Node \<Rightarrow> bool" where
  "downloading W S V B j n \<longleftrightarrow> cm_inv (w_platform W) S (nd_chain n) \<and> storage_works (w_platform W) V (nd_chain n) \<and>
     0 < mp_max_size (cm_mempool (nd_chain n)) \<and> bc_blocks (cm_blockchain (nd_chain n)) = take j (bc_blocks B) \<and>
     (\<forall>net. obeys_rules (w_platform W) (cm_params (nd_chain n)) (w_unix_time W net) B)"

lemma prefix_locator:
  assumes "chain_inv C S A" and "chain_inv C S B" and "bc_blocks A = take j (bc_blocks B)" and "build_locator A = Inr locator"
  shows "find_locator_match B locator = Some (length (bc_blocks A) - 1)"
proof -
  have ne: "bc_blocks A \<noteq> []" using assms(1) by (auto simp: chain_inv_def)
  have "length (bc_blocks A) \<le> 2 ^ length (bc_blocks A)" using less_exp [of "length (bc_blocks A)"] by simp
  then have "hd locator = b_hash (latest A)" using build_locator_facts [OF ne] assms(4) by fastforce
  moreover have "locator \<noteq> []" using locator_match_facts [OF assms(1,2,4)] by auto
  ultimately obtain ls where ls: "locator = b_hash (latest A) # ls" by (cases locator) auto
  have "latest A = bc_blocks B ! (length (bc_blocks A) - 1)" "length (bc_blocks A) - 1 < length (bc_blocks B)"
    using ne assms(3) by (auto simp: latest_def last_conv_nth min_def)
  then have "find_height B (b_hash (latest A)) = Some (length (bc_blocks A) - 1)" using find_height_Some [OF assms(2)] by simp
  then show ?thesis using ls by simp
qed

lemma prefix_unknown:
  assumes "chain_inv C S A" and "chain_inv C S B" and "bc_blocks A = take j (bc_blocks B)" and "j \<le> i" and "i < length (bc_blocks B)"
  shows "\<not> bc_has_block A (b_hash (bc_blocks B ! i))"
proof
  assume "bc_has_block A (b_hash (bc_blocks B ! i))"
  then have "i < length (bc_blocks A)" using known_block_prefix [OF assms(1,2,5)] by blast
  then show False using assms(3,4) by simp
qed

lemma round_downloads:
  fixes n :: "('db, 'net) Node" and q :: "('db2, 'net2) Node"
  assumes "sync_round W p q n n'" and "chain_inv (pf_crypto (w_platform W)) S (cm_blockchain (nd_chain q))"
    and "wire_chain (pf_crypto (w_platform W)) (cm_blockchain (nd_chain q))" and "chain_height (nd_chain q) < 2 ^ 63"
    and "work_grows (cm_blockchain (nd_chain q))" and "downloading W S V (cm_blockchain (nd_chain q)) j n"
  shows "downloading W S V (cm_blockchain (nd_chain q)) (j + MAX_BLOCKS_PER_RESPONSE) n'"
proof -
  let ?P = "w_platform W" and ?m = "nd_chain n" and ?A = "cm_blockchain (nd_chain n)" and ?B = "cm_blockchain (nd_chain q)"
  note d = assms(6) [unfolded downloading_def]
  have A: "cm_inv ?P S ?m" "chain_inv (pf_crypto ?P) S ?A" and Aj: "bc_blocks ?A = take j (bc_blocks ?B)"
    using d by (simp_all add: cm_inv_def)
  have ne: "bc_blocks ?A \<noteq> []" using A(2) by (auto simp: chain_inv_def)
  obtain locator h net where r: "cm_locator ?m = Inr locator" "find_locator_match ?B locator = Some h"
    "h < length (bc_blocks ?A)" "h < length (bc_blocks ?B)" "b_hash (bc_blocks ?A ! h) = b_hash (bc_blocks ?B ! h)"
    and adopt: "nd_chain n' = fst (adopt_branch ?P (w_unix_time W net) ?m
      (map wire_block (drop (Suc h) (bc_blocks (chain_prefix (Suc h + MAX_BLOCKS_PER_RESPONSE) ?B)))))"
    by (rule sync_round_adopts [OF assms(1) A(2) assms(2-4)])
  have "h = length (bc_blocks ?A) - 1"
    using prefix_locator [OF A(2) assms(2) Aj] r(1,2) by (simp add: cm_locator_def)
  then have h: "Suc h = length (bc_blocks ?A)" using ne by simp
  show ?thesis
  proof (cases "j < length (bc_blocks ?B)")
    case False
    then have "nd_chain n' = ?m" using adopt h Aj by (simp add: adopt_branch_def)
    then show ?thesis using d False by (simp add: downloading_def)
  next
    case True
    let ?B' = "chain_prefix (j + MAX_BLOCKS_PER_RESPONSE) ?B" and ?i = "min (j + MAX_BLOCKS_PER_RESPONSE) (length (bc_blocks ?B)) - 1"
    have hj: "Suc h = j" and j: "0 < j" using h Aj True ne by auto
    have i: "j \<le> ?i" "?i < length (bc_blocks ?B)" using True by (auto simp: MAX_BLOCKS_PER_RESPONSE_def)
    have "bc_blocks ?B \<noteq> []" using True by auto
    then have "latest ?B' = bc_blocks ?B ! ?i" using j by (intro chain_prefix_latest) simp_all
    moreover have "latest ?A = bc_blocks ?B ! (j - 1)" unfolding latest_def last_conv_nth [OF ne] using Aj True j by simp
    ultimately have last: "latest ?B' = bc_blocks ?B ! ?i" "latest ?A = bc_blocks ?B ! (j - 1)" by simp_all
    have B': "chain_inv (pf_crypto ?P) S ?B'" "wire_chain (pf_crypto ?P) ?B'" "h < length (bc_blocks ?B')"
      "b_hash (bc_blocks ?A ! h) = b_hash (bc_blocks ?B' ! h)"
      using chain_prefix_inv [OF assms(2)] chain_prefix_wire [OF assms(3)] j r(4,5) hj by simp_all
    have wire: "wire_chain (pf_crypto ?P) ?A" using chain_prefix_wire [OF assms(3), of j] Aj by (simp add: wire_chain_def)
    have rules: "obeys_rules ?P (cm_params ?m) (w_unix_time W net) ?B'" using d by (intro chain_prefix_rules) blast
    have "b_cumulative_work (latest ?A) < b_cumulative_work (latest ?B')"
      using assms(5) i j unfolding last work_grows_def by simp
    moreover have "\<not> bc_has_block ?A (b_hash (latest ?B'))" unfolding last by (rule prefix_unknown [OF A(2) assms(2) Aj i])
    ultimately obtain m' where m': "adopt_branch ?P (w_unix_time W net) ?m (map wire_block (drop (Suc h) (bc_blocks ?B'))) = (m', Inr True)"
      "bc_blocks (cm_blockchain m') = bc_blocks ?B'" "stored_chain V m'" "mp_max_size (cm_mempool m') = mp_max_size (cm_mempool ?m)"
      "cm_params m' = cm_params ?m" "cm_inv ?P S m'"
      using d by (auto intro: suffix_adopted [OF A(1) B'(1) wire B'(2) r(3) B'(3,4) rules, of V])
    then have "nd_chain n' = m'" using adopt hj by simp
    then show ?thesis using m' d by (simp add: downloading_def storage_works_def)
  qed
qed

lemma rounds_download:
  fixes n :: "('db, 'net) Node" and q :: "('db2, 'net2) Node"
  assumes "(sync_round W p q ^^ k) n n'" and "chain_inv (pf_crypto (w_platform W)) S (cm_blockchain (nd_chain q))"
    and "wire_chain (pf_crypto (w_platform W)) (cm_blockchain (nd_chain q))" and "chain_height (nd_chain q) < 2 ^ 63"
    and "work_grows (cm_blockchain (nd_chain q))" and "downloading W S V (cm_blockchain (nd_chain q)) j n"
  shows "downloading W S V (cm_blockchain (nd_chain q)) (j + MAX_BLOCKS_PER_RESPONSE * k) n'"
  using assms(1)
proof (induction k arbitrary: n')
  case 0
  then show ?case using assms(6) by simp
next
  case (Suc k)
  then obtain n1 where n1: "(sync_round W p q ^^ k) n n1" "sync_round W p q n1 n'" by auto
  from round_downloads [OF n1(2) assms(2-5) Suc.IH [OF n1(1)]] show ?case by (simp add: ac_simps)
qed

section \<open>A node on a branch of its own\<close>

lemma light_suffix_refused:
  assumes "cm_inv P S m" and "chain_inv (pf_crypto P) S B" and "wire_chain (pf_crypto P) (cm_blockchain m)" and "wire_chain (pf_crypto P) B"
    and "h < length (bc_blocks (cm_blockchain m))" and "h < length (bc_blocks B)"
    and "b_hash (bc_blocks (cm_blockchain m) ! h) = b_hash (bc_blocks B ! h)" and "obeys_rules P (cm_params m) now B"
    and "b_cumulative_work (latest B) \<le> b_cumulative_work (latest (cm_blockchain m))"
  shows "fst (adopt_branch P now m (map wire_block (drop (Suc h) (bc_blocks B)))) = m"
proof (cases "bc_has_block (cm_blockchain m) (b_hash (latest B))")
  case True
  let ?A = "cm_blockchain m" and ?rec = "map wire_block (drop (Suc h) (bc_blocks B))"
  have A: "chain_inv (pf_crypto P) S ?A" using assms(1) by (simp add: cm_inv_def)
  have ne: "bc_blocks B \<noteq> []" using assms(6) by auto
  have "bc_has_block ?A (b_hash b)" if "b \<in> set ?rec" for b
  proof -
    from that obtain b' where "b' \<in> set (bc_blocks B)" "b_hash b = b_hash b'" by (auto dest: in_set_dropD)
    then obtain i where i: "i < length (bc_blocks B)" "b_hash b = b_hash (bc_blocks B ! i)" by (metis in_set_conv_nth)
    have "length (bc_blocks B) - 1 < length (bc_blocks ?A) \<and>
        (\<forall>k\<le>length (bc_blocks B) - 1. b_hash (bc_blocks ?A ! k) = b_hash (bc_blocks B ! k))"
      using True ne by (intro known_block_prefix [OF A assms(2)]) (simp_all add: latest_def last_conv_nth)
    then have "b_hash b = b_hash (bc_blocks ?A ! i)" "i < length (bc_blocks ?A)" using i by auto
    then show ?thesis unfolding known_block_iff [OF A] by simp
  qed
  then have "takeWhile (\<lambda>b. bc_has_block ?A (b_hash b)) ?rec = ?rec" by (simp only: takeWhile_eq_all_conv) blast
  then show ?thesis unfolding adopt_branch_def Let_def by (simp only: simp_thms if_True fst_conv if_cancel)
next
  case False
  obtain g where g: "branches_at (pf_crypto P) S (cm_blockchain m) B g"
    "adopt_branch P now m (map wire_block (drop (Suc h) (bc_blocks B))) =
       (case try_reorg P m (peer_branch (cm_blockchain m) B g) of (m', r) \<Rightarrow> (m', map_sum id (\<lambda>hs. hs \<noteq> None) r))"
    by (rule suffix_attempt [OF assms(1-8) False])
  obtain bc where bc: "reorganize_to (cm_blockchain m) (peer_branch (cm_blockchain m) B g) = (bc, Some (drop (Suc g) (bc_blocks (cm_blockchain m))))"
    "bc_blocks bc = bc_blocks B" by (rule peer_branch_reorganizes [OF g(1)])
  have "chain_inv (pf_crypto P) S (cm_blockchain m)" using assms(1) by (simp add: cm_inv_def)
  from reorganized_work [OF this peer_branch_fork [OF g(1)] bc(1)] bc(2) assms(9)
  have "\<not> is_fork_heavier (cm_blockchain m) (peer_branch (cm_blockchain m) B g)" by (simp add: is_fork_heavier_def latest_def not_less)
  then show ?thesis using g(2) by (simp add: try_reorg_def)
qed

lemma round_stalls:
  fixes n :: "('db, 'net) Node" and q :: "('db2, 'net2) Node"
  assumes "sync_round W p q n n'" and "cm_inv (w_platform W) S (nd_chain n)"
    and "chain_inv (pf_crypto (w_platform W)) S (cm_blockchain (nd_chain q))"
    and "wire_chain (pf_crypto (w_platform W)) (cm_blockchain (nd_chain n))"
    and "wire_chain (pf_crypto (w_platform W)) (cm_blockchain (nd_chain q))" and "chain_height (nd_chain q) < 2 ^ 63"
    and "cm_locator (nd_chain n) = Inr locator" and "find_locator_match (cm_blockchain (nd_chain q)) locator = Some h"
    and "b_cumulative_work (latest (chain_prefix (Suc h + MAX_BLOCKS_PER_RESPONSE) (cm_blockchain (nd_chain q)))) \<le>
      b_cumulative_work (latest (cm_blockchain (nd_chain n)))"
    and "\<forall>net. obeys_rules (w_platform W) (cm_params (nd_chain n)) (w_unix_time W net) (cm_blockchain (nd_chain q))"
  shows "nd_chain n' = nd_chain n"
proof -
  let ?B = "cm_blockchain (nd_chain q)" and ?A = "cm_blockchain (nd_chain n)"
  let ?B' = "chain_prefix (Suc h + MAX_BLOCKS_PER_RESPONSE) ?B"
  have A: "chain_inv (pf_crypto (w_platform W)) S ?A" using assms(2) by (simp add: cm_inv_def)
  obtain l h' net where l: "cm_locator (nd_chain n) = Inr l" "find_locator_match ?B l = Some h'"
    and r: "h' < length (bc_blocks ?A)" "h' < length (bc_blocks ?B)" "b_hash (bc_blocks ?A ! h') = b_hash (bc_blocks ?B ! h')"
    and adopt: "nd_chain n' = fst (adopt_branch (w_platform W) (w_unix_time W net) (nd_chain n)
      (map wire_block (drop (Suc h') (bc_blocks (chain_prefix (Suc h' + MAX_BLOCKS_PER_RESPONSE) ?B)))))"
    by (rule sync_round_adopts [OF assms(1) A assms(3,5,6)])
  have h: "h' = h" using l assms(7,8) by simp
  have "fst (adopt_branch (w_platform W) (w_unix_time W net) (nd_chain n) (map wire_block (drop (Suc h) (bc_blocks ?B')))) = nd_chain n"
  proof (rule light_suffix_refused [OF assms(2) chain_prefix_inv [OF assms(3)] assms(4) chain_prefix_wire [OF assms(5)]])
    show "obeys_rules (w_platform W) (cm_params (nd_chain n)) (w_unix_time W net) ?B'" using assms(10) by (intro chain_prefix_rules) blast
  qed (use r h assms(9) in simp_all)
  then show ?thesis using adopt h by simp
qed

lemma rounds_stall:
  fixes n :: "('db, 'net) Node" and q :: "('db2, 'net2) Node"
  assumes "(sync_round W p q ^^ k) n n'" and "cm_inv (w_platform W) S (nd_chain n)"
    and "chain_inv (pf_crypto (w_platform W)) S (cm_blockchain (nd_chain q))"
    and "wire_chain (pf_crypto (w_platform W)) (cm_blockchain (nd_chain n))"
    and "wire_chain (pf_crypto (w_platform W)) (cm_blockchain (nd_chain q))" and "chain_height (nd_chain q) < 2 ^ 63"
    and "cm_locator (nd_chain n) = Inr locator" and "find_locator_match (cm_blockchain (nd_chain q)) locator = Some h"
    and "b_cumulative_work (latest (chain_prefix (Suc h + MAX_BLOCKS_PER_RESPONSE) (cm_blockchain (nd_chain q)))) \<le>
      b_cumulative_work (latest (cm_blockchain (nd_chain n)))"
    and "\<forall>net. obeys_rules (w_platform W) (cm_params (nd_chain n)) (w_unix_time W net) (cm_blockchain (nd_chain q))"
  shows "nd_chain n' = nd_chain n"
  using assms(1)
proof (induction k arbitrary: n')
  case (Suc k)
  then obtain n1 where n1: "(sync_round W p q ^^ k) n n1" "sync_round W p q n1 n'" by auto
  then have "nd_chain n1 = nd_chain n" using Suc.IH by blast
  then show ?case using round_stalls [OF n1(2), of S locator h] assms(2-) by simp
qed simp

section \<open>Properties\<close>

text \<open>C3: Initial download. A node that has the first blocks of a peer's chain and lacks the rest asks the peer again and
  again; each answer has at most 2000 blocks. After enough rounds to cover what it lacks it has exactly the peer's
  chain, in memory and in its database. The peer's chain is valid and obeys the rules on times and difficulties under
  the node's clock, and its accumulated work never wraps; the database takes writes.\<close>

theorem initial_download_completes:
  fixes n :: "('db, 'net) Node" and q :: "('db2, 'net2) Node"
  assumes "(sync_round W p q ^^ k) n n'" and "cm_inv (w_platform W) S (nd_chain n)"
    and "chain_inv (pf_crypto (w_platform W)) S (cm_blockchain (nd_chain q))"
    and "wire_chain (pf_crypto (w_platform W)) (cm_blockchain (nd_chain q))" and "chain_height (nd_chain q) < 2 ^ 63"
    and "work_grows (cm_blockchain (nd_chain q))"
    and "prefix (bc_blocks (cm_blockchain (nd_chain n))) (bc_blocks (cm_blockchain (nd_chain q)))"
    and "storage_works (w_platform W) V (nd_chain n)" and "0 < mp_max_size (cm_mempool (nd_chain n))"
    and "\<forall>net. obeys_rules (w_platform W) (cm_params (nd_chain n)) (w_unix_time W net) (cm_blockchain (nd_chain q))"
    and "chain_height (nd_chain q) \<le> chain_height (nd_chain n) + MAX_BLOCKS_PER_RESPONSE * k"
  shows "bc_blocks (cm_blockchain (nd_chain n')) = bc_blocks (cm_blockchain (nd_chain q)) \<and> stored_chain V (nd_chain n')"
proof -
  have "bc_blocks (cm_blockchain (nd_chain n)) =
      take (length (bc_blocks (cm_blockchain (nd_chain n)))) (bc_blocks (cm_blockchain (nd_chain q)))"
    using assms(7) by (auto elim: prefixE)
  then have "downloading W S V (cm_blockchain (nd_chain q)) (length (bc_blocks (cm_blockchain (nd_chain n)))) n"
    unfolding downloading_def using assms(2,8-10) by blast
  from rounds_download [OF assms(1,3-6) this] assms(11)
  show ?thesis by (simp add: downloading_def storage_works_def chain_height_def bc_size_def)
qed

text \<open>C28: A deep fork is never reconciled. The peer's answer begins at the block the two chains share and has at most
  2000 blocks. When these are not heavier than the node's own chain, the node refuses them, its locator stays the
  same, and every later round brings the same blocks: no number of rounds changes its chain, however heavy
  the rest of the peer's chain is.\<close>

theorem deep_fork_never_syncs:
  fixes n :: "('db, 'net) Node" and q :: "('db2, 'net2) Node"
  assumes "(sync_round W p q ^^ k) n n'" and "cm_inv (w_platform W) S (nd_chain n)"
    and "chain_inv (pf_crypto (w_platform W)) S (cm_blockchain (nd_chain q))"
    and "wire_chain (pf_crypto (w_platform W)) (cm_blockchain (nd_chain n))"
    and "wire_chain (pf_crypto (w_platform W)) (cm_blockchain (nd_chain q))" and "chain_height (nd_chain q) < 2 ^ 63"
    and "cm_locator (nd_chain n) = Inr locator" and "find_locator_match (cm_blockchain (nd_chain q)) locator = Some h"
    and "b_cumulative_work (latest (chain_prefix (Suc h + MAX_BLOCKS_PER_RESPONSE) (cm_blockchain (nd_chain q)))) \<le>
      b_cumulative_work (latest (cm_blockchain (nd_chain n)))"
    and "\<forall>net. obeys_rules (w_platform W) (cm_params (nd_chain n)) (w_unix_time W net) (cm_blockchain (nd_chain q))"
  shows "nd_chain n' = nd_chain n"
  by (rule rounds_stall [OF assms])

section \<open>Sample rounds\<close>

lemma sample_round:
  fixes n :: "(mem_db, mem_net) Node"
  assumes "nd_net n = quiet_net" and "nd_store n = [new_Peer 0 3 sample_version ''10.0.0.2'']" and "nd_running n"
    and "nd_sync_state n = new_SyncState" and "cm_locator (nd_chain n) = Inr ls" and "length (serialize_getblocks ls) < 1000"
    and "blocks_after_locator ahead_manager ls MAX_BLOCKS_PER_RESPONSE = Inr [sample_a\<lparr>b_cumulative_work := 2\<rparr>]"
  obtains n' where "sync_round sync_world 0 ahead_node n n'"
proof -
  let ?b = "sample_a\<lparr>b_cumulative_work := 2\<rparr>"
  obtain net where ask: "ask_blocks sync_world n 0 = (n\<lparr>
      nd_sync_state := \<lparr>ss_active = True, ss_peer = Some 0, ss_buffer = [], ss_last_block = 0\<rparr>, nd_net := net\<rparr>, Inr ())" (is "_ = (?n1, _)")
    by (rule sync_asks [OF assms(1,2,4,5,6)])
  obtain n2 where n2: "delivered sync_world 0 ?n1 [block_message ?b] n2" "sync_due sync_world n2"
  proof (rule sync_delivered [of ?n1 ?b])
    show "length (block_serialize ?b) < 1000"
      by (simp add: block_serialize_def sample_a_def sample_child_def mk_Block_def Let_def sample_sha_def)
  qed (use assms(2,3) in simp_all)
  obtain n' r where "finish_sync_if_due sync_world n2 = (n', r)" by fastforce
  with ask n2 assms(4,5,7) have "sync_round sync_world 0 ahead_node n n'"
    by (intro sync_round.round [of n sync_world 0 ?n1 ls ahead_node "[?b]" n2 n' r])
      (simp_all add: new_SyncState_def ahead_node_def new_Node_def)
  then show ?thesis by (rule that)
qed

lemma ahead_facts:
  "nd_chain ahead_node = ahead_manager" "chain_inv (pf_crypto (w_platform sync_world)) sample_universe (cm_blockchain (nd_chain ahead_node))"
  "wire_chain (pf_crypto (w_platform sync_world)) (cm_blockchain (nd_chain ahead_node))" "chain_height (nd_chain ahead_node) < 2 ^ 63"
  "\<forall>net. obeys_rules (w_platform sync_world) sample_params (w_unix_time sync_world net) (cm_blockchain (nd_chain ahead_node))"
  using sample_wire_chain(2) sample_obeys_rules
  by (simp_all add: ahead_node_def new_Node_def chain_height_def bc_size_def)

theorem initial_download_completes_witness:
  "\<exists>n'. sync_round sync_world 0 ahead_node sync_node n' \<and> bc_blocks (cm_blockchain (nd_chain n')) = bc_blocks sample_bc \<and>
     stored_chain mem_view (nd_chain n')"
proof -
  let ?m = "sample_manager (Some sample_db)"
  have m: "nd_chain sync_node = ?m" by (simp add: sync_node_def new_Node_def)
  obtain n' where r: "sync_round sync_world 0 ahead_node sync_node n'"
    by (rule sample_round [of sync_node "[sample_hash 1]"])
      (simp_all add: sync_node_def new_Node_def sync_locator serialize_getblocks_def ahead_answer)
  have "stored_chain mem_view ?m" by (simp add: stored_chain_def sample_db_def empty_db_def mem_view_def)
  then have works: "storage_works (w_platform sync_world) mem_view (nd_chain sync_node)"
    by (simp add: m storage_works_def mem_accepts_writes)
  have work: "work_grows (cm_blockchain (nd_chain ahead_node))"
    by (auto simp: work_grows_def ahead_facts(1) less_Suc_eq nth_Cons')
  have "bc_blocks (cm_blockchain (nd_chain n')) = bc_blocks (cm_blockchain (nd_chain ahead_node)) \<and> stored_chain mem_view (nd_chain n')"
  proof (rule initial_download_completes [OF _ _ ahead_facts(2-4) work _ works, where k = 1])
    show "(sync_round sync_world 0 ahead_node ^^ 1) sync_node n'" using r by (simp add: eq_OO)
  qed (use ahead_facts(5) in \<open>simp_all add: m ahead_facts(1) mk_Mempool_def chain_height_def bc_size_def MAX_BLOCKS_PER_RESPONSE_def\<close>)
  with r show ?thesis by (auto simp: ahead_facts(1))
qed

definition forked_bc :: Blockchain where
  "forked_bc = add_block (new_Blockchain sample_openssl) sample_b"

definition forked_node :: "(mem_db, mem_net) Node" where
  "forked_node = sync_node\<lparr>nd_chain := (sample_manager None)\<lparr>cm_blockchain := forked_bc\<rparr>\<rparr>"

lemma forked_bc_blocks [simp]: "bc_blocks forked_bc = [genesis_block sample_openssl, sample_b\<lparr>b_cumulative_work := 8\<rparr>]"
  by (simp add: forked_bc_def add_block_blocks new_Blockchain_def latest_def block_work_def word_le_nat_alt)

lemma forked_bc_inv: "chain_inv sample_openssl sample_universe forked_bc"
  unfolding forked_bc_def by (intro add_block_inv new_chain_inv) (simp_all add: latest_def new_Blockchain_def)

lemma sample_b_root: "length (b_merkle_root sample_b) = 32"
  by (simp add: mk_Block_def sample_b_def sample_child_def Let_def sample_sha_def)

theorem deep_fork_never_syncs_witness:
  "\<exists>n'. sync_round sync_world 0 ahead_node forked_node n' \<and> nd_chain n' = nd_chain forked_node"
proof -
  have m: "nd_chain forked_node = (sample_manager None)\<lparr>cm_blockchain := forked_bc\<rparr>" by (simp add: forked_node_def)
  have loc: "cm_locator (nd_chain forked_node) = Inr [sample_hash 12, sample_hash 1]"
    by (simp add: m cm_locator_def build_locator_def bc_size_def bc_at_def vec_at_def locator_loop.simps)
  have h: "find_locator_match sample_bc [sample_hash 12, sample_hash 1] = Some 0"
    using find_height_Some [OF sample_bc_inv, of "sample_hash 1" 0] find_height_None [OF sample_bc_inv, of "sample_hash 12"] by simp
  have ans: "blocks_after_locator ahead_manager [sample_hash 12, sample_hash 1] MAX_BLOCKS_PER_RESPONSE =
      Inr [sample_a\<lparr>b_cumulative_work := 2\<rparr>]"
    using h by (simp add: blocks_after_locator_def bc_size_def blocks_between_def MAX_BLOCKS_PER_RESPONSE_def)
  obtain n' where r: "sync_round sync_world 0 ahead_node forked_node n'"
    by (rule sample_round [OF _ _ _ _ loc _ ans])
      (simp_all add: forked_node_def sync_node_def new_Node_def serialize_getblocks_def)
  have wire: "wire_chain (pf_crypto (w_platform sync_world)) (cm_blockchain (nd_chain forked_node))"
  proof -
    have "wf_block sample_openssl (wire_block (sample_b\<lparr>b_cumulative_work := 8\<rparr>))"
      using sample_sound(3) by (simp add: wf_block_def wire_block_def sound_block_def block_compute_hash_def sample_b_root)
    then show ?thesis using sample_wire_chain(1) by (simp add: m wire_chain_def)
  qed
  have inv: "cm_inv (w_platform sync_world) sample_universe (nd_chain forked_node)"
    using sample_manager_inv [of None] forked_bc_inv by (simp add: m cm_inv_def)
  have "nd_chain n' = nd_chain forked_node"
  proof (rule deep_fork_never_syncs [OF _ inv ahead_facts(2) wire ahead_facts(3,4) loc, where k = 1])
    show "(sync_round sync_world 0 ahead_node ^^ 1) forked_node n'" using r by (simp add: eq_OO)
    show "find_locator_match (cm_blockchain (nd_chain ahead_node)) [sample_hash 12, sample_hash 1] = Some 0"
      using h by (simp add: ahead_facts(1))
  qed (use ahead_facts(5) in \<open>simp_all add: m ahead_facts(1) latest_def MAX_BLOCKS_PER_RESPONSE_def\<close>)
  with r show ?thesis by blast
qed

end
