(* ===== verification/FC_Gossip.thy ===== *)
theory FC_Gossip
  imports FC_Sync
begin

text \<open>
  How a block travels between two nodes of src/src/network/Node.cpp that have the same chain: the announcement (INV), the
  request it causes (GETDATA), the answer (BLOCK) and what the receiving node does with it.
\<close>

section \<open>Nodes that agree\<close>

text \<open>Two chain managers that decide alike about the next block: the same chain, ledger and parameters.\<close>

definition managers_agree :: "'db ChainManager \<Rightarrow> 'db ChainManager \<Rightarrow> bool" where
  "managers_agree m m' \<longleftrightarrow> cm_blockchain m = cm_blockchain m' \<and> cm_ledger m = cm_ledger m' \<and> cm_params m = cm_params m'"

lemma tip_rules_agree:
  assumes "managers_agree m m'" and "tip_rules P now m block"
    and "timestamp_is_valid block (bc_size (cm_blockchain m')) now' (cm_params m') (bc_at (cm_blockchain m')) = Inr True"
  shows "tip_rules P now' m' block"
  using assms by (simp add: tip_rules_def managers_agree_def)

lemma bc_find_added: "\<exists>w. bc_find (add_block bc block) (b_hash block) = Some (block\<lparr>b_cumulative_work := w\<rparr>)"
  by (simp add: bc_find_def find_height_def bc_has_block_def add_block_def Let_def update_conv') blast

section \<open>The three messages\<close>

abbreviation block_item :: "Block \<Rightarrow> InventoryItem" where
  "block_item block \<equiv> \<lparr>ii_type = Inv_block, ii_hash = b_hash block\<rparr>"

abbreviation inv_payload :: "Block \<Rightarrow> bytes" where
  "inv_payload block \<equiv> serialize_inventory [block_item block]"

lemma block_item_travels:
  "length (b_hash block) = 32 \<Longrightarrow> deserialize_inventory (inv_payload block) = Some [block_item block]"
  by (rule deserialize_serialize_inventory) (simp add: wf_inventory_def)

lemma inv_requests:
  assumes "length (b_hash block) = 32" and "\<not> cm_has_block (nd_chain n) (b_hash block)"
  shows "handle_inv W n p (inv_payload block) = fst (send_msg W n p GETDATA (inv_payload block))"
  using assms by (simp add: handle_inv_def block_item_travels)

lemma getdata_answers:
  assumes "length (b_hash block) = 32" and "cm_blockchain (nd_chain n) = add_block bc block"
  shows "handle_getdata W n p (inv_payload block) = fst (send_msg W n p BLOCK (block_serialize block))"
proof -
  obtain w where "bc_find (add_block bc block) (b_hash block) = Some (block\<lparr>b_cumulative_work := w\<rparr>)"
    using bc_find_added by blast
  then show ?thesis using assms
    by (simp add: handle_getdata_def block_item_travels getdata_answer_def find_block_def map_filter_simps send_each_def)
qed

lemma block_relayed:
  assumes "\<not> (ss_active (nd_sync_state n) \<and> ss_peer (nd_sync_state n) = Some p)"
    and "wf_block (pf_crypto (w_platform W)) block"
    and "submit_block (w_platform W) (w_unix_time W (nd_net n)) (nd_chain n) block = (m, Inr (accepted_outcome block))"
  shows "handle_block W n p (block_serialize block) =
    (broadcast_inv W (n\<lparr>nd_chain := m\<rparr>) (Some p) Inv_block (b_hash block), Inr ())"
  using assms by (auto simp: handle_block_def block_deserialize_serialize accepted_outcome_def Let_def)

section \<open>Properties\<close>

text \<open>C10: A block that one node accepts reaches a node with the same chain: announced to it, the block is asked for;
  the request is answered with the block; and when the answer arrives the second node has the same chain and ledger as
  the first and announces the block to its other peers. The second node may have sent and received other messages in
  between as long as its chain stays, its clock must allow the timestamp, its database take the row, and the answer must
  not come from a peer it is synchronizing with.\<close>

theorem block_propagates:
  assumes "submit_block (w_platform W) now (nd_chain a) block = (m, Inr out)" and "bo_status out = Accepted"
    and "managers_agree (nd_chain a) (nd_chain b)" and "nd_chain b' = nd_chain b"
    and "wf_block (pf_crypto (w_platform W)) block" and "length (b_hash block) = 32"
    and "\<not> cm_has_block (nd_chain b) (b_hash block)"
    and "timestamp_is_valid block (bc_size (cm_blockchain (nd_chain b))) (w_unix_time W (nd_net b'))
      (cm_params (nd_chain b)) (bc_at (cm_blockchain (nd_chain b))) = Inr True"
    and "takes_row (w_platform W) (nd_chain b) block"
    and "\<not> (ss_active (nd_sync_state b') \<and> ss_peer (nd_sync_state b') = Some p)"
  shows "handle_message W b p \<lparr>msg_type = INV, msg_payload = inv_payload block\<rparr> =
      (fst (send_msg W b p GETDATA (inv_payload block)), Inr ()) \<and>
    handle_message W (a\<lparr>nd_chain := m\<rparr>) q \<lparr>msg_type = GETDATA, msg_payload = inv_payload block\<rparr> =
      (fst (send_msg W (a\<lparr>nd_chain := m\<rparr>) q BLOCK (block_serialize block)), Inr ()) \<and>
    (\<exists>m'. managers_agree m m' \<and>
      handle_message W b' p \<lparr>msg_type = BLOCK, msg_payload = block_serialize block\<rparr> =
        (broadcast_inv W (b'\<lparr>nd_chain := m'\<rparr>) (Some p) Inv_block (b_hash block), Inr ()))"
proof (intro conjI)
  note acc = submit_block_accepted [OF assms(1,2)]
  show "handle_message W b p \<lparr>msg_type = INV, msg_payload = inv_payload block\<rparr> =
      (fst (send_msg W b p GETDATA (inv_payload block)), Inr ())"
    using inv_requests [OF assms(6,7)] by (simp add: handle_message_def)
  show "handle_message W (a\<lparr>nd_chain := m\<rparr>) q \<lparr>msg_type = GETDATA, msg_payload = inv_payload block\<rparr> =
      (fst (send_msg W (a\<lparr>nd_chain := m\<rparr>) q BLOCK (block_serialize block)), Inr ())"
    using getdata_answers [OF assms(6), of "a\<lparr>nd_chain := m\<rparr>"] acc(3) by (simp add: handle_message_def)
  have view: "cm_blockchain (nd_chain b') = cm_blockchain (nd_chain a)" "cm_ledger (nd_chain b') = cm_ledger (nd_chain a)"
    "cm_params (nd_chain b') = cm_params (nd_chain a)" "managers_agree (nd_chain a) (nd_chain b')"
    using assms(3,4) by (simp_all add: managers_agree_def)
  obtain m' where m': "submit_block (w_platform W) (w_unix_time W (nd_net b')) (nd_chain b') block = (m', Inr (accepted_outcome block))"
    "cm_blockchain m' = add_block (cm_blockchain (nd_chain b')) block" "cm_ledger m' = cm_ledger m"
    "cm_params m' = cm_params (nd_chain b')"
  proof (rule submit_block_takes)
    show "tip_rules (w_platform W) (w_unix_time W (nd_net b')) (nd_chain b') block"
      using tip_rules_agree [OF view(4) acc(1)] assms(8) by (simp add: assms(4))
    show "takes_row (w_platform W) (nd_chain b') block" using assms(9) by (simp add: assms(4))
    show "apply_block_to_ledger (pf_crypto (w_platform W)) (cm_ledger (nd_chain b')) block = (cm_ledger m, Inr True)"
      using acc(2) by (simp only: view(2))
  qed
  have "managers_agree m m'" using acc(3,4) m'(2-4) view by (simp add: managers_agree_def)
  moreover note block_relayed [OF assms(10,5) m'(1)]
  ultimately show "\<exists>m'. managers_agree m m' \<and>
      handle_message W b' p \<lparr>msg_type = BLOCK, msg_payload = block_serialize block\<rparr> =
        (broadcast_inv W (b'\<lparr>nd_chain := m'\<rparr>) (Some p) Inv_block (b_hash block), Inr ())"
    by (auto simp: handle_message_def)
qed

lemma sample_a_wf: "wf_block sample_openssl sample_a"
proof -
  have "wire_block (sample_a\<lparr>b_cumulative_work := 2\<rparr>) = sample_a"
    by (simp add: wire_block_def sample_a_def sample_child_def mk_Block_def Let_def)
  then show ?thesis using sample_wire_chain(2) by (simp add: wire_chain_def)
qed

text \<open>The node of the peer, without a database, extends its chain; the node with a database learns of it.\<close>

theorem block_propagates_witness:
  "\<exists>m'. managers_agree ahead_manager m' \<and>
     handle_message sync_world sync_node 0 \<lparr>msg_type = BLOCK, msg_payload = block_serialize sample_a\<rparr> =
       (broadcast_inv sync_world (sync_node\<lparr>nd_chain := m'\<rparr>) (Some 0) Inv_block (b_hash sample_a), Inr ())"
proof -
  let ?a = "ahead_node\<lparr>nd_chain := sample_manager None\<rparr>" and ?m = "sample_manager (Some sample_db)"
  have chain: "nd_chain sync_node = ?m" and idle: "\<not> ss_active (nd_sync_state sync_node)"
    by (simp_all add: sync_node_def new_Node_def new_SyncState_def)
  have sub: "submit_block (w_platform sync_world) 5 (nd_chain ?a) sample_a =
      (ahead_manager, Inr (new_outcome\<lparr>bo_status := Accepted, bo_to_broadcast := [b_hash sample_a]\<rparr>))"
    using submit_block_accepts [OF sample_a_rules [of None], of empty_ledger]
    by (simp add: ahead_manager_def apply_block_True_iff)
  have new: "\<not> cm_has_block (nd_chain sync_node) (b_hash sample_a)"
    unfolding cm_has_block_def chain sample_manager_sel
      known_block_iff [OF new_chain_inv [OF sample_collision_free sample_members(1)]]
    by simp
  have time: "timestamp_is_valid sample_a (bc_size (cm_blockchain (nd_chain sync_node))) (w_unix_time sync_world (nd_net sync_node))
      (cm_params (nd_chain sync_node)) (bc_at (cm_blockchain (nd_chain sync_node))) = Inr True"
    using sample_a_rules [of None] by (simp add: chain tip_rules_def)
  have row: "takes_row (w_platform sync_world) (nd_chain sync_node) sample_a"
    by (simp add: takes_row_def chain save_block_def exec_done_def)
  show ?thesis
    using block_propagates [OF sub, of sync_node sync_node 0] sample_a_wf new time row idle chain
    by (simp add: managers_agree_def)
qed

end
