(* ===== verification/FC_Connections.thy ===== *)
theory FC_Connections
  imports FC_NodeInv
begin

unbundle bit_operations_syntax

text \<open>
  Identities and crossed connections. src/src/network/NodeId.cpp draws a node's identity from a generator of the C++
  library seeded with 32 bits; src/src/network/Node.cpp uses the identities to drop connections to itself and to decide
  which of two crossed connections survives.
\<close>

section \<open>Node identities\<close>

text \<open>\<open>std::mt19937_64\<close>: the recurrence, the seeding with one word and the tempering of the C++ standard.\<close>

definition mt_twist :: "u64 \<Rightarrow> u64 \<Rightarrow> u64 \<Rightarrow> u64" where
  "mt_twist x0 x1 xm =
     (let y = (x0 AND 0xFFFFFFFF80000000) OR (x1 AND 0x7FFFFFFF)
      in xm XOR drop_bit 1 y XOR (if bit y 0 then 0xB5026F5AA96619E9 else 0))"

function mt_word :: "u64 \<Rightarrow> nat \<Rightarrow> u64" where
  "mt_word seed i =
     (if i = 0 then seed
      else if i < 312 then
        (let x = mt_word seed (i - 1) in 6364136223846793005 * (x XOR drop_bit 62 x) + word_of_nat i)
      else mt_twist (mt_word seed (i - 312)) (mt_word seed (i - 311)) (mt_word seed (i - 156)))"
  by pat_completeness auto
termination by (relation "measure snd") auto

declare mt_word.simps [simp del]

definition mt_temper :: "u64 \<Rightarrow> u64" where
  "mt_temper z =
     (let z = z XOR (drop_bit 29 z AND 0x5555555555555555);
          z = z XOR (push_bit 17 z AND 0x71D67FFFEDA60000);
          z = z XOR (push_bit 37 z AND 0xFFF7EEE000000000)
      in z XOR drop_bit 43 z)"

definition mt19937_64 :: "u64 \<Rightarrow> nat \<Rightarrow> u64" where
  "mt19937_64 seed n = mt_temper (mt_word seed (312 + n))"

text \<open>
  The standard leaves open how \<open>std::uniform_int_distribution\<close> uses its generator: \<open>draw\<close> is any function of the
  numbers it draws. \<open>rd\<close> is what \<open>std::random_device\<close> returns.
\<close>

definition generate_node_id :: "((nat \<Rightarrow> u64) \<Rightarrow> u64) \<Rightarrow> u32 \<Rightarrow> u64" where
  "generate_node_id draw rd = draw (mt19937_64 (ucast rd))"

text \<open>At most \<open>2\<^sup>3\<^sup>2\<close> of the \<open>2\<^sup>6\<^sup>4\<close> identities are ever drawn.\<close>

lemma node_ids_few: "card (range (generate_node_id draw)) \<le> 2 ^ 32"
proof -
  have "card (range (generate_node_id draw)) \<le> card (UNIV :: u32 set)" by (rule card_image_le) simp
  then show ?thesis by (simp add: card_word)
qed

text \<open>Two nodes with the same identity never become peers.\<close>

lemma same_identity_refused:
  assumes "is_valid fd" and "register_new_peer W n fd host is_outbound = Some (n', Inr r)"
    and "perform_handshake (w_os W) (set_receive_timeout (w_tcp W) (nd_net n) fd 5) fd
      ((nd_info n)\<lparr>vi_chain_height := word_of_nat (chain_height (nd_chain n))\<rparr>) = Some (net, Inr (Some incoming))"
    and "vi_node_id incoming = vi_node_id (nd_info n)"
  shows "\<not> r \<and> nd_peers n' = nd_peers n"
  using assms by (auto simp: register_new_peer_def drop_socket_def)

section \<open>Crossed connections\<close>

text \<open>A connection whose handshake is done, as \<open>register_new_peer\<close> puts it before \<open>admit_peer\<close>.\<close>

definition admitted :: "('db, 'net) world \<Rightarrow> ('db, 'net) Node \<Rightarrow> Peer \<Rightarrow> bool \<Rightarrow> ('db, 'net) Node" where
  "admitted W n peer is_outbound =
     fst (admit_peer W (n\<lparr>nd_store := nd_store n @ [peer]\<rparr>) (length (nd_store n)) (pr_remote_version peer) (pr_host peer) is_outbound)"

text \<open>The directions of the live connections to an address.\<close>

definition links :: "('db, 'net) Node \<Rightarrow> str \<Rightarrow> u16 \<Rightarrow> bool list" where
  "links n host port = map pe_is_outbound (filter (duplicate_of n host port) (nd_peers n))"

definition link_to :: "VersionInfo \<Rightarrow> str \<Rightarrow> Peer \<Rightarrow> bool" where
  "link_to info host peer \<longleftrightarrow> pr_alive peer \<and> pr_host peer = host \<and>
     vi_listen_port (pr_remote_version peer) = vi_listen_port info \<and> vi_node_id (pr_remote_version peer) = vi_node_id info"

lemma find_after: "filter P xs = [] \<Longrightarrow> find P (xs @ ys) = find P ys"
  by (induction xs) (auto split: if_splits)

lemma first_link:
  assumes "conns_ok n" and "links n host (vi_listen_port info) = []" and "link_to info host peer"
  shows "admitted W n peer out = n\<lparr>nd_store := nd_store n @ [peer],
    nd_peers := nd_peers n @ [\<lparr>pe_peer = length (nd_store n), pe_is_outbound = out\<rparr>]\<rparr>"
proof -
  let ?n = "n\<lparr>nd_store := nd_store n @ [peer]\<rparr>"
  have "duplicate_of ?n host (vi_listen_port info) e \<longleftrightarrow> duplicate_of n host (vi_listen_port info) e" if "e \<in> set (nd_peers n)" for e
    using assms(1) that by (simp add: duplicate_of_def conns_ok_def nth_append)
  then have "find (duplicate_of ?n host (vi_listen_port info)) (nd_peers n) = None"
    using assms(2) by (simp add: links_def filter_empty_conv find_None_iff)
  then show ?thesis using assms(3) by (simp add: admitted_def admit_peer_def link_to_def)
qed

lemma second_link:
  fixes n :: "('db, 'net) Node"
  assumes "conns_ok n" and "links n host (vi_listen_port info) = []" and "vi_listen_port info \<noteq> 0"
    and "link_to info host p1" and "link_to info host p2"
  shows "links (admitted W (admitted W n p1 out) p2 (\<not> out)) host (vi_listen_port info) =
    [vi_node_id (nd_info n) < vi_node_id info]"
proof -
  let ?port = "vi_listen_port info" and ?i = "length (nd_store n)"
  let ?e1 = "\<lparr>pe_peer = ?i, pe_is_outbound = out\<rparr>" and ?e2 = "\<lparr>pe_peer = Suc ?i, pe_is_outbound = (\<not> out)\<rparr>"
  let ?n = "n\<lparr>nd_peers := nd_peers n @ [?e1], nd_store := nd_store n @ [p1, p2]\<rparr>"
  have old: "\<not> duplicate_of n host ?port e" if "e \<in> set (nd_peers n)" for e
    using assms(2) that by (simp add: links_def filter_empty_conv)
  have other: "\<not> duplicate_of m host ?port e" if "e \<in> set (nd_peers n)" "take ?i (nd_store m) = nd_store n" for e and m :: "('db, 'net) Node"
  proof -
    have "pe_peer e < ?i" using assms(1) that(1) by (simp add: conns_ok_def)
    then have "nd_store m ! pe_peer e = nd_store n ! pe_peer e" using that(2) by (metis nth_take)
    then show ?thesis using old [OF that(1)] by (simp add: duplicate_of_def)
  qed
  have none: "filter (duplicate_of m host ?port) (nd_peers n) = []" if "take ?i (nd_store m) = nd_store n" for m :: "('db, 'net) Node"
    using other [OF _ that] by (simp add: filter_empty_conv)
  have "filter (duplicate_of ?n host ?port) (nd_peers n) = []" by (rule none) simp
  then have "find (duplicate_of ?n host ?port) (nd_peers n @ [?e1]) = Some ?e1"
    using assms(3,4) by (simp add: find_after duplicate_of_def link_to_def nth_append)
  then have adm: "admitted W (admitted W n p1 out) p2 (\<not> out) =
      (if (vi_node_id (nd_info n) < vi_node_id info) = (\<not> out)
       then (let m = close_peer W (mark_dead ?n ?i) ?i in m\<lparr>nd_peers := nd_peers m @ [?e2]\<rparr>) else ?n)"
    unfolding first_link [OF assms(1,2,4)] using assms(5) by (simp add: admitted_def admit_peer_def link_to_def Let_def)
  let ?m = "close_peer W (mark_dead ?n ?i) ?i"
  obtain net fd where m: "?m = ?n\<lparr>nd_net := net, nd_store := nd_store n @ [p1\<lparr>pr_alive := False, pr_socket := fd\<rparr>, p2]\<rparr>"
    by (cases "close_socket (w_tcp W) (nd_net ?n) (pr_socket p1)") (auto simp: close_peer_def mark_dead_def nth_append list_update_append)
  have "links ?n host ?port = [out]"
    using assms(3,4) none [of ?n] by (simp add: links_def duplicate_of_def link_to_def nth_append)
  moreover have "links (?m\<lparr>nd_peers := nd_peers ?m @ [?e2]\<rparr>) host ?port = [\<not> out]"
    using assms(3,5) none [of "?m\<lparr>nd_peers := nd_peers ?m @ [?e2]\<rparr>"] unfolding m by (simp add: links_def duplicate_of_def link_to_def nth_append)
  ultimately show ?thesis unfolding adm by (auto simp: Let_def)
qed

section \<open>Property\<close>

text \<open>C19: Crossed connections. Two nodes with different identities dial each other at the same time, so each gets two
  connections to the other, in either order and independently of the order at the other end. Afterwards each
  keeps exactly one of them, and it is the same connection at both ends: the one dialled by the node with the
  smaller identity.\<close>

theorem crossed_connections_agree:
  fixes a :: "('db, 'net) Node" and b :: "('db2, 'net2) Node"
  assumes "node_inv W S a" and "node_inv W' S b" and "vi_node_id (nd_info a) \<noteq> vi_node_id (nd_info b)"
    and "links a host_b (vi_listen_port (nd_info b)) = []" and "links b host_a (vi_listen_port (nd_info a)) = []"
    and "vi_listen_port (nd_info a) \<noteq> 0" and "vi_listen_port (nd_info b) \<noteq> 0"
    and "link_to (nd_info b) host_b p1" and "link_to (nd_info b) host_b p2"
    and "link_to (nd_info a) host_a q1" and "link_to (nd_info a) host_a q2"
  shows "links (admitted W (admitted W a p1 out) p2 (\<not> out)) host_b (vi_listen_port (nd_info b)) =
      [vi_node_id (nd_info a) < vi_node_id (nd_info b)] \<and>
    links (admitted W' (admitted W' b q1 out') q2 (\<not> out')) host_a (vi_listen_port (nd_info a)) =
      [\<not> vi_node_id (nd_info a) < vi_node_id (nd_info b)]"
proof -
  have "conns_ok a" "conns_ok b" using assms(1,2) by (simp_all add: node_inv_def)
  from second_link [OF this(1) assms(4,7,8,9), of W out] second_link [OF this(2) assms(5,6,10,11), of W' out'] assms(3)
  show ?thesis by auto
qed

definition crossed_node :: "u64 \<Rightarrow> u16 \<Rightarrow> (mem_db, mem_net) Node" where
  "crossed_node node_id port = new_Node 0 quiet_net port (sample_version\<lparr>vi_node_id := node_id, vi_listen_port := port\<rparr>) (sample_manager None)"

theorem crossed_connections_agree_witness:
  "let a = crossed_node 1 8000; b = crossed_node 2 9000;
       to_b = new_Peer 0 3 (nd_info b) ''10.0.0.2''; to_a = new_Peer 0 3 (nd_info a) ''10.0.0.1''
   in links (admitted sample_world (admitted sample_world a to_b True) to_b False) ''10.0.0.2'' 9000 = [True] \<and>
      links (admitted sample_world (admitted sample_world b to_a False) to_a True) ''10.0.0.1'' 8000 = [False]"
proof -
  let ?a = "crossed_node 1 8000" and ?b = "crossed_node 2 9000"
  have inv: "node_inv sample_world sample_universe ?a" "node_inv sample_world sample_universe ?b"
    using sample_manager_inv [of None]
    by (simp_all add: sample_world_def crossed_node_def node_inv_def new_Node_def conns_ok_def book_inv_def sync_ok_def new_SyncState_def)
  have "vi_node_id (nd_info ?a) \<noteq> vi_node_id (nd_info ?b)" "links ?a ''10.0.0.2'' (vi_listen_port (nd_info ?b)) = []"
    "links ?b ''10.0.0.1'' (vi_listen_port (nd_info ?a)) = []" "vi_listen_port (nd_info ?a) \<noteq> 0" "vi_listen_port (nd_info ?b) \<noteq> 0"
    "link_to (nd_info ?b) ''10.0.0.2'' (new_Peer 0 3 (nd_info ?b) ''10.0.0.2'')"
    "link_to (nd_info ?b) ''10.0.0.2'' (new_Peer 0 3 (nd_info ?b) ''10.0.0.2'')"
    "link_to (nd_info ?a) ''10.0.0.1'' (new_Peer 0 3 (nd_info ?a) ''10.0.0.1'')"
    "link_to (nd_info ?a) ''10.0.0.1'' (new_Peer 0 3 (nd_info ?a) ''10.0.0.1'')"
    by (simp_all add: crossed_node_def new_Node_def links_def link_to_def new_Peer_def)
  from crossed_connections_agree [OF inv this, of True False]
  show ?thesis by (simp add: crossed_node_def new_Node_def Let_def)
qed

end
