(* ===== verification/FC_Handles.thy ===== *)
theory FC_Handles
  imports FC_Tcp FC_Storage
begin

text \<open>
  The classes that own a handle of the operating system or of SQLite: \<open>TcpSocket\<close>
  (src/src/network/TcpSocket.cpp), \<open>SqliteConnection\<close> and \<open>SqliteStatement\<close> (src/src/storage). Each holds
  one field, closes it in its destructor and gives it up when moved from. A class is the record of what its
  special members do to the fields; the laws they share are the locale \<open>owner\<close>, proved once to imply that no
  handle is released twice and none is lost, and interpreted for the three classes.
\<close>

section \<open>The special members\<close>

text \<open>\<open>rel\<close> is the call that releases a handle; \<open>same\<close> says whether both operands are the same object.\<close>

definition tcp_move :: "int \<Rightarrow> int \<times> int" where
  "tcp_move other = (other, - 1)"

definition tcp_assign :: "'net tcp \<Rightarrow> 'net \<Rightarrow> bool \<Rightarrow> int \<Rightarrow> int \<Rightarrow> 'net \<times> int \<times> int" where
  "tcp_assign T net same fd other =
     (if \<not> same then (if is_valid fd then tcp_close T net fd else net, other, - 1) else (net, fd, other))"

type_synonym 'p pointer = "'p option"

definition conn_close :: "('s \<Rightarrow> 'p \<Rightarrow> 's) \<Rightarrow> 's \<Rightarrow> 'p pointer \<Rightarrow> 's \<times> 'p pointer" where
  "conn_close rel s db = (case db of None \<Rightarrow> (s, None) | Some p \<Rightarrow> (rel s p, None))"

definition SQLITE_OK :: int where "SQLITE_OK = 0"

definition conn_open :: "('s \<Rightarrow> 'p \<Rightarrow> 's) \<Rightarrow> 's \<Rightarrow> int \<Rightarrow> 'p pointer \<Rightarrow> 's \<times> 'p pointer" where
  "conn_open rel s res db = (if res \<noteq> SQLITE_OK then conn_close rel s db else (s, db))"

definition conn_move :: "'p pointer \<Rightarrow> 'p pointer \<times> 'p pointer" where
  "conn_move other = (other, None)"

definition conn_assign ::
  "('s \<Rightarrow> 'p \<Rightarrow> 's) \<Rightarrow> 's \<Rightarrow> bool \<Rightarrow> 'p pointer \<Rightarrow> 'p pointer \<Rightarrow> 's \<times> 'p pointer \<times> 'p pointer" where
  "conn_assign rel s same db other =
     (if \<not> same then (case conn_close rel s db of (s, _) \<Rightarrow> (s, other, None)) else (s, db, other))"

definition stmt_close :: "('s \<Rightarrow> 'p \<Rightarrow> 's) \<Rightarrow> 's \<Rightarrow> 'p pointer \<Rightarrow> 's \<times> 'p pointer" where
  "stmt_close rel s stmt = (case stmt of None \<Rightarrow> (s, None) | Some p \<Rightarrow> (rel s p, None))"

definition stmt_prepare :: "('s \<Rightarrow> 'p \<Rightarrow> 's) \<Rightarrow> 's \<Rightarrow> int \<Rightarrow> 'p pointer \<Rightarrow> 's \<times> 'p pointer" where
  "stmt_prepare rel s res stmt = (if res \<noteq> SQLITE_OK then stmt_close rel s stmt else (s, stmt))"

definition stmt_move :: "'p pointer \<Rightarrow> 'p pointer \<times> 'p pointer" where
  "stmt_move other = (other, None)"

definition stmt_assign ::
  "('s \<Rightarrow> 'p \<Rightarrow> 's) \<Rightarrow> 's \<Rightarrow> bool \<Rightarrow> 'p pointer \<Rightarrow> 'p pointer \<Rightarrow> 's \<times> 'p pointer \<times> 'p pointer" where
  "stmt_assign rel s same stmt other =
     (if \<not> same then (case stmt_close rel s stmt of (s, _) \<Rightarrow> (s, other, None)) else (s, stmt, other))"

section \<open>Programs over owning objects\<close>

text \<open>
  The handles that are open, and whether one was released that was not open. \<open>'f\<close> is the type of the field,
  \<open>'h\<close> that of the handles; \<open>hc_handle\<close> is the handle a field refers to, if any.
\<close>

type_synonym 'h handles = "'h set \<times> bool"

definition release :: "'h handles \<Rightarrow> 'h \<Rightarrow> 'h handles" where
  "release s h = (fst s - {h}, snd s \<or> h \<notin> fst s)"

record ('f, 'h) handle_class =
  hc_handle :: "'f \<Rightarrow> 'h option"
  hc_create :: "'h handles \<Rightarrow> int \<Rightarrow> 'f \<Rightarrow> 'h handles \<times> 'f"
  hc_close :: "'h handles \<Rightarrow> 'f \<Rightarrow> 'h handles \<times> 'f"
  hc_move :: "'f \<Rightarrow> 'f \<times> 'f"
  hc_assign :: "'h handles \<Rightarrow> bool \<Rightarrow> 'f \<Rightarrow> 'f \<Rightarrow> 'h handles \<times> 'f \<times> 'f"

definition tcp_class :: "int handles tcp \<Rightarrow> (int, int) handle_class" where
  "tcp_class T =
     (let T = T\<lparr>tcp_close := release\<rparr> in
      \<lparr>hc_handle = (\<lambda>fd. if is_valid fd then Some fd else None), hc_create = (\<lambda>s _ fd. (s, fd)),
       hc_close = close_socket T, hc_move = tcp_move, hc_assign = tcp_assign T\<rparr>)"

definition conn_class :: "('p pointer, 'p) handle_class" where
  "conn_class = \<lparr>hc_handle = id, hc_create = conn_open release, hc_close = conn_close release,
     hc_move = conn_move, hc_assign = conn_assign release\<rparr>"

definition stmt_class :: "('p pointer, 'p) handle_class" where
  "stmt_class = \<lparr>hc_handle = id, hc_create = stmt_prepare release, hc_close = stmt_close release,
     hc_move = stmt_move, hc_assign = stmt_assign release\<rparr>"

text \<open>
  What a program may do with the objects of one class: construct one from what the system returned, a code and
  a field whose handle is new, or by moving from another; assign by move; close early; destroy. \<open>objs\<close> holds
  the objects that are alive.
\<close>

inductive own_step ::
  "('f, 'h) handle_class \<Rightarrow> (nat \<Rightarrow> 'f option) \<times> 'h handles \<Rightarrow> (nat \<Rightarrow> 'f option) \<times> 'h handles \<Rightarrow> bool"
  for K :: "('f, 'h) handle_class" where
  create: "objs i = None \<Longrightarrow> set_option (hc_handle K raw) \<inter> fst s = {} \<Longrightarrow>
    hc_create K (set_option (hc_handle K raw) \<union> fst s, snd s) res raw = (s', f) \<Longrightarrow>
    own_step K (objs, s) (objs(i \<mapsto> f), s')"
| move: "objs i = None \<Longrightarrow> objs j = Some other \<Longrightarrow> hc_move K other = (f, other') \<Longrightarrow>
    own_step K (objs, s) (objs(j \<mapsto> other', i \<mapsto> f), s)"
| assign: "objs i = Some f \<Longrightarrow> objs j = Some other \<Longrightarrow> hc_assign K s (i = j) f other = (s', f', other') \<Longrightarrow>
    own_step K (objs, s) (objs(j \<mapsto> other', i \<mapsto> f'), s')"
| close: "objs i = Some f \<Longrightarrow> hc_close K s f = (s', f') \<Longrightarrow> own_step K (objs, s) (objs(i \<mapsto> f'), s')"
| destroy: "objs i = Some f \<Longrightarrow> hc_close K s f = (s', f') \<Longrightarrow> own_step K (objs, s) (objs(i := None), s')"

text \<open>Every open handle belongs to exactly one object alive, and nothing was released twice.\<close>

definition held :: "('f, 'h) handle_class \<Rightarrow> (nat \<Rightarrow> 'f option) \<Rightarrow> nat \<Rightarrow> 'h option" where
  "held K objs i = Option.bind (objs i) (hc_handle K)"

definition own_inv :: "('f, 'h) handle_class \<Rightarrow> (nat \<Rightarrow> 'f option) \<times> 'h handles \<Rightarrow> bool" where
  "own_inv K = (\<lambda>(objs, s). \<not> snd s \<and> fst s = ran (held K objs) \<and> inj_on (held K objs) (dom (held K objs)))"

lemma held_upd [simp]: "held K (objs(i := g)) = (held K objs)(i := Option.bind g (hc_handle K))"
  by (auto simp: held_def)

lemma unique_drop:
  assumes "inj_on H (dom H)" and "H i = Some h"
  shows "ran (H(i := None)) = ran H - {h}" and "inj_on (H(i := None)) (dom (H(i := None)))"
proof -
  have "H k = Some x \<and> x \<noteq> h \<longleftrightarrow> k \<noteq> i \<and> H k = Some x" for k x
    using assms(2) inj_onD [OF assms(1), of k i] by (metis domI option.inject)
  then have "(\<exists>k. (H(i := None)) k = Some x) \<longleftrightarrow> (\<exists>k. H k = Some x) \<and> x \<noteq> h" for x
    by (metis fun_upd_other fun_upd_same option.distinct(1))
  then show "ran (H(i := None)) = ran H - {h}" unfolding ran_def by blast
  show "inj_on (H(i := None)) (dom (H(i := None)))"
    using assms(1) by (simp add: inj_on_def)
qed

lemma unique_add: "inj_on H (dom H) \<Longrightarrow> h \<notin> ran H \<Longrightarrow> inj_on (H(i \<mapsto> h)) (dom (H(i \<mapsto> h)))"
  by (rule inj_onI) (auto simp: ran_def split: if_splits dest: inj_onD)

lemma unique_hand_over:
  assumes "inj_on H (dom H)" and "H i = None" and "i \<noteq> j"
  shows "ran (H(j := None, i := H j)) = ran H" and "inj_on (H(j := None, i := H j)) (dom (H(j := None, i := H j)))"
proof -
  have "x \<in> ran (H(j := None, i := H j))" if "H a = Some x" for a x
    using that assms(2,3) by (auto simp: ran_def intro!: exI [of _ "if a = j then i else a"] split: if_splits)
  then have "ran H \<subseteq> ran (H(j := None, i := H j))" unfolding ran_def [of H] by blast
  moreover have "ran (H(j := None, i := H j)) \<subseteq> ran H" by (auto simp: ran_def split: if_splits)
  ultimately show "ran (H(j := None, i := H j)) = ran H" by blast
  show "inj_on (H(j := None, i := H j)) (dom (H(j := None, i := H j)))"
  proof (rule inj_onI)
    fix a b
    assume d: "a \<in> dom (H(j := None, i := H j))" "b \<in> dom (H(j := None, i := H j))"
      and e: "(H(j := None, i := H j)) a = (H(j := None, i := H j)) b"
    let ?at = "\<lambda>a. if a = i then j else a"
    have ne: "x \<noteq> j" if "x \<in> dom (H(j := None, i := H j))" for x using that assms(3) by (metis domIff fun_upd_apply)
    have at: "(H(j := None, i := H j)) x = H (?at x)" if "x \<noteq> j" for x using that by simp
    have "a \<noteq> j" "b \<noteq> j" using ne d by blast+
    then have "H (?at a) = H (?at b)" and "?at a \<in> dom H" "?at b \<in> dom H" using at d e by (metis domIff)+
    then have "?at a = ?at b" by (rule inj_onD [OF assms(1)])
    then show "a = b" using \<open>a \<noteq> j\<close> \<open>b \<noteq> j\<close> by (simp split: if_splits)
  qed
qed

section \<open>The contract\<close>

locale owner =
  fixes K :: "('f, 'h) handle_class"
  assumes close_law: "hc_close K s f = (s', f') \<Longrightarrow>
      hc_handle K f' = None \<and> s' = (case hc_handle K f of None \<Rightarrow> s | Some h \<Rightarrow> release s h)"
    and create_law: "hc_create K s res f = (s', f') \<Longrightarrow> (s', f') = (s, f) \<or> (s', f') = hc_close K s f"
    and move_law: "hc_move K other = (f, other') \<Longrightarrow> f = other \<and> hc_handle K other' = None"
    and assign_law: "hc_assign K s False f other = (s', f', other') \<Longrightarrow>
      f' = other \<and> hc_handle K other' = None \<and> s' = fst (hc_close K s f)"
    and self_assign: "hc_assign K s True f f = (s, f, f)"
begin

text \<open>Giving up the handle of one object, which may stay alive without one.\<close>

lemma own_inv_drop:
  assumes "own_inv K (objs, s)" and "objs i = Some f" and "hc_close K s f = (s', f')"
    and "Option.bind g (hc_handle K) = None"
  shows "own_inv K (objs(i := g), s')"
proof -
  have H: "held K objs i = hc_handle K f" using assms(2) by (simp add: held_def)
  show ?thesis
  proof (cases "hc_handle K f")
    case None
    then show ?thesis using assms(1,4) close_law [OF assms(3)] H by (simp add: own_inv_def fun_upd_idem)
  next
    case (Some h)
    then have i: "held K objs i = Some h" using H by simp
    then have "h \<in> fst s" using assms(1) by (auto simp: own_inv_def ran_def)
    with unique_drop [of "held K objs" i h, OF _ i] assms(1,4) close_law [OF assms(3)] Some show ?thesis
      by (simp add: own_inv_def release_def)
  qed
qed

lemma own_inv_create:
  assumes "own_inv K (objs, s)" and "objs i = None" and "set_option (hc_handle K raw) \<inter> fst s = {}"
  shows "own_inv K (objs(i \<mapsto> raw), set_option (hc_handle K raw) \<union> fst s, snd s)"
proof -
  have "held K objs i = None" using assms(2) by (simp add: held_def)
  then show ?thesis
    using assms(1,3) unique_add [of "held K objs" _ i] by (cases "hc_handle K raw") (auto simp: own_inv_def fun_upd_idem)
qed

lemma own_inv_hand_over:
  assumes "own_inv K (objs, s)" and "held K objs i = None" and "objs j = Some other" and "i \<noteq> j"
    and "hc_handle K other' = None"
  shows "own_inv K (objs(j \<mapsto> other', i \<mapsto> other), s)"
proof -
  have "held K objs j = hc_handle K other" using assms(3) by (simp add: held_def)
  then show ?thesis using unique_hand_over [of "held K objs" i j, OF _ assms(2,4)] assms(1,5) by (simp add: own_inv_def)
qed

lemma own_step_inv:
  assumes "own_step K x y" and "own_inv K x"
  shows "own_inv K y"
  using assms
proof cases
  case (create objs i raw s res s' f)
  let ?s = "(set_option (hc_handle K raw) \<union> fst s, snd s)"
  have inv: "own_inv K (objs(i \<mapsto> raw), ?s)" using own_inv_create [of objs s i raw, OF _ create(3,4)] assms(2) create(1) by simp
  show ?thesis
  proof (cases "(s', f) = (?s, raw)")
    case True
    then show ?thesis using inv create(2) by simp
  next
    case False
    then have c: "hc_close K ?s raw = (s', f)" using create_law [OF create(5)] by metis
    have "own_inv K ((objs(i \<mapsto> raw))(i := Some f), s')"
      using close_law [OF c] by (intro own_inv_drop [OF inv _ c]) simp_all
    then show ?thesis using create(2) by simp
  qed
next
  case (move objs i j other f other' s)
  then have "i \<noteq> j" by auto
  with move show ?thesis
    using own_inv_hand_over [of objs s i j other other'] move_law [OF move(5)] assms(2) by (auto simp: held_def)
next
  case (assign objs i f j other s s' f' other')
  show ?thesis
  proof (cases "i = j")
    case True
    then have "(s', f', other') = (s, f, f)" using assign(3-5) self_assign by auto
    then show ?thesis using assms(2) assign True by (simp add: fun_upd_idem)
  next
    case False
    then have a: "f' = other" "hc_handle K other' = None" "s' = fst (hc_close K s f)"
      using assign_law assign(5) by auto
    obtain g where c: "hc_close K s f = (s', g)" using a(3) by (cases "hc_close K s f") auto
    have "own_inv K (objs(i \<mapsto> g), s')"
      using own_inv_drop [of objs s i f, OF _ assign(3) c] assms(2) assign(1) close_law [OF c] by simp
    from own_inv_hand_over [OF this, of i j other other'] show ?thesis
      using a(1,2) False assign(2,4) close_law [OF c] by (simp add: held_def)
  qed
next
  case (close objs i f s s' f')
  then show ?thesis using own_inv_drop [of objs s i f s' f' "Some f'", OF _ close(3,4)] close_law [OF close(4)] assms(2) by simp
next
  case (destroy objs i f s s' f')
  then show ?thesis using own_inv_drop [of objs s i f s' f' None, OF _ destroy(3,4)] assms(2) by simp
qed

lemma own_reach_inv: "rtranclp (own_step K) (Map.empty, {}, False) x \<Longrightarrow> own_inv K x"
proof (induction rule: rtranclp_induct)
  case base
  show ?case by (simp add: own_inv_def held_def [abs_def])
qed (rule own_step_inv)

lemma released_once:
  assumes "rtranclp (own_step K) (Map.empty, {}, False) (objs, opened, twice)"
  shows "\<not> twice \<and> opened = {h. \<exists>i f. objs i = Some f \<and> hc_handle K f = Some h} \<and>
    (\<forall>i j f g h. objs i = Some f \<longrightarrow> objs j = Some g \<longrightarrow> hc_handle K f = Some h \<longrightarrow> hc_handle K g = Some h \<longrightarrow> i = j)"
proof -
  have inv: "\<not> twice" "opened = ran (held K objs)" "inj_on (held K objs) (dom (held K objs))"
    using own_reach_inv [OF assms] by (simp_all add: own_inv_def)
  have "i = j" if "objs i = Some f" "objs j = Some g" "hc_handle K f = Some h" "hc_handle K g = Some h" for i j f g h
    using that by (intro inj_onD [OF inv(3), of i j]) (simp_all add: held_def domI)
  moreover have "ran (held K objs) = {h. \<exists>i f. objs i = Some f \<and> hc_handle K f = Some h}"
    by (simp add: ran_def held_def bind_eq_Some_conv)
  ultimately show ?thesis using inv(1,2) by blast
qed

end

interpretation tcp_owner: owner "tcp_class T" for T
  by unfold_locales
    (auto simp: tcp_class_def Let_def close_socket_def is_valid_def tcp_move_def tcp_assign_def split: if_splits)

interpretation conn_owner: owner conn_class
  by unfold_locales
    (auto simp: conn_class_def conn_close_def conn_open_def conn_move_def conn_assign_def split: if_splits option.splits)

interpretation stmt_owner: owner stmt_class
  by unfold_locales
    (auto simp: stmt_class_def stmt_close_def stmt_prepare_def stmt_move_def stmt_assign_def split: if_splits option.splits)

text \<open>C18: Sockets, database connections and prepared statements are released exactly once. However a program
  constructs, moves, assigns, closes and destroys objects of these classes, failed constructions included, no
  handle is released that is not open, every open handle belongs to exactly one object that is alive, and so
  none is left open when all objects are gone.\<close>

theorem handles_released_once:
  "(rtranclp (own_step (tcp_class T)) (Map.empty, {}, False) (socks, opened1, twice1) \<longrightarrow>
      \<not> twice1 \<and> opened1 = {fd. fd \<ge> 0 \<and> fd \<in> ran socks} \<and>
      (\<forall>i j fd. socks i = Some fd \<and> socks j = Some fd \<and> fd \<ge> 0 \<longrightarrow> i = j)) \<and>
   (rtranclp (own_step conn_class) (Map.empty, {}, False) (conns, opened2, twice2) \<longrightarrow>
      \<not> twice2 \<and> opened2 = {p. Some p \<in> ran conns} \<and>
      (\<forall>i j p. conns i = Some (Some p) \<and> conns j = Some (Some p) \<longrightarrow> i = j)) \<and>
   (rtranclp (own_step stmt_class) (Map.empty, {}, False) (stmts, opened3, twice3) \<longrightarrow>
      \<not> twice3 \<and> opened3 = {p. Some p \<in> ran stmts} \<and>
      (\<forall>i j p. stmts i = Some (Some p) \<and> stmts j = Some (Some p) \<longrightarrow> i = j))"
proof (rule conjI [OF impI conjI [OF impI impI]])
  assume "rtranclp (own_step (tcp_class T)) (Map.empty, {}, False) (socks, opened1, twice1)"
  from tcp_owner.released_once [OF this]
  show "\<not> twice1 \<and> opened1 = {fd. fd \<ge> 0 \<and> fd \<in> ran socks} \<and>
      (\<forall>i j fd. socks i = Some fd \<and> socks j = Some fd \<and> fd \<ge> 0 \<longrightarrow> i = j)"
    by (auto simp: tcp_class_def Let_def is_valid_def ran_def split: if_splits)
next
  assume "rtranclp (own_step conn_class) (Map.empty, {}, False) (conns, opened2, twice2)"
  from conn_owner.released_once [OF this]
  show "\<not> twice2 \<and> opened2 = {p. Some p \<in> ran conns} \<and>
      (\<forall>i j p. conns i = Some (Some p) \<and> conns j = Some (Some p) \<longrightarrow> i = j)"
    by (auto simp: conn_class_def ran_def)
next
  assume "rtranclp (own_step stmt_class) (Map.empty, {}, False) (stmts, opened3, twice3)"
  from stmt_owner.released_once [OF this]
  show "\<not> twice3 \<and> opened3 = {p. Some p \<in> ran stmts} \<and>
      (\<forall>i j p. stmts i = Some (Some p) \<and> stmts j = Some (Some p) \<longrightarrow> i = j)"
    by (auto simp: stmt_class_def ran_def)
qed

theorem handles_released_once_witness:
  "\<forall>T. rtranclp (own_step (tcp_class T)) (Map.empty, {}, False) ([0 \<mapsto> - 1, 1 \<mapsto> 5], {5}, False) \<and>
     {5} = {fd. fd \<ge> 0 \<and> fd \<in> ran [0::nat \<mapsto> - 1, 1 \<mapsto> (5::int)]}"
proof
  fix T :: "int handles tcp"
  let ?K = "tcp_class T"
  have 1: "own_step ?K (Map.empty, {}, False) ([0 \<mapsto> 5], {5}, False)"
    by (rule own_step.create [where raw = 5]) (simp_all add: tcp_class_def is_valid_def Let_def)
  have 2: "own_step ?K ([0 \<mapsto> 5], {5}, False) ([0 \<mapsto> 5, 0 \<mapsto> - 1, 1 \<mapsto> 5], {5}, False)"
    by (rule own_step.move [where other = 5]) (simp_all add: tcp_class_def tcp_move_def Let_def)
  have run: "rtranclp (own_step ?K) (Map.empty, {}, False) ([0 \<mapsto> - 1, 1 \<mapsto> 5], {5}, False)"
    using rtranclp.rtrancl_into_rtrancl [OF r_into_rtranclp [of "own_step ?K", OF 1] 2] by simp
  show "rtranclp (own_step ?K) (Map.empty, {}, False) ([0 \<mapsto> - 1, 1 \<mapsto> 5], {5}, False) \<and>
      {5} = {fd. fd \<ge> 0 \<and> fd \<in> ran [0::nat \<mapsto> - 1, 1 \<mapsto> (5::int)]}"
    using conjunct1 [OF handles_released_once [of T "[0 \<mapsto> - 1, 1 \<mapsto> 5]" "{5}" False], THEN mp, OF run] run by blast
qed

end
