(* ===== verification/FC_Sqlite.thy ===== *)
theory FC_Sqlite
  imports FC_Handles
begin

text \<open>
  src/src/storage/SqliteStatement.cpp, src/src/storage/SqliteConnection.cpp and the operations of
  src/src/storage/Storage.cpp as the sequence of sqlite3 calls they make. The library is a parameter, a record of its
  functions on the state of the engine. The operations are proved to do what those of FC_Storage do, and to finalize
  every statement they prepare on every path.
\<close>

section \<open>The sqlite3 functions\<close>

record 's sqlite_api =
  sq_open :: "'s \<Rightarrow> str \<Rightarrow> 's \<times> int \<times> nat pointer"
  sq_close :: "'s \<Rightarrow> nat \<Rightarrow> 's"
  sq_prepare_v2 :: "'s \<Rightarrow> nat pointer \<Rightarrow> str \<Rightarrow> 's \<times> int \<times> nat pointer"
  sq_bind_int64 :: "'s \<Rightarrow> nat pointer \<Rightarrow> int \<Rightarrow> int \<Rightarrow> 's"
  sq_bind_blob :: "'s \<Rightarrow> nat pointer \<Rightarrow> int \<Rightarrow> bytes \<Rightarrow> int \<Rightarrow> 's"
  sq_bind_text :: "'s \<Rightarrow> nat pointer \<Rightarrow> int \<Rightarrow> str \<Rightarrow> 's"
  sq_step :: "'s \<Rightarrow> nat pointer \<Rightarrow> 's \<times> int"
  sq_column_int64 :: "'s \<Rightarrow> nat pointer \<Rightarrow> int \<Rightarrow> int"
  sq_column_bytes :: "'s \<Rightarrow> nat pointer \<Rightarrow> int \<Rightarrow> int"
  sq_column_blob :: "'s \<Rightarrow> nat pointer \<Rightarrow> int \<Rightarrow> bytes"
  sq_column_text :: "'s \<Rightarrow> nat pointer \<Rightarrow> int \<Rightarrow> str option"
  sq_finalize :: "'s \<Rightarrow> nat \<Rightarrow> 's"

definition SQLITE_ROW :: int where "SQLITE_ROW = 100"
definition SQLITE_DONE :: int where "SQLITE_DONE = 101"

section \<open>SqliteConnection and SqliteStatement\<close>

definition new_SqliteConnection :: "'s sqlite_api \<Rightarrow> 's \<Rightarrow> str \<Rightarrow> 's \<times> nat pointer" where
  "new_SqliteConnection A s path = (case sq_open A s (c_str path) of (s, res, db) \<Rightarrow> conn_open (sq_close A) s res db)"

definition conn_is_valid :: "'p pointer \<Rightarrow> bool" where
  "conn_is_valid db \<longleftrightarrow> db \<noteq> None"

definition new_SqliteStatement :: "'s sqlite_api \<Rightarrow> nat pointer \<Rightarrow> 's \<Rightarrow> str \<Rightarrow> 's \<times> nat pointer" where
  "new_SqliteStatement A c s sql =
     (case sq_prepare_v2 A s c (c_str sql) of (s, res, stmt) \<Rightarrow> stmt_prepare (sq_finalize A) s res stmt)"

definition stmt_is_valid :: "'p pointer \<Rightarrow> bool" where
  "stmt_is_valid stmt \<longleftrightarrow> stmt \<noteq> None"

definition bind_int_64 :: "'s sqlite_api \<Rightarrow> 's \<Rightarrow> nat pointer \<Rightarrow> int \<Rightarrow> u64 \<Rightarrow> 's" where
  "bind_int_64 A s stmt index val = sq_bind_int64 A s stmt index (sint val)"

definition bind_blob :: "'s sqlite_api \<Rightarrow> 's \<Rightarrow> nat pointer \<Rightarrow> int \<Rightarrow> bytes \<Rightarrow> 's" where
  "bind_blob A s stmt index data = sq_bind_blob A s stmt index data (sint (word_of_nat (length data) :: 32 word))"

definition bind_text :: "'s sqlite_api \<Rightarrow> 's \<Rightarrow> nat pointer \<Rightarrow> int \<Rightarrow> str \<Rightarrow> 's" where
  "bind_text A s stmt index val = sq_bind_text A s stmt index (c_str val)"

definition stmt_step :: "'s sqlite_api \<Rightarrow> 's \<Rightarrow> nat pointer \<Rightarrow> 's \<times> int" where
  "stmt_step A s stmt = sq_step A s stmt"

definition column_int64 :: "'s sqlite_api \<Rightarrow> 's \<Rightarrow> nat pointer \<Rightarrow> int \<Rightarrow> int" where
  "column_int64 A s stmt index = sq_column_int64 A s stmt index"

definition column_blob :: "'s sqlite_api \<Rightarrow> 's \<Rightarrow> nat pointer \<Rightarrow> int \<Rightarrow> bytes" where
  "column_blob A s stmt index =
     (let size = sq_column_bytes A s stmt index; data = sq_column_blob A s stmt index in take (nat size) data)"

definition column_text :: "'s sqlite_api \<Rightarrow> 's \<Rightarrow> nat pointer \<Rightarrow> int \<Rightarrow> str" where
  "column_text A s stmt index = (case sq_column_text A s stmt index of None \<Rightarrow> [] | Some txt \<Rightarrow> c_str txt)"

text \<open>A statement object lives until the end of its block, however the block ends.\<close>

definition scoped :: "'s sqlite_api \<Rightarrow> nat pointer \<Rightarrow> 's \<Rightarrow> str \<Rightarrow> ('s \<Rightarrow> nat pointer \<Rightarrow> 's \<times> 'r) \<Rightarrow> 's \<times> 'r" where
  "scoped A c s sql body =
     (case new_SqliteStatement A c s sql of (s, stmt) \<Rightarrow>
      case body s stmt of (s, r) \<Rightarrow> (fst (stmt_close (sq_finalize A) s stmt), r))"

section \<open>The texts of the statements\<close>

fun sql_text :: "sql \<Rightarrow> str" where
  "sql_text (Insert_block _ _ _) = ''INSERT OR REPLACE INTO blocks (height, hash, serialized) VALUES (?, ?, ?)''"
| "sql_text (Select_block _) = ''SELECT serialized FROM blocks WHERE height = ?''"
| "sql_text Count_blocks = ''SELECT COUNT(*) FROM blocks''"
| "sql_text (Delete_blocks_from _) = ''DELETE FROM blocks WHERE height >= ?''"
| "sql_text Begin_tx = ''BEGIN''"
| "sql_text Commit_tx = ''COMMIT''"
| "sql_text Rollback_tx = ''ROLLBACK''"
| "sql_text (Insert_balance _ _) = ''INSERT OR REPLACE INTO balances (address, amount) VALUES (?, ?)''"
| "sql_text (Select_balance _) = ''SELECT amount FROM balances WHERE address = ?''"
| "sql_text Select_balances = ''SELECT address, amount FROM balances''"
| "sql_text Create_blocks = ''CREATE TABLE IF NOT EXISTS blocks (height INTEGER PRIMARY KEY, hash BLOB NOT NULL UNIQUE, serialized BLOB NOT NULL)''"
| "sql_text Create_balances = ''CREATE TABLE IF NOT EXISTS balances (address TEXT PRIMARY KEY, amount INTEGER NOT NULL)''"

section \<open>The operations of Storage\<close>

text \<open>A statement object, its bindings, and one step that must end with \<open>SQLITE_DONE\<close>.\<close>

definition exec_calls ::
  "'s sqlite_api \<Rightarrow> nat pointer \<Rightarrow> 's \<Rightarrow> str \<Rightarrow> ('s \<Rightarrow> nat pointer \<Rightarrow> 's) \<Rightarrow> string \<Rightarrow> string \<Rightarrow>
    ('s \<Rightarrow> 's \<times> unit result) \<Rightarrow> 's \<times> unit result" where
  "exec_calls A c s sql binds prepare_msg step_msg rest =
     scoped A c s sql (\<lambda>s stmt.
       if \<not> stmt_is_valid stmt then (s, Inl (Runtime_error prepare_msg))
       else (case stmt_step A (binds s stmt) stmt of (s, rc) \<Rightarrow>
             if rc \<noteq> SQLITE_DONE then (s, Inl (Runtime_error step_msg)) else rest s))"

definition create_schema_calls :: "'s sqlite_api \<Rightarrow> nat pointer \<Rightarrow> 's \<Rightarrow> 's \<times> unit result" where
  "create_schema_calls A c s =
     exec_calls A c s
       ''CREATE TABLE IF NOT EXISTS blocks (height INTEGER PRIMARY KEY, hash BLOB NOT NULL UNIQUE, serialized BLOB NOT NULL)''
       (\<lambda>s stmt. s) ''failed to prepare blocks table schema'' ''failed to create blocks table'' (\<lambda>s.
     exec_calls A c s ''CREATE TABLE IF NOT EXISTS balances (address TEXT PRIMARY KEY, amount INTEGER NOT NULL)''
       (\<lambda>s stmt. s) ''failed to prepare balances table schema'' ''failed to create balances table'' (\<lambda>s. (s, Inr ())))"

text \<open>The constructor; when it throws, its connection member is destroyed.\<close>

definition new_Storage_calls :: "'s sqlite_api \<Rightarrow> 's \<Rightarrow> str \<Rightarrow> 's \<times> nat pointer result" where
  "new_Storage_calls A s path =
     (case new_SqliteConnection A s path of (s, c) \<Rightarrow>
      if \<not> conn_is_valid c then (s, Inl (Runtime_error (''failed to open storage database: '' @ path)))
      else (case create_schema_calls A c s of
              (s, Inl e) \<Rightarrow> (fst (conn_close (sq_close A) s c), Inl e)
            | (s, Inr _) \<Rightarrow> (s, Inr c)))"

definition save_block_calls :: "'s sqlite_api \<Rightarrow> nat pointer \<Rightarrow> 's \<Rightarrow> Block \<Rightarrow> nat \<Rightarrow> 's \<times> unit result" where
  "save_block_calls A c s block height =
     exec_calls A c s ''INSERT OR REPLACE INTO blocks (height, hash, serialized) VALUES (?, ?, ?)''
       (\<lambda>s stmt.
          let s = bind_int_64 A s stmt 1 (word_of_nat height);
              s = bind_blob A s stmt 2 (b_hash block) in
          bind_blob A s stmt 3 (block_serialize block))
       ''failed to prepare INSERT for blocks'' ''failed to insert block'' (\<lambda>s. (s, Inr ()))"

definition load_block_calls :: "openssl \<Rightarrow> 's sqlite_api \<Rightarrow> nat pointer \<Rightarrow> 's \<Rightarrow> nat \<Rightarrow> 's \<times> Block option result" where
  "load_block_calls C A c s height =
     scoped A c s ''SELECT serialized FROM blocks WHERE height = ?'' (\<lambda>s stmt.
       if \<not> stmt_is_valid stmt then (s, Inl (Runtime_error ''failed to prepare SELECT for blocks''))
       else (case stmt_step A (bind_int_64 A s stmt 1 (word_of_nat height)) stmt of (s, rc) \<Rightarrow>
             if rc \<noteq> SQLITE_ROW then (s, Inr None)
             else (s, Inr (block_deserialize C (column_blob A s stmt 0)))))"

definition block_count_calls :: "'s sqlite_api \<Rightarrow> nat pointer \<Rightarrow> 's \<Rightarrow> 's \<times> nat result" where
  "block_count_calls A c s =
     scoped A c s ''SELECT COUNT(*) FROM blocks'' (\<lambda>s stmt.
       if \<not> stmt_is_valid stmt then (s, Inl (Runtime_error ''failed to prepare SELECT for block''))
       else (case stmt_step A s stmt of (s, rc) \<Rightarrow>
             if rc \<noteq> SQLITE_ROW then (s, Inl (Runtime_error ''failed to count blocks''))
             else (s, Inr (unat (word_of_int (column_int64 A s stmt 0) :: u64)))))"

definition delete_blocks_from_calls :: "'s sqlite_api \<Rightarrow> nat pointer \<Rightarrow> 's \<Rightarrow> nat \<Rightarrow> 's \<times> unit result" where
  "delete_blocks_from_calls A c s height =
     exec_calls A c s ''DELETE FROM blocks WHERE height >= ?'' (\<lambda>s stmt. bind_int_64 A s stmt 1 (word_of_nat height))
       ''failed to prepare DELETE for blocks'' ''failed to delete blocks'' (\<lambda>s. (s, Inr ()))"

fun save_blocks_calls :: "'s sqlite_api \<Rightarrow> nat pointer \<Rightarrow> 's \<Rightarrow> nat \<Rightarrow> Block list \<Rightarrow> 's \<times> unit result" where
  "save_blocks_calls A c s height [] = (s, Inr ())"
| "save_blocks_calls A c s height (block # blocks) =
     (case save_block_calls A c s block height of
        (s, Inl e) \<Rightarrow> (s, Inl e)
      | (s, Inr _) \<Rightarrow> save_blocks_calls A c s (height + 1) blocks)"

text \<open>The rollback statement is stepped without asking whether it was prepared.\<close>

definition replace_blocks_from_calls :: "'s sqlite_api \<Rightarrow> nat pointer \<Rightarrow> 's \<Rightarrow> nat \<Rightarrow> Block list \<Rightarrow> 's \<times> unit result" where
  "replace_blocks_from_calls A c s height blocks =
     exec_calls A c s ''BEGIN'' (\<lambda>s stmt. s) ''failed to begin transaction'' ''failed to begin transaction'' (\<lambda>s.
       case (case delete_blocks_from_calls A c s height of
               (s, Inl e) \<Rightarrow> (s, Inl e)
             | (s, Inr _) \<Rightarrow> save_blocks_calls A c s height blocks) of
         (s, Inl e) \<Rightarrow> scoped A c s ''ROLLBACK'' (\<lambda>s stmt. (fst (stmt_step A s stmt), Inl e))
       | (s, Inr _) \<Rightarrow>
           exec_calls A c s ''COMMIT'' (\<lambda>s stmt. s) ''failed to commit transaction'' ''failed to commit transaction''
             (\<lambda>s. (s, Inr ())))"

definition save_balance_calls :: "'s sqlite_api \<Rightarrow> nat pointer \<Rightarrow> 's \<Rightarrow> str \<Rightarrow> u64 \<Rightarrow> 's \<times> unit result" where
  "save_balance_calls A c s address amount =
     exec_calls A c s ''INSERT OR REPLACE INTO balances (address, amount) VALUES (?, ?)''
       (\<lambda>s stmt. let s = bind_text A s stmt 1 address in bind_int_64 A s stmt 2 amount)
       ''failed to prepare INSERT for balances'' ''failed to insert balance'' (\<lambda>s. (s, Inr ()))"

definition load_balance_calls :: "'s sqlite_api \<Rightarrow> nat pointer \<Rightarrow> 's \<Rightarrow> str \<Rightarrow> 's \<times> u64 option result" where
  "load_balance_calls A c s address =
     scoped A c s ''SELECT amount FROM balances WHERE address = ?'' (\<lambda>s stmt.
       if \<not> stmt_is_valid stmt then (s, Inl (Runtime_error ''failed to prepare SELECT for balances''))
       else (case stmt_step A (bind_text A s stmt 1 address) stmt of (s, rc) \<Rightarrow>
             if rc \<noteq> SQLITE_ROW then (s, Inr None)
             else (s, Inr (Some (word_of_int (column_int64 A s stmt 0))))))"

text \<open>The loop over the rows; \<open>None\<close> when it never ends.\<close>

partial_function (option) balance_rows ::
  "'s sqlite_api \<Rightarrow> 's \<Rightarrow> nat pointer \<Rightarrow> (str \<times> u64) list \<Rightarrow> ('s \<times> (str \<times> u64) list) option" where
  "balance_rows A s stmt balances =
     (case stmt_step A s stmt of (s, rc) \<Rightarrow>
      if rc = SQLITE_ROW
      then balance_rows A s stmt (balances @ [(column_text A s stmt 0, word_of_int (column_int64 A s stmt 1))])
      else Some (s, balances))"

definition load_all_balances_calls ::
  "'s sqlite_api \<Rightarrow> nat pointer \<Rightarrow> 's \<Rightarrow> ('s \<times> (str \<times> u64) list result) option" where
  "load_all_balances_calls A c s =
     (case new_SqliteStatement A c s ''SELECT address, amount FROM balances'' of (s, stmt) \<Rightarrow>
      if \<not> stmt_is_valid stmt
      then Some (fst (stmt_close (sq_finalize A) s stmt), Inl (Runtime_error ''failed to prepare SELECT for balances''))
      else (case balance_rows A s stmt [] of
              None \<Rightarrow> None
            | Some (s, balances) \<Rightarrow> Some (fst (stmt_close (sq_finalize A) s stmt), Inr balances)))"

section \<open>What the library promises\<close>

datatype sql_value = Integer int | Blob bytes | Text str

text \<open>A statement: its text, the values bound so far, and the rows from the current one on once it has been stepped.\<close>

record statement =
  st_text :: str
  st_bound :: "int \<rightharpoonup> sql_value"
  st_rows :: "sql_value list list option"

text \<open>The database behind the connection and the statements that are not finalized.\<close>

record ('s, 'db) api_view =
  av_db :: "'s \<Rightarrow> 'db"
  av_stmts :: "'s \<Rightarrow> nat \<rightharpoonup> statement"

abbreviation fresh_statement :: "str \<Rightarrow> statement" where
  "fresh_statement txt \<equiv> \<lparr>st_text = txt, st_bound = Map.empty, st_rows = None\<rparr>"

fun sql_args :: "sql \<Rightarrow> int \<rightharpoonup> sql_value" where
  "sql_args (Insert_block h k s) = [1 \<mapsto> Integer h, 2 \<mapsto> Blob k, 3 \<mapsto> Blob s]"
| "sql_args (Select_block h) = [1 \<mapsto> Integer h]"
| "sql_args (Delete_blocks_from h) = [1 \<mapsto> Integer h]"
| "sql_args (Insert_balance a n) = [1 \<mapsto> Text a, 2 \<mapsto> Integer n]"
| "sql_args (Select_balance a) = [1 \<mapsto> Text a]"
| "sql_args _ = Map.empty"

fun outcome_rows :: "sql_outcome \<Rightarrow> sql_value list list" where
  "outcome_rows (Row_blob b) = [[Blob b]]"
| "outcome_rows (Row_int n) = [[Integer n]]"
| "outcome_rows (Rows_balance rows) = map (\<lambda>(a, n). [Text a, Integer n]) rows"
| "outcome_rows _ = []"

text \<open>What each statement may return: a write returns no row, a count is a nonnegative 64-bit integer.\<close>

fun outcome_fits :: "sql \<Rightarrow> sql_outcome \<Rightarrow> bool" where
  "outcome_fits q (Row_blob b) \<longleftrightarrow> (\<exists>h. q = Select_block h)"
| "outcome_fits q (Row_int n) \<longleftrightarrow> (q = Count_blocks \<and> 0 \<le> n \<and> n < 2 ^ 63) \<or> (\<exists>a. q = Select_balance a)"
| "outcome_fits q (Rows_balance rows) \<longleftrightarrow> q = Select_balances"
| "outcome_fits q _ \<longleftrightarrow> True"

definition prepare_laws :: "'s sqlite_api \<Rightarrow> ('s, 'db) api_view \<Rightarrow> 'db sqlite \<Rightarrow> nat pointer \<Rightarrow> bool" where
  "prepare_laws A V Q c \<longleftrightarrow>
     (\<forall>s q s' res stmt. sq_prepare_v2 A s c (sql_text q) = (s', res, stmt) \<longrightarrow> av_db V s' = av_db V s \<and>
        (if res = SQLITE_OK
         then (\<exists>p. stmt = Some p \<and> av_stmts V s p = None \<and> av_stmts V s' = (av_stmts V s)(p \<mapsto> fresh_statement (sql_text q))) \<and>
           snd (Q (av_db V s) q) \<noteq> Not_prepared
         else stmt = None \<and> av_stmts V s' = av_stmts V s \<and> Q (av_db V s) q = (av_db V s, Not_prepared))) \<and>
     (\<forall>s p. av_stmts V s p \<noteq> None \<longrightarrow>
        av_db V (sq_finalize A s p) = av_db V s \<and> av_stmts V (sq_finalize A s p) = (av_stmts V s)(p := None))"

definition binds_value :: "('s, 'db) api_view \<Rightarrow> 's \<Rightarrow> nat \<Rightarrow> int \<Rightarrow> sql_value \<Rightarrow> 's \<Rightarrow> bool" where
  "binds_value V s p i v s' \<longleftrightarrow> (\<forall>st. av_stmts V s p = Some st \<and> st_rows st = None \<longrightarrow>
     av_db V s' = av_db V s \<and> av_stmts V s' = (av_stmts V s)(p \<mapsto> st\<lparr>st_bound := (st_bound st)(i \<mapsto> v)\<rparr>))"

definition bind_laws :: "'s sqlite_api \<Rightarrow> ('s, 'db) api_view \<Rightarrow> bool" where
  "bind_laws A V \<longleftrightarrow>
     (\<forall>s p i n. binds_value V s p i (Integer n) (sq_bind_int64 A s (Some p) i n)) \<and>
     (\<forall>s p i b. b \<noteq> [] \<longrightarrow> binds_value V s p i (Blob b) (sq_bind_blob A s (Some p) i b (int (length b)))) \<and>
     (\<forall>s p i txt. binds_value V s p i (Text txt) (sq_bind_text A s (Some p) i txt))"

definition step_laws :: "'s sqlite_api \<Rightarrow> ('s, 'db) api_view \<Rightarrow> 'db sqlite \<Rightarrow> bool" where
  "step_laws A V Q \<longleftrightarrow>
     (\<forall>s. fst (sq_step A s None) = s) \<and>
     (\<forall>s p q db' res s' rc. av_stmts V s p = Some \<lparr>st_text = sql_text q, st_bound = sql_args q, st_rows = None\<rparr> \<and>
        Q (av_db V s) q = (db', res) \<and> res \<noteq> Not_prepared \<and> sq_step A s (Some p) = (s', rc) \<longrightarrow>
        av_db V s' = db' \<and> outcome_fits q res \<and>
        av_stmts V s' = (av_stmts V s)(p \<mapsto> \<lparr>st_text = sql_text q, st_bound = sql_args q, st_rows = Some (outcome_rows res)\<rparr>) \<and>
        (rc = SQLITE_ROW \<longleftrightarrow> outcome_rows res \<noteq> []) \<and> (q \<noteq> Select_balances \<longrightarrow> (rc = SQLITE_DONE \<longleftrightarrow> res = Done))) \<and>
     (\<forall>s p st r rows s' rc. av_stmts V s p = Some st \<and> st_rows st = Some (r # rows) \<and> sq_step A s (Some p) = (s', rc) \<longrightarrow>
        av_db V s' = av_db V s \<and> av_stmts V s' = (av_stmts V s)(p \<mapsto> st\<lparr>st_rows := Some rows\<rparr>) \<and>
        (rc = SQLITE_ROW \<longleftrightarrow> rows \<noteq> []))"

definition column_laws :: "'s sqlite_api \<Rightarrow> ('s, 'db) api_view \<Rightarrow> bool" where
  "column_laws A V \<longleftrightarrow> (\<forall>s p st r rows i. av_stmts V s p = Some st \<and> st_rows st = Some (r # rows) \<and> i < length r \<longrightarrow>
     (\<forall>n. r ! i = Integer n \<longrightarrow> sq_column_int64 A s (Some p) (int i) = n) \<and>
     (\<forall>b. r ! i = Blob b \<longrightarrow> sq_column_bytes A s (Some p) (int i) = int (length b) \<and> sq_column_blob A s (Some p) (int i) = b) \<and>
     (\<forall>txt. r ! i = Text txt \<longrightarrow> sq_column_text A s (Some p) (int i) = Some txt))"

text \<open>\<open>Q\<close> is what the library does with a whole statement.\<close>

definition api_laws :: "'s sqlite_api \<Rightarrow> ('s, 'db) api_view \<Rightarrow> 'db sqlite \<Rightarrow> nat pointer \<Rightarrow> bool" where
  "api_laws A V Q c \<longleftrightarrow> prepare_laws A V Q c \<and> bind_laws A V \<and> step_laws A V Q \<and> column_laws A V"

section \<open>One statement\<close>

lemma c_str_sql_text [simp]: "c_str (sql_text q) = sql_text q"
  by (cases q) (simp_all add: c_str_def)

lemma prepared_cases [consumes 1, case_names no yes]:
  assumes "api_laws A V Q c"
  obtains (no) s1 where "new_SqliteStatement A c s (sql_text q) = (s1, None)" "av_db V s1 = av_db V s"
      "av_stmts V s1 = av_stmts V s" "Q (av_db V s) q = (av_db V s, Not_prepared)"
  | (yes) s1 p where "new_SqliteStatement A c s (sql_text q) = (s1, Some p)" "av_db V s1 = av_db V s" "av_stmts V s p = None"
      "av_stmts V s1 = (av_stmts V s)(p \<mapsto> fresh_statement (sql_text q))" "snd (Q (av_db V s) q) \<noteq> Not_prepared"
proof -
  obtain s1 res stmt where p: "sq_prepare_v2 A s c (sql_text q) = (s1, res, stmt)" by (cases "sq_prepare_v2 A s c (sql_text q)") auto
  have l: "av_db V s1 = av_db V s \<and> (if res = SQLITE_OK
      then (\<exists>p. stmt = Some p \<and> av_stmts V s p = None \<and> av_stmts V s1 = (av_stmts V s)(p \<mapsto> fresh_statement (sql_text q))) \<and>
        snd (Q (av_db V s) q) \<noteq> Not_prepared
      else stmt = None \<and> av_stmts V s1 = av_stmts V s \<and> Q (av_db V s) q = (av_db V s, Not_prepared))"
    using assms p unfolding api_laws_def prepare_laws_def by blast
  show ?thesis
  proof (cases "res = SQLITE_OK")
    case True
    then show ?thesis using l p by (auto intro: yes simp: new_SqliteStatement_def stmt_prepare_def)
  next
    case False
    then show ?thesis using l p by (auto intro: no simp: new_SqliteStatement_def stmt_prepare_def stmt_close_def)
  qed
qed

text \<open>What a block with one statement object does, from what its body does: the body keeps the other statements.\<close>

lemma scoped_run:
  assumes "api_laws A V Q c" and "scoped A c s (sql_text q) body = (s', r)"
    and "\<And>s1. av_db V s1 = av_db V s \<Longrightarrow> av_stmts V s1 = av_stmts V s \<Longrightarrow> Q (av_db V s) q = (av_db V s, Not_prepared) \<Longrightarrow>
      av_stmts V (fst (body s1 None)) = av_stmts V s \<and> R (av_db V (fst (body s1 None))) (snd (body s1 None))"
    and "\<And>s1 p. av_db V s1 = av_db V s \<Longrightarrow> av_stmts V s p = None \<Longrightarrow>
      av_stmts V s1 = (av_stmts V s)(p \<mapsto> fresh_statement (sql_text q)) \<Longrightarrow> snd (Q (av_db V s) q) \<noteq> Not_prepared \<Longrightarrow>
      (\<exists>st. av_stmts V (fst (body s1 (Some p))) = (av_stmts V s)(p \<mapsto> st)) \<and>
      R (av_db V (fst (body s1 (Some p)))) (snd (body s1 (Some p)))"
  shows "av_stmts V s' = av_stmts V s \<and> R (av_db V s') r"
  using assms(1)
proof (cases rule: prepared_cases [where s = s and q = q])
  case (no s1)
  then have "s' = fst (body s1 None)" "r = snd (body s1 None)"
    using assms(2) by (auto simp: scoped_def stmt_close_def split: prod.splits)
  then show ?thesis using assms(3) no by blast
next
  case (yes s1 p)
  then have b: "s' = sq_finalize A (fst (body s1 (Some p))) p" "r = snd (body s1 (Some p))"
    using assms(2) by (auto simp: scoped_def stmt_close_def split: prod.splits)
  obtain st where st: "av_stmts V (fst (body s1 (Some p))) = (av_stmts V s)(p \<mapsto> st)"
    "R (av_db V (fst (body s1 (Some p)))) (snd (body s1 (Some p)))" using assms(4) yes by blast
  then have "av_stmts V (fst (body s1 (Some p))) p \<noteq> None" by simp
  then have "av_db V s' = av_db V (fst (body s1 (Some p)))" "av_stmts V s' = (av_stmts V (fst (body s1 (Some p))))(p := None)"
    using assms(1) b(1) unfolding api_laws_def prepare_laws_def by blast+
  then show ?thesis using st b(2) yes(3) by (simp add: fun_upd_idem)
qed

text \<open>\<open>binds\<close> binds exactly the values of \<open>q\<close> to a fresh statement.\<close>

definition binds_args :: "('s, 'db) api_view \<Rightarrow> ('s \<Rightarrow> nat pointer \<Rightarrow> 's) \<Rightarrow> sql \<Rightarrow> bool" where
  "binds_args V binds q \<longleftrightarrow> (\<forall>s p. av_stmts V s p = Some (fresh_statement (sql_text q)) \<longrightarrow>
     av_db V (binds s (Some p)) = av_db V s \<and> av_stmts V (binds s (Some p)) =
       (av_stmts V s)(p \<mapsto> \<lparr>st_text = sql_text q, st_bound = sql_args q, st_rows = None\<rparr>))"

lemma first_step:
  assumes "api_laws A V Q c" and "binds_args V binds q" and "av_db V s1 = db"
    and "av_stmts V s1 = m(p \<mapsto> fresh_statement (sql_text q))" and "Q db q = (db', res)" and "res \<noteq> Not_prepared"
  obtains s2 rc where "stmt_step A (binds s1 (Some p)) (Some p) = (s2, rc)" "av_db V s2 = db'"
    "av_stmts V s2 = m(p \<mapsto> \<lparr>st_text = sql_text q, st_bound = sql_args q, st_rows = Some (outcome_rows res)\<rparr>)"
    "outcome_fits q res" "rc = SQLITE_ROW \<longleftrightarrow> outcome_rows res \<noteq> []" "q \<noteq> Select_balances \<longrightarrow> (rc = SQLITE_DONE \<longleftrightarrow> res = Done)"
proof -
  let ?s = "binds s1 (Some p)"
  obtain s2 rc where st: "sq_step A ?s (Some p) = (s2, rc)" by fastforce
  have b: "av_db V ?s = db" "av_stmts V ?s = m(p \<mapsto> \<lparr>st_text = sql_text q, st_bound = sql_args q, st_rows = None\<rparr>)"
    using assms(2-4) unfolding binds_args_def by auto
  have pre: "av_stmts V ?s p = Some \<lparr>st_text = sql_text q, st_bound = sql_args q, st_rows = None\<rparr>" "Q (av_db V ?s) q = (db', res)"
    using b assms(5) by simp_all
  have "step_laws A V Q" using assms(1) by (simp add: api_laws_def)
  then have "av_db V s2 = db' \<and> outcome_fits q res \<and>
      av_stmts V s2 = (av_stmts V ?s)(p \<mapsto> \<lparr>st_text = sql_text q, st_bound = sql_args q, st_rows = Some (outcome_rows res)\<rparr>) \<and>
      (rc = SQLITE_ROW \<longleftrightarrow> outcome_rows res \<noteq> []) \<and> (q \<noteq> Select_balances \<longrightarrow> (rc = SQLITE_DONE \<longleftrightarrow> res = Done))"
    using pre assms(6) st unfolding step_laws_def by blast
  then show ?thesis using that st b(2) by (simp add: stmt_step_def)
qed

text \<open>
  An operation \<open>f\<close> of Storage, made of calls, does what \<open>g\<close> does to the database behind the connection, and leaves no
  statement behind.
\<close>

definition implements ::
  "('s, 'db) api_view \<Rightarrow> ('s \<Rightarrow> 's \<times> 'r) \<Rightarrow> ('db \<Rightarrow> 'db \<times> 'r) \<Rightarrow> bool" where
  "implements V f g \<longleftrightarrow> (\<forall>s s' r. f s = (s', r) \<longrightarrow> g (av_db V s) = (av_db V s', r) \<and> av_stmts V s' = av_stmts V s)"

lemma implements_return: "implements V (\<lambda>s. (s, r)) (\<lambda>db. (db, r))"
  by (simp add: implements_def)

lemma implements_case:
  assumes "implements V f g" and "\<And>e. implements V (h e) (h' e)" and "\<And>x. implements V (k x) (k' x)"
  shows "implements V (\<lambda>s. case f s of (s, Inl e) \<Rightarrow> h e s | (s, Inr x) \<Rightarrow> k x s)
    (\<lambda>db. case g db of (db, Inl e) \<Rightarrow> h' e db | (db, Inr x) \<Rightarrow> k' x db)"
  using assms unfolding implements_def by (fastforce split: prod.splits sum.splits)

text \<open>A statement that must end with \<open>SQLITE_DONE\<close>, and what follows it while its object lives.\<close>

lemma exec_calls_implements:
  fixes A :: "'s sqlite_api" and V :: "('s, 'db) api_view"
  assumes "api_laws A V Q c" and "binds_args V binds q" and "q \<noteq> Select_balances" and "implements V rest rest'"
  shows "implements V (\<lambda>s. exec_calls A c s (sql_text q) binds pm sm rest)
    (\<lambda>db. case exec_done Q db q pm sm of (db, Inl e) \<Rightarrow> (db, Inl e) | (db, Inr _) \<Rightarrow> rest' db)"
  unfolding implements_def
proof (intro allI impI)
  fix s s' r
  let ?g = "\<lambda>db. case exec_done Q db q pm sm of (db, Inl e) \<Rightarrow> (db, Inl e) | (db, Inr _) \<Rightarrow> rest' db"
  let ?R = "\<lambda>db r. ?g (av_db V s) = (db, r)"
  assume run: "exec_calls A c s (sql_text q) binds pm sm rest = (s', r)"
  have "av_stmts V s' = av_stmts V s \<and> ?R (av_db V s') r"
  proof (rule scoped_run [OF assms(1) run [unfolded exec_calls_def]], goal_cases)
    case (1 s1)
    then show ?case by (simp add: stmt_is_valid_def exec_done_def)
  next
    case (2 s1 p)
    obtain db' res where Q: "Q (av_db V s) q = (db', res)" "res \<noteq> Not_prepared" using 2(4) by (cases "Q (av_db V s) q") auto
    obtain s2 rc where s2: "stmt_step A (binds s1 (Some p)) (Some p) = (s2, rc)" "av_db V s2 = db'"
      "av_stmts V s2 = (av_stmts V s)(p \<mapsto> \<lparr>st_text = sql_text q, st_bound = sql_args q, st_rows = Some (outcome_rows res)\<rparr>)"
      "q \<noteq> Select_balances \<longrightarrow> (rc = SQLITE_DONE \<longleftrightarrow> res = Done)"
      by (rule first_step [OF assms(1,2) 2(1,3) Q])
    show ?case
    proof (cases "res = Done")
      case True
      obtain s3 r3 where r3: "rest s2 = (s3, r3)" by fastforce
      then have "rest' (av_db V s2) = (av_db V s3, r3)" "av_stmts V s3 = av_stmts V s2"
        using assms(4) unfolding implements_def by blast+
      then show ?thesis using True s2 assms(3) Q r3 by (auto simp: stmt_is_valid_def exec_done_def)
    next
      case False
      then show ?thesis using s2 assms(3) Q by (cases res) (auto simp: stmt_is_valid_def exec_done_def)
    qed
  qed
  then show "?g (av_db V s) = (av_db V s', r) \<and> av_stmts V s' = av_stmts V s" by blast
qed

lemma exec_done_last: "(case exec_done Q db q pm sm of (db, Inl e) \<Rightarrow> (db, Inl e) | (db, Inr _) \<Rightarrow> (db, Inr ())) = exec_done Q db q pm sm"
  by (auto split: prod.splits sum.splits)

lemma exec_calls_last:
  assumes "api_laws A V Q c" and "binds_args V binds q" and "q \<noteq> Select_balances"
  shows "implements V (\<lambda>s. exec_calls A c s (sql_text q) binds pm sm (\<lambda>s. (s, Inr ()))) (\<lambda>db. exec_done Q db q pm sm)"
  using exec_calls_implements [OF assms implements_return [of V "Inr ()"], of pm sm] by (simp only: exec_done_last)

text \<open>A statement whose first step is read by \<open>use\<close>.\<close>

lemma scoped_read_implements:
  fixes A :: "'s sqlite_api" and V :: "('s, 'db) api_view"
  assumes "api_laws A V Q c" and "binds_args V binds q"
    and "\<And>db db' res s2 p rc. Q db q = (db', res) \<Longrightarrow> res \<noteq> Not_prepared \<Longrightarrow> av_db V s2 = db' \<Longrightarrow> outcome_fits q res \<Longrightarrow>
      (\<exists>st. av_stmts V s2 p = Some st \<and> st_rows st = Some (outcome_rows res)) \<Longrightarrow> (rc = SQLITE_ROW \<longleftrightarrow> outcome_rows res \<noteq> []) \<Longrightarrow>
      g db = (db', use s2 (Some p) rc)"
    and "\<And>db. Q db q = (db, Not_prepared) \<Longrightarrow> g db = (db, Inl e)"
  shows "implements V (\<lambda>s. scoped A c s (sql_text q) (\<lambda>s stmt. if \<not> stmt_is_valid stmt then (s, Inl e)
    else (case stmt_step A (binds s stmt) stmt of (s, rc) \<Rightarrow> (s, use s stmt rc)))) g"
  unfolding implements_def
proof (intro allI impI)
  fix s s' r
  assume run: "scoped A c s (sql_text q) (\<lambda>s stmt. if \<not> stmt_is_valid stmt then (s, Inl e)
    else (case stmt_step A (binds s stmt) stmt of (s, rc) \<Rightarrow> (s, use s stmt rc))) = (s', r)"
  have "av_stmts V s' = av_stmts V s \<and> g (av_db V s) = (av_db V s', r)"
  proof (rule scoped_run [OF assms(1) run, where R = "\<lambda>db r. g (av_db V s) = (db, r)"], goal_cases)
    case (1 s1)
    then show ?case using assms(4) by (simp add: stmt_is_valid_def)
  next
    case (2 s1 p)
    obtain db' res where Q: "Q (av_db V s) q = (db', res)" "res \<noteq> Not_prepared" using 2(4) by (cases "Q (av_db V s) q") auto
    obtain s2 rc where s2: "stmt_step A (binds s1 (Some p)) (Some p) = (s2, rc)" "av_db V s2 = db'"
      "av_stmts V s2 = (av_stmts V s)(p \<mapsto> \<lparr>st_text = sql_text q, st_bound = sql_args q, st_rows = Some (outcome_rows res)\<rparr>)"
      "outcome_fits q res" "rc = SQLITE_ROW \<longleftrightarrow> outcome_rows res \<noteq> []"
      by (rule first_step [OF assms(1,2) 2(1,3) Q])
    have "\<exists>st. av_stmts V s2 p = Some st \<and> st_rows st = Some (outcome_rows res)" using s2(3) by simp
    from assms(3) [OF Q s2(2,4) this s2(5)] s2(1-3) show ?case by (auto simp: stmt_is_valid_def)
  qed
  then show "g (av_db V s) = (av_db V s', r) \<and> av_stmts V s' = av_stmts V s" by blast
qed

section \<open>The bindings of each operation\<close>

lemma bind_int_64_value: "api_laws A V Q c \<Longrightarrow> binds_value V s p i (Integer (sint n)) (bind_int_64 A s (Some p) i n)"
  by (simp add: api_laws_def bind_laws_def bind_int_64_def)

lemma bind_text_value: "api_laws A V Q c \<Longrightarrow> binds_value V s p i (Text (c_str txt)) (bind_text A s (Some p) i txt)"
  by (simp add: api_laws_def bind_laws_def bind_text_def)

lemma bind_blob_value:
  assumes "api_laws A V Q c" and "b \<noteq> []" and "length b < 2 ^ 31"
  shows "binds_value V s p i (Blob b) (bind_blob A s (Some p) i b)"
proof -
  have "sint (word_of_nat (length b) :: 32 word) = int (length b)"
    using assms(3) by (simp add: signed_of_nat signed_take_bit_int_eq_self_iff)
  then show ?thesis using assms(1,2) by (simp add: api_laws_def bind_laws_def bind_blob_def)
qed

lemma binds_valueD:
  "binds_value V s p i v s' \<Longrightarrow> av_stmts V s p = Some st \<Longrightarrow> st_rows st = None \<Longrightarrow>
    av_db V s' = av_db V s \<and> av_stmts V s' = (av_stmts V s)(p \<mapsto> st\<lparr>st_bound := (st_bound st)(i \<mapsto> v)\<rparr>)"
  by (simp add: binds_value_def)

lemma no_binds: "sql_args q = Map.empty \<Longrightarrow> binds_args V (\<lambda>s stmt. s) q"
  by (auto simp: binds_args_def)

lemma sint_height: "n < 2 ^ 63 \<Longrightarrow> sint (word_of_nat n :: u64) = int n"
  by (simp add: signed_of_nat signed_take_bit_int_eq_self_iff)

lemma height_binds:
  assumes "api_laws A V Q c" and "height < 2 ^ 63" and "sql_args q = [1 \<mapsto> Integer (int height)]"
  shows "binds_args V (\<lambda>s stmt. bind_int_64 A s stmt 1 (word_of_nat height)) q"
  unfolding binds_args_def
proof (intro allI impI)
  fix s p
  assume "av_stmts V s p = Some (fresh_statement (sql_text q))"
  from binds_valueD [OF bind_int_64_value [OF assms(1), of s p 1 "word_of_nat height"] this] assms(2,3)
  show "av_db V (bind_int_64 A s (Some p) 1 (word_of_nat height)) = av_db V s \<and>
      av_stmts V (bind_int_64 A s (Some p) 1 (word_of_nat height)) =
        (av_stmts V s)(p \<mapsto> \<lparr>st_text = sql_text q, st_bound = sql_args q, st_rows = None\<rparr>)"
    by (simp add: sint_height)
qed

lemma save_block_binds:
  assumes "api_laws A V Q c" and "height < 2 ^ 63" and "b_hash b \<noteq> []" and "length (b_hash b) < 2 ^ 31"
    and "length (block_serialize b) < 2 ^ 31"
  shows "binds_args V (\<lambda>s stmt. let s = bind_int_64 A s stmt 1 (word_of_nat height); s = bind_blob A s stmt 2 (b_hash b) in
      bind_blob A s stmt 3 (block_serialize b)) (Insert_block (int height) (b_hash b) (block_serialize b))"
  unfolding binds_args_def Let_def
proof (intro allI impI)
  fix s p
  let ?q = "Insert_block (int height) (b_hash b) (block_serialize b)"
  let ?s1 = "bind_int_64 A s (Some p) 1 (word_of_nat height)"
  let ?s2 = "bind_blob A ?s1 (Some p) 2 (b_hash b)"
  have "0 < length (block_serialize b)" by (simp add: block_serialize_def)
  then have ne: "block_serialize b \<noteq> []" by blast
  assume "av_stmts V s p = Some (fresh_statement (sql_text ?q))"
  from binds_valueD [OF bind_int_64_value [OF assms(1)] this] assms(2)
  have 1: "av_db V ?s1 = av_db V s" "av_stmts V ?s1 = (av_stmts V s)(p \<mapsto> (fresh_statement (sql_text ?q))\<lparr>st_bound := [1 \<mapsto> Integer (int height)]\<rparr>)"
    by (simp_all add: sint_height)
  from binds_valueD [OF bind_blob_value [OF assms(1,3,4), of ?s1 p 2]] 1
  have 2: "av_db V ?s2 = av_db V s"
    "av_stmts V ?s2 = (av_stmts V s)(p \<mapsto> (fresh_statement (sql_text ?q))\<lparr>st_bound := [1 \<mapsto> Integer (int height), 2 \<mapsto> Blob (b_hash b)]\<rparr>)"
    by simp_all
  from binds_valueD [OF bind_blob_value [OF assms(1) ne assms(5), of ?s2 p 3]] 2
  show "av_db V (bind_blob A ?s2 (Some p) 3 (block_serialize b)) = av_db V s \<and>
      av_stmts V (bind_blob A ?s2 (Some p) 3 (block_serialize b)) =
        (av_stmts V s)(p \<mapsto> \<lparr>st_text = sql_text ?q, st_bound = sql_args ?q, st_rows = None\<rparr>)"
    by simp
qed

lemma save_balance_binds:
  assumes "api_laws A V Q c"
  shows "binds_args V (\<lambda>s stmt. let s = bind_text A s stmt 1 address in bind_int_64 A s stmt 2 amount)
    (Insert_balance (c_str address) (sint amount))"
  unfolding binds_args_def Let_def
proof (intro allI impI)
  fix s p
  let ?q = "Insert_balance (c_str address) (sint amount)" and ?s1 = "bind_text A s (Some p) 1 address"
  assume "av_stmts V s p = Some (fresh_statement (sql_text ?q))"
  from binds_valueD [OF bind_text_value [OF assms] this]
  have 1: "av_db V ?s1 = av_db V s" "av_stmts V ?s1 = (av_stmts V s)(p \<mapsto> (fresh_statement (sql_text ?q))\<lparr>st_bound := [1 \<mapsto> Text (c_str address)]\<rparr>)"
    by simp_all
  from binds_valueD [OF bind_int_64_value [OF assms, of ?s1 p 2 amount]] 1
  show "av_db V (bind_int_64 A ?s1 (Some p) 2 amount) = av_db V s \<and> av_stmts V (bind_int_64 A ?s1 (Some p) 2 amount) =
      (av_stmts V s)(p \<mapsto> \<lparr>st_text = sql_text ?q, st_bound = sql_args ?q, st_rows = None\<rparr>)"
    by simp
qed

lemma load_balance_binds:
  assumes "api_laws A V Q c"
  shows "binds_args V (\<lambda>s stmt. bind_text A s stmt 1 address) (Select_balance (c_str address))"
  unfolding binds_args_def
proof (intro allI impI)
  fix s p
  assume "av_stmts V s p = Some (fresh_statement (sql_text (Select_balance (c_str address))))"
  from binds_valueD [OF bind_text_value [OF assms] this]
  show "av_db V (bind_text A s (Some p) 1 address) = av_db V s \<and> av_stmts V (bind_text A s (Some p) 1 address) =
      (av_stmts V s)(p \<mapsto> \<lparr>st_text = sql_text (Select_balance (c_str address)), st_bound = sql_args (Select_balance (c_str address)), st_rows = None\<rparr>)"
    by simp
qed

section \<open>The operations\<close>

lemma create_schema_implements:
  assumes "api_laws A V Q c"
  shows "implements V (create_schema_calls A c) (create_schema Q)"
proof -
  note balances = exec_calls_last [OF assms no_binds, of Create_balances "''failed to prepare balances table schema''"
      "''failed to create balances table''"]
  show ?thesis
    using exec_calls_implements [OF assms no_binds _ balances, of Create_blocks "''failed to prepare blocks table schema''"
        "''failed to create blocks table''"]
    by (simp add: create_schema_calls_def [abs_def] create_schema_def [abs_def])
qed

lemma save_block_implements:
  assumes "api_laws A V Q c" and "height < 2 ^ 63" and "b_hash b \<noteq> []" and "length (b_hash b) < 2 ^ 31"
    and "length (block_serialize b) < 2 ^ 31"
  shows "implements V (\<lambda>s. save_block_calls A c s b height) (\<lambda>db. save_block Q db b height)"
  using exec_calls_last [OF assms(1) save_block_binds [OF assms]] by (simp add: save_block_calls_def save_block_def)

lemma delete_blocks_from_implements:
  assumes "api_laws A V Q c" and "height < 2 ^ 63"
  shows "implements V (\<lambda>s. delete_blocks_from_calls A c s height) (\<lambda>db. delete_blocks_from Q db height)"
  using exec_calls_last [OF assms(1) height_binds [OF assms, of "Delete_blocks_from (int height)"]]
  by (simp add: delete_blocks_from_calls_def delete_blocks_from_def)

lemma save_balance_implements:
  assumes "api_laws A V Q c"
  shows "implements V (\<lambda>s. save_balance_calls A c s address amount) (\<lambda>db. save_balance Q db address amount)"
  using exec_calls_last [OF assms save_balance_binds [OF assms]] by (simp add: save_balance_calls_def save_balance_def)

definition storable :: "Block \<Rightarrow> bool" where
  "storable b \<longleftrightarrow> b_hash b \<noteq> [] \<and> length (b_hash b) < 2 ^ 31 \<and> length (block_serialize b) < 2 ^ 31"

lemma save_blocks_implements:
  assumes "api_laws A V Q c" and "height + length blocks \<le> 2 ^ 63" and "\<forall>b\<in>set blocks. storable b"
  shows "implements V (\<lambda>s. save_blocks_calls A c s height blocks) (\<lambda>db. save_blocks Q db height blocks)"
  using assms(2,3)
proof (induction blocks arbitrary: height)
  case (Cons b blocks)
  have "implements V (\<lambda>s. save_block_calls A c s b height) (\<lambda>db. save_block Q db b height)"
    using Cons.prems by (intro save_block_implements [OF assms(1)]) (simp_all add: storable_def)
  moreover have "implements V (\<lambda>s. save_blocks_calls A c s (height + 1) blocks) (\<lambda>db. save_blocks Q db (height + 1) blocks)"
    using Cons.prems by (intro Cons.IH) simp_all
  ultimately show ?case by (simp only: save_blocks_calls.simps save_blocks.simps) (intro implements_case implements_return)
qed (simp add: implements_return)

lemma load_block_implements:
  assumes "api_laws A V Q c" and "height < 2 ^ 63"
  shows "implements V (\<lambda>s. load_block_calls C A c s height) (\<lambda>db. load_block C Q db height)"
proof -
  let ?q = "Select_block (int height)"
  let ?use = "\<lambda>s stmt rc. if rc \<noteq> SQLITE_ROW then Inr None else Inr (block_deserialize C (column_blob A s stmt 0))"
  have "implements V (\<lambda>s. scoped A c s (sql_text ?q) (\<lambda>s stmt. if \<not> stmt_is_valid stmt
      then (s, Inl (Runtime_error ''failed to prepare SELECT for blocks''))
      else (case stmt_step A (bind_int_64 A s stmt 1 (word_of_nat height)) stmt of (s, rc) \<Rightarrow> (s, ?use s stmt rc))))
    (\<lambda>db. load_block C Q db height)"
  proof (rule scoped_read_implements [OF assms(1) height_binds [OF assms]], goal_cases)
    case (2 db db' res s2 p rc)
    show ?case
    proof (cases res)
      case (Row_blob b)
      then have "column_blob A s2 (Some p) 0 = b"
        using assms(1) 2(5) unfolding api_laws_def column_laws_def column_blob_def by force
      then show ?thesis using 2 Row_blob by (simp add: load_block_def)
    qed (use 2 in \<open>auto simp: load_block_def\<close>)
  qed (simp_all add: load_block_def)
  then show ?thesis by (simp add: load_block_calls_def if_distrib cong: if_cong)
qed

lemma block_count_implements:
  assumes "api_laws A V Q c"
  shows "implements V (block_count_calls A c) (block_count Q)"
proof -
  let ?use = "\<lambda>s stmt rc. if rc \<noteq> SQLITE_ROW then Inl (Runtime_error ''failed to count blocks'')
    else Inr (unat (word_of_int (column_int64 A s stmt 0) :: u64))"
  have "implements V (\<lambda>s. scoped A c s (sql_text Count_blocks) (\<lambda>s stmt. if \<not> stmt_is_valid stmt
      then (s, Inl (Runtime_error ''failed to prepare SELECT for block''))
      else (case stmt_step A s stmt of (s, rc) \<Rightarrow> (s, ?use s stmt rc)))) (block_count Q)"
  proof (rule scoped_read_implements [OF assms no_binds], goal_cases)
    case (2 db db' res s2 p rc)
    show ?case
    proof (cases res)
      case (Row_int n)
      then have "column_int64 A s2 (Some p) 0 = n"
        using assms 2(5) unfolding api_laws_def column_laws_def column_int64_def by force
      moreover have "nat n = unat (word_of_int n :: u64)" using 2(4) Row_int by (simp add: unat_eq_nat_uint uint_word_of_int)
      ultimately show ?thesis using 2 Row_int by (simp add: block_count_def)
    qed (use 2 in \<open>auto simp: block_count_def\<close>)
  qed (simp_all add: block_count_def)
  then show ?thesis by (simp add: block_count_calls_def [abs_def] if_distrib cong: if_cong)
qed

lemma load_balance_implements:
  assumes "api_laws A V Q c"
  shows "implements V (\<lambda>s. load_balance_calls A c s address) (\<lambda>db. load_balance Q db address)"
proof -
  let ?q = "Select_balance (c_str address)"
  let ?use = "\<lambda>s stmt rc. if rc \<noteq> SQLITE_ROW then Inr None else Inr (Some (word_of_int (column_int64 A s stmt 0)))"
  have "implements V (\<lambda>s. scoped A c s (sql_text ?q) (\<lambda>s stmt. if \<not> stmt_is_valid stmt
      then (s, Inl (Runtime_error ''failed to prepare SELECT for balances''))
      else (case stmt_step A (bind_text A s stmt 1 address) stmt of (s, rc) \<Rightarrow> (s, ?use s stmt rc))))
    (\<lambda>db. load_balance Q db address)"
  proof (rule scoped_read_implements [OF assms load_balance_binds [OF assms]], goal_cases)
    case (1 db db' res s2 p rc)
    show ?case
    proof (cases res)
      case (Row_int n)
      then have "column_int64 A s2 (Some p) 0 = n"
        using assms 1(5) unfolding api_laws_def column_laws_def column_int64_def by force
      then show ?thesis using 1 Row_int by (simp add: load_balance_def)
    qed (use 1 in \<open>auto simp: load_balance_def\<close>)
  qed (simp_all add: load_balance_def)
  then show ?thesis by (simp add: load_balance_calls_def if_distrib cong: if_cong)
qed

lemma rollback_implements:
  assumes "api_laws A V Q c"
  shows "implements V (\<lambda>s. scoped A c s ''ROLLBACK'' (\<lambda>s stmt. (fst (stmt_step A s stmt), Inl e)))
    (\<lambda>db. (fst (Q db Rollback_tx), Inl e))"
  unfolding implements_def
proof (intro allI impI)
  fix s s' r
  assume "scoped A c s ''ROLLBACK'' (\<lambda>s stmt. (fst (stmt_step A s stmt), Inl e)) = (s', r)"
  then have run: "scoped A c s (sql_text Rollback_tx) (\<lambda>s stmt. (fst (stmt_step A s stmt), Inl e)) = (s', r)" by simp
  have "av_stmts V s' = av_stmts V s \<and> (fst (Q (av_db V s) Rollback_tx), Inl e) = (av_db V s', r)"
  proof (rule scoped_run [OF assms run, where R = "\<lambda>db r. (fst (Q (av_db V s) Rollback_tx), Inl e) = (db, r)"], goal_cases)
    case (1 s1)
    moreover have "fst (sq_step A s1 None) = s1" using assms unfolding api_laws_def step_laws_def by blast
    ultimately show ?case by (simp add: stmt_step_def)
  next
    case (2 s1 p)
    have nb: "binds_args V (\<lambda>s stmt. s) Rollback_tx" by (rule no_binds) simp
    obtain db' res where Q: "Q (av_db V s) Rollback_tx = (db', res)" "res \<noteq> Not_prepared"
      using 2(4) by (cases "Q (av_db V s) Rollback_tx") auto
    obtain s2 rc where "stmt_step A s1 (Some p) = (s2, rc)" "av_db V s2 = db'"
      "av_stmts V s2 = (av_stmts V s)(p \<mapsto> \<lparr>st_text = sql_text Rollback_tx, st_bound = sql_args Rollback_tx, st_rows = Some (outcome_rows res)\<rparr>)"
      by (rule first_step [OF assms nb 2(1,3) Q])
    then show ?case using Q(1) by auto
  qed
  then show "(fst (Q (av_db V s) Rollback_tx), Inl e) = (av_db V s', r) \<and> av_stmts V s' = av_stmts V s" by blast
qed

lemma exec_done_same:
  "(case Q db q of (db, Done) \<Rightarrow> f db | (db, _) \<Rightarrow> (db, Inl (Runtime_error msg))) =
     (case exec_done Q db q msg msg of (db, Inl e) \<Rightarrow> (db, Inl e) | (db, Inr _) \<Rightarrow> f db)"
  by (cases "Q db q"; cases "snd (Q db q)") (simp_all add: exec_done_def)

lemma replace_blocks_from_alt:
  "replace_blocks_from Q db height blocks =
     (case exec_done Q db Begin_tx ''failed to begin transaction'' ''failed to begin transaction'' of
        (db, Inl e) \<Rightarrow> (db, Inl e)
      | (db, Inr _) \<Rightarrow>
          (case (case delete_blocks_from Q db height of
                   (db, Inl e) \<Rightarrow> (db, Inl e)
                 | (db, Inr _) \<Rightarrow> save_blocks Q db height blocks) of
             (db, Inl e) \<Rightarrow> (fst (Q db Rollback_tx), Inl e)
           | (db, Inr _) \<Rightarrow> exec_done Q db Commit_tx ''failed to commit transaction'' ''failed to commit transaction''))"
proof -
  have opened: "replace_blocks_from Q db height blocks =
     (case exec_done Q db Begin_tx ''failed to begin transaction'' ''failed to begin transaction'' of
        (db, Inl e) \<Rightarrow> (db, Inl e)
      | (db, Inr _) \<Rightarrow>
          (case (case delete_blocks_from Q db height of
                   (db, Inl e) \<Rightarrow> (db, Inl e)
                 | (db, Inr _) \<Rightarrow> save_blocks Q db height blocks) of
             (db, Inl e) \<Rightarrow> (fst (Q db Rollback_tx), Inl e)
           | (db, Inr _) \<Rightarrow>
               (case Q db Commit_tx of
                  (db, Done) \<Rightarrow> (db, Inr ())
                | (db, _) \<Rightarrow> (db, Inl (Runtime_error ''failed to commit transaction'')))))"
    unfolding replace_blocks_from_def by (rule exec_done_same)
  have "(case Q db Commit_tx of (db, Done) \<Rightarrow> (db, Inr ()) | (db, _) \<Rightarrow> (db, Inl (Runtime_error msg))) =
      exec_done Q db Commit_tx msg msg" for db msg
    by (cases "Q db Commit_tx"; cases "snd (Q db Commit_tx)") (simp_all add: exec_done_def)
  then show ?thesis unfolding opened by (simp only:)
qed

lemma replace_blocks_from_implements:
  assumes "api_laws A V Q c" and "height + length blocks < 2 ^ 63" and "\<forall>b\<in>set blocks. storable b"
  shows "implements V (\<lambda>s. replace_blocks_from_calls A c s height blocks) (\<lambda>db. replace_blocks_from Q db height blocks)"
proof -
  have commit: "implements V (\<lambda>s. exec_calls A c s ''COMMIT'' (\<lambda>s stmt. s) pm sm (\<lambda>s. (s, Inr ()))) (\<lambda>db. exec_done Q db Commit_tx pm sm)" for pm sm
    using exec_calls_last [OF assms(1) no_binds, of Commit_tx] by simp
  have "height < 2 ^ 63" "height + length blocks \<le> 2 ^ 63" using assms(2) by simp_all
  then have "implements V (\<lambda>s. case (case delete_blocks_from_calls A c s height of
        (s, Inl e) \<Rightarrow> (s, Inl e) | (s, Inr _) \<Rightarrow> save_blocks_calls A c s height blocks) of
      (s, Inl e) \<Rightarrow> scoped A c s ''ROLLBACK'' (\<lambda>s stmt. (fst (stmt_step A s stmt), Inl e))
    | (s, Inr _) \<Rightarrow> exec_calls A c s ''COMMIT'' (\<lambda>s stmt. s) ''failed to commit transaction'' ''failed to commit transaction'' (\<lambda>s. (s, Inr ())))
    (\<lambda>db. case (case delete_blocks_from Q db height of (db, Inl e) \<Rightarrow> (db, Inl e) | (db, Inr _) \<Rightarrow> save_blocks Q db height blocks) of
      (db, Inl e) \<Rightarrow> (fst (Q db Rollback_tx), Inl e)
    | (db, Inr _) \<Rightarrow> exec_done Q db Commit_tx ''failed to commit transaction'' ''failed to commit transaction'')"
    by (intro implements_case implements_return rollback_implements [OF assms(1)] commit
        delete_blocks_from_implements [OF assms(1)] save_blocks_implements [OF assms(1) _ assms(3)])
  from exec_calls_implements [OF assms(1) no_binds _ this, of Begin_tx]
  show ?thesis by (simp add: replace_blocks_from_calls_def replace_blocks_from_alt)
qed

section \<open>The loop over the balances\<close>

lemma next_step:
  assumes "api_laws A V Q c" and "av_stmts V s p = Some st" and "st_rows st = Some (r # rows)" and "sq_step A s (Some p) = (s', rc)"
  shows "av_db V s' = av_db V s \<and> av_stmts V s' = (av_stmts V s)(p \<mapsto> st\<lparr>st_rows := Some rows\<rparr>) \<and> (rc = SQLITE_ROW \<longleftrightarrow> rows \<noteq> [])"
  using assms unfolding api_laws_def step_laws_def by blast

lemma balance_rows_rest:
  assumes "api_laws A V Q c" and "av_stmts V s p = Some st"
    and "st_rows st = Some ([Text a, Integer n] # map (\<lambda>(a, n). [Text a, Integer n]) rows)"
  shows "\<exists>s' st'. balance_rows A s (Some p) acc = Some (s', acc @ map (\<lambda>(a, n). (c_str a, word_of_int n)) rows) \<and>
    av_db V s' = av_db V s \<and> av_stmts V s' = (av_stmts V s)(p \<mapsto> st')"
  using assms(2,3)
proof (induction rows arbitrary: s st a n acc)
  case Nil
  obtain s1 rc where s1: "sq_step A s (Some p) = (s1, rc)" by fastforce
  from next_step [OF assms(1) Nil s1] show ?case using s1 by (subst balance_rows.simps) (auto simp: stmt_step_def)
next
  case (Cons r rows)
  obtain b m where r: "r = (b, m)" by fastforce
  obtain s1 rc where s1: "sq_step A s (Some p) = (s1, rc)" by fastforce
  let ?rows = "[Text b, Integer m] # map (\<lambda>(a, n). [Text a, Integer n]) rows"
  have step: "av_db V s1 = av_db V s" "av_stmts V s1 = (av_stmts V s)(p \<mapsto> st\<lparr>st_rows := Some ?rows\<rparr>)" "rc = SQLITE_ROW"
    using next_step [OF assms(1) Cons.prems s1] r by simp_all
  then have st: "av_stmts V s1 p = Some (st\<lparr>st_rows := Some ?rows\<rparr>)" by simp
  have col: "column_text A s1 (Some p) 0 = c_str b" "column_int64 A s1 (Some p) 1 = m"
    using assms(1) st unfolding api_laws_def column_laws_def column_text_def column_int64_def by force+
  have "st_rows (st\<lparr>st_rows := Some ?rows\<rparr>) = Some ?rows" by simp
  from Cons.IH [OF st this, of "acc @ [(c_str b, word_of_int m)]"] obtain s' st' where
    "balance_rows A s1 (Some p) (acc @ [(c_str b, word_of_int m)]) =
       Some (s', (acc @ [(c_str b, word_of_int m)]) @ map (\<lambda>(a, n). (c_str a, word_of_int n)) rows)"
    "av_db V s' = av_db V s1" "av_stmts V s' = (av_stmts V s1)(p \<mapsto> st')" by blast
  then have "balance_rows A s (Some p) acc = Some (s', acc @ map (\<lambda>(a, n). (c_str a, word_of_int n)) (r # rows)) \<and>
      av_db V s' = av_db V s \<and> av_stmts V s' = (av_stmts V s)(p \<mapsto> st')"
    using step col s1 r by (subst balance_rows.simps) (simp add: stmt_step_def)
  then show ?case by blast
qed

lemma load_all_balances_implements:
  assumes "api_laws A V Q c"
  shows "\<exists>s'. load_all_balances_calls A c s = Some (s', snd (load_all_balances Q (av_db V s))) \<and>
    fst (load_all_balances Q (av_db V s)) = av_db V s' \<and> av_stmts V s' = av_stmts V s"
  using assms
proof (cases rule: prepared_cases [where s = s and q = Select_balances])
  case (no s1)
  then show ?thesis by (simp add: load_all_balances_calls_def load_all_balances_def stmt_is_valid_def stmt_close_def)
next
  case (yes s1 p)
  have nb: "binds_args V (\<lambda>s stmt. s) Select_balances" by (rule no_binds) simp
  obtain db' res where Q: "Q (av_db V s) Select_balances = (db', res)" "res \<noteq> Not_prepared"
    using yes(5) by (cases "Q (av_db V s) Select_balances") auto
  obtain s2 rc where s2: "stmt_step A s1 (Some p) = (s2, rc)" "av_db V s2 = db'"
    "av_stmts V s2 = (av_stmts V s)(p \<mapsto> \<lparr>st_text = sql_text Select_balances, st_bound = sql_args Select_balances, st_rows = Some (outcome_rows res)\<rparr>)"
    "outcome_fits Select_balances res" "rc = SQLITE_ROW \<longleftrightarrow> outcome_rows res \<noteq> []"
    by (rule first_step [OF assms nb yes(2,4) Q])
  define rows where "rows = (case res of Rows_balance rows \<Rightarrow> rows | _ \<Rightarrow> [])"
  have rows: "outcome_rows res = map (\<lambda>(a, n). [Text a, Integer n]) rows"
    "load_all_balances Q (av_db V s) = (db', Inr (map (\<lambda>(a, n). (c_str a, word_of_int n)) rows))"
    using s2(4) Q by (cases res; simp add: rows_def load_all_balances_def)+
  have "\<exists>s3 st. balance_rows A s1 (Some p) [] = Some (s3, map (\<lambda>(a, n). (c_str a, word_of_int n)) rows) \<and>
      av_db V s3 = db' \<and> av_stmts V s3 = (av_stmts V s)(p \<mapsto> st)"
  proof (cases rows)
    case Nil
    then show ?thesis using s2 rows(1) by (subst balance_rows.simps) auto
  next
    case (Cons r rs)
    obtain a n where r: "r = (a, n)" by fastforce
    let ?st = "\<lparr>st_text = sql_text Select_balances, st_bound = sql_args Select_balances, st_rows = Some (outcome_rows res)\<rparr>"
    have st: "av_stmts V s2 p = Some ?st" "st_rows ?st = Some ([Text a, Integer n] # map (\<lambda>(a, n). [Text a, Integer n]) rs)"
      using s2(3) rows(1) Cons r by simp_all
    have "column_text A s2 (Some p) 0 = c_str a" "column_int64 A s2 (Some p) 1 = n"
      using assms st unfolding api_laws_def column_laws_def column_text_def column_int64_def by force+
    with balance_rows_rest [OF assms st, of "[(c_str a, word_of_int n)]"] s2 rows(1) Cons r show ?thesis
      by (subst balance_rows.simps) (auto intro!: exI)
  qed
  then obtain s3 st where s3: "balance_rows A s1 (Some p) [] = Some (s3, map (\<lambda>(a, n). (c_str a, word_of_int n)) rows)"
    "av_db V s3 = db'" "av_stmts V s3 = (av_stmts V s)(p \<mapsto> st)" by blast
  then have "av_stmts V s3 p \<noteq> None" by simp
  then have "av_db V (sq_finalize A s3 p) = db'" "av_stmts V (sq_finalize A s3 p) = av_stmts V s"
    using assms s3(2,3) yes(3) unfolding api_laws_def prepare_laws_def by (simp_all add: fun_upd_idem)
  then show ?thesis using yes(1) s3(1) rows(2) by (simp add: load_all_balances_calls_def stmt_is_valid_def stmt_close_def)
qed

text \<open>The constructor: the database that was opened, if any, gets its tables.\<close>

lemma new_Storage_implements:
  assumes "new_SqliteConnection A s path = (s1, c)" and "c \<noteq> None \<Longrightarrow> api_laws A V Q c"
    and "new_Storage_calls A s path = (s', r)"
  shows "case r of
      Inl e \<Rightarrow> open_storage Q (map_option (\<lambda>_. av_db V s1) c) path = Inl e
    | Inr c' \<Rightarrow> c' = c \<and> open_storage Q (map_option (\<lambda>_. av_db V s1) c) path = Inr (av_db V s') \<and> av_stmts V s' = av_stmts V s1"
proof (cases c)
  case None
  then show ?thesis using assms(1,3) by (auto simp: new_Storage_calls_def conn_is_valid_def open_storage_def)
next
  case (Some p)
  obtain s2 r2 where r2: "create_schema_calls A c s1 = (s2, r2)" by fastforce
  then have "create_schema Q (av_db V s1) = (av_db V s2, r2)" "av_stmts V s2 = av_stmts V s1"
    using create_schema_implements [OF assms(2)] Some unfolding implements_def by blast+
  then show ?thesis using assms(1,3) Some r2
    by (cases r2) (auto simp: new_Storage_calls_def conn_is_valid_def open_storage_def)
qed

section \<open>Property\<close>

text \<open>C15: The storage operations, as the sqlite3 calls they make, do what the operations on whole statements do. Each
  prepares the statement with its text, binds its values to the right parameters, steps it, reads the columns
  of the rows it gives, and on every path, errors included, finalizes each statement it prepared: no statement is left
  behind. The result and the exception are the same, and so is the database. The loop over the balances ends.
  Heights are below 2 to the 63 and blobs below 2 to the 31 bytes, since the calls take signed sizes.\<close>

theorem storage_calls_refine:
  assumes "api_laws A V Q c" and "height + length blocks < 2 ^ 63" and "\<forall>b\<in>set (block # blocks). storable b"
  shows "implements V (create_schema_calls A c) (create_schema Q) \<and>
    implements V (\<lambda>s. save_block_calls A c s block height) (\<lambda>db. save_block Q db block height) \<and>
    implements V (\<lambda>s. load_block_calls C A c s height) (\<lambda>db. load_block C Q db height) \<and>
    implements V (block_count_calls A c) (block_count Q) \<and>
    implements V (\<lambda>s. delete_blocks_from_calls A c s height) (\<lambda>db. delete_blocks_from Q db height) \<and>
    implements V (\<lambda>s. replace_blocks_from_calls A c s height blocks) (\<lambda>db. replace_blocks_from Q db height blocks) \<and>
    implements V (\<lambda>s. save_balance_calls A c s address amount) (\<lambda>db. save_balance Q db address amount) \<and>
    implements V (\<lambda>s. load_balance_calls A c s address) (\<lambda>db. load_balance Q db address) \<and>
    (\<exists>s'. load_all_balances_calls A c s = Some (s', snd (load_all_balances Q (av_db V s))) \<and>
       fst (load_all_balances Q (av_db V s)) = av_db V s' \<and> av_stmts V s' = av_stmts V s)"
proof (intro conjI)
  have h: "height < 2 ^ 63" using assms(2) by simp
  show "implements V (\<lambda>s. save_block_calls A c s block height) (\<lambda>db. save_block Q db block height)"
    using assms(3) by (intro save_block_implements [OF assms(1) h]) (simp_all add: storable_def)
  show "implements V (\<lambda>s. load_block_calls C A c s height) (\<lambda>db. load_block C Q db height)"
    by (rule load_block_implements [OF assms(1) h])
  show "implements V (\<lambda>s. delete_blocks_from_calls A c s height) (\<lambda>db. delete_blocks_from Q db height)"
    by (rule delete_blocks_from_implements [OF assms(1) h])
  show "implements V (\<lambda>s. replace_blocks_from_calls A c s height blocks) (\<lambda>db. replace_blocks_from Q db height blocks)"
    using assms(3) by (intro replace_blocks_from_implements [OF assms(1,2)]) simp
qed (intro create_schema_implements block_count_implements save_balance_implements load_balance_implements
    load_all_balances_implements assms(1))+

section \<open>An engine in memory\<close>

text \<open>The database of FC_Storage behind the calls. A count beyond the 64-bit range is an error.\<close>

definition small_sqlite :: "mem_db sqlite" where
  "small_sqlite db q = (case mem_sqlite db q of
     (db', Row_int n) \<Rightarrow> (db', if q = Count_blocks \<and> \<not> n < 2 ^ 63 then Other_code else Row_int n)
   | r \<Rightarrow> r)"

fun sql_of :: "str \<Rightarrow> (int \<rightharpoonup> sql_value) \<Rightarrow> sql option" where
  "sql_of txt bound =
     (if txt = sql_text (Insert_block 0 [] []) then
        (case (bound 1, bound 2, bound 3) of (Some (Integer h), Some (Blob k), Some (Blob s)) \<Rightarrow> Some (Insert_block h k s) | _ \<Rightarrow> None)
      else if txt = sql_text (Select_block 0) then (case bound 1 of Some (Integer h) \<Rightarrow> Some (Select_block h) | _ \<Rightarrow> None)
      else if txt = sql_text (Delete_blocks_from 0) then (case bound 1 of Some (Integer h) \<Rightarrow> Some (Delete_blocks_from h) | _ \<Rightarrow> None)
      else if txt = sql_text (Insert_balance [] 0) then
        (case (bound 1, bound 2) of (Some (Text a), Some (Integer n)) \<Rightarrow> Some (Insert_balance a n) | _ \<Rightarrow> None)
      else if txt = sql_text (Select_balance []) then (case bound 1 of Some (Text a) \<Rightarrow> Some (Select_balance a) | _ \<Rightarrow> None)
      else List.find (\<lambda>q. sql_text q = txt)
        [Count_blocks, Begin_tx, Commit_tx, Rollback_tx, Select_balances, Create_blocks, Create_balances])"

declare sql_of.simps [simp del]

lemma sql_of_text [simp]: "sql_of (sql_text q) (sql_args q) = Some q"
  by (cases q) (simp_all add: sql_of.simps)

record mem_engine =
  me_db :: mem_db
  me_stmts :: "nat \<rightharpoonup> statement"
  me_next :: nat

definition me_live :: "mem_engine \<Rightarrow> nat \<rightharpoonup> statement" where
  "me_live s p = (if p < me_next s then me_stmts s p else None)"

definition mem_bind :: "mem_engine \<Rightarrow> nat pointer \<Rightarrow> int \<Rightarrow> sql_value \<Rightarrow> mem_engine" where
  "mem_bind s stmt i v = (case stmt of None \<Rightarrow> s | Some p \<Rightarrow>
     (case me_live s p of None \<Rightarrow> s
      | Some st \<Rightarrow> s\<lparr>me_stmts := (me_stmts s)(p \<mapsto> st\<lparr>st_bound := (st_bound st)(i \<mapsto> v)\<rparr>)\<rparr>))"

definition mem_step :: "mem_engine \<Rightarrow> nat pointer \<Rightarrow> mem_engine \<times> int" where
  "mem_step s stmt = (case stmt of None \<Rightarrow> (s, 21) | Some p \<Rightarrow>
     (case me_live s p of None \<Rightarrow> (s, 21)
      | Some st \<Rightarrow>
          (case st_rows st of
             None \<Rightarrow>
               (case sql_of (st_text st) (st_bound st) of None \<Rightarrow> (s, 1)
                | Some q \<Rightarrow> (case small_sqlite (me_db s) q of (db, res) \<Rightarrow>
                    (s\<lparr>me_db := db, me_stmts := (me_stmts s)(p \<mapsto> st\<lparr>st_rows := Some (outcome_rows res)\<rparr>)\<rparr>,
                     if outcome_rows res \<noteq> [] then SQLITE_ROW else if res = Other_code then 1 else SQLITE_DONE)))
           | Some [] \<Rightarrow> (s, 21)
           | Some (r # rows) \<Rightarrow> (s\<lparr>me_stmts := (me_stmts s)(p \<mapsto> st\<lparr>st_rows := Some rows\<rparr>)\<rparr>,
               if rows \<noteq> [] then SQLITE_ROW else SQLITE_DONE))))"

definition mem_column :: "mem_engine \<Rightarrow> nat pointer \<Rightarrow> int \<Rightarrow> sql_value option" where
  "mem_column s stmt i = (case stmt of None \<Rightarrow> None | Some p \<Rightarrow>
     (case me_live s p of None \<Rightarrow> None
      | Some st \<Rightarrow> (case st_rows st of Some (r # rows) \<Rightarrow> if nat i < length r then Some (r ! nat i) else None | _ \<Rightarrow> None)))"

definition mem_api :: "mem_engine sqlite_api" where
  "mem_api = \<lparr>sq_open = (\<lambda>s path. (s, SQLITE_OK, Some 0)), sq_close = (\<lambda>s p. s),
     sq_prepare_v2 = (\<lambda>s c txt. (s\<lparr>me_stmts := (me_stmts s)(me_next s \<mapsto> fresh_statement txt), me_next := Suc (me_next s)\<rparr>,
       SQLITE_OK, Some (me_next s))),
     sq_bind_int64 = (\<lambda>s stmt i n. mem_bind s stmt i (Integer n)),
     sq_bind_blob = (\<lambda>s stmt i b n. mem_bind s stmt i (Blob (take (nat n) b))),
     sq_bind_text = (\<lambda>s stmt i txt. mem_bind s stmt i (Text txt)), sq_step = mem_step,
     sq_column_int64 = (\<lambda>s stmt i. case mem_column s stmt i of Some (Integer n) \<Rightarrow> n | _ \<Rightarrow> 0),
     sq_column_bytes = (\<lambda>s stmt i. case mem_column s stmt i of Some (Blob b) \<Rightarrow> int (length b) | _ \<Rightarrow> 0),
     sq_column_blob = (\<lambda>s stmt i. case mem_column s stmt i of Some (Blob b) \<Rightarrow> b | _ \<Rightarrow> []),
     sq_column_text = (\<lambda>s stmt i. case mem_column s stmt i of Some (Text txt) \<Rightarrow> Some txt | _ \<Rightarrow> None),
     sq_finalize = (\<lambda>s p. s\<lparr>me_stmts := (me_stmts s)(p := None)\<rparr>)\<rparr>"

definition engine_view :: "(mem_engine, mem_db) api_view" where
  "engine_view = \<lparr>av_db = me_db, av_stmts = me_live\<rparr>"

lemma mem_api_sel [simp]:
  "sq_prepare_v2 mem_api s c txt = (s\<lparr>me_stmts := (me_stmts s)(me_next s \<mapsto> fresh_statement txt), me_next := Suc (me_next s)\<rparr>,
     SQLITE_OK, Some (me_next s))"
  "sq_bind_int64 mem_api s stmt i n = mem_bind s stmt i (Integer n)"
  "sq_bind_blob mem_api s stmt i b m = mem_bind s stmt i (Blob (take (nat m) b))"
  "sq_bind_text mem_api s stmt i txt = mem_bind s stmt i (Text txt)" "sq_step mem_api = mem_step"
  "sq_finalize mem_api s p = s\<lparr>me_stmts := (me_stmts s)(p := None)\<rparr>"
  "av_db engine_view = me_db" "av_stmts engine_view = me_live"
  by (simp_all add: mem_api_def engine_view_def)

lemma small_sqlite_fits: "small_sqlite db q = (db', res) \<Longrightarrow> outcome_fits q res \<and> res \<noteq> Not_prepared"
  by (cases q) (auto simp: small_sqlite_def split: option.splits if_splits)

lemma small_sqlite_done: "small_sqlite db q = (db', res) \<Longrightarrow> q \<noteq> Select_balances \<Longrightarrow>
    outcome_rows res = [] \<Longrightarrow> res = Done \<or> res = Other_code"
  by (cases q) (auto simp: small_sqlite_def split: option.splits if_splits)

lemma me_live_upd:
  "me_live s p = Some st \<Longrightarrow> me_live (s\<lparr>me_stmts := (me_stmts s)(p := x)\<rparr>) = (me_live s)(p := x)"
  "me_live s p = Some st \<Longrightarrow> me_live (s\<lparr>me_db := db, me_stmts := (me_stmts s)(p := x)\<rparr>) = (me_live s)(p := x)"
  by (auto simp: me_live_def fun_eq_iff split: if_splits)

lemma mem_prepare_laws: "prepare_laws mem_api engine_view small_sqlite c"
proof -
  have "snd (small_sqlite db q) \<noteq> Not_prepared" for db q
    using small_sqlite_fits [of db q] by (metis prod.collapse)
  then show ?thesis
    unfolding prepare_laws_def by (auto simp: me_live_upd SQLITE_OK_def) (auto simp: me_live_def fun_eq_iff)
qed

lemma mem_bind_laws: "bind_laws mem_api engine_view"
  by (simp add: bind_laws_def binds_value_def mem_bind_def me_live_upd)

lemma mem_first_step:
  assumes "me_live s p = Some \<lparr>st_text = sql_text q, st_bound = sql_args q, st_rows = None\<rparr>"
    and "small_sqlite (me_db s) q = (db', res)" and "mem_step s (Some p) = (s', rc)"
  shows "me_db s' = db'"
    "me_live s' = (me_live s)(p \<mapsto> \<lparr>st_text = sql_text q, st_bound = sql_args q, st_rows = Some (outcome_rows res)\<rparr>)"
    "rc = SQLITE_ROW \<longleftrightarrow> outcome_rows res \<noteq> []" "q \<noteq> Select_balances \<longrightarrow> (rc = SQLITE_DONE \<longleftrightarrow> res = Done)"
proof -
  let ?st = "\<lparr>st_text = sql_text q, st_bound = sql_args q, st_rows = Some (outcome_rows res)\<rparr>"
  have s': "s' = s\<lparr>me_db := db', me_stmts := (me_stmts s)(p \<mapsto> ?st)\<rparr>"
    and rc: "rc = (if outcome_rows res \<noteq> [] then SQLITE_ROW else if res = Other_code then 1 else SQLITE_DONE)"
    using assms by (simp_all add: mem_step_def)
  show "me_db s' = db'" "me_live s' = (me_live s)(p \<mapsto> ?st)" unfolding s' by (simp_all add: me_live_upd(2) [OF assms(1)])
  show "rc = SQLITE_ROW \<longleftrightarrow> outcome_rows res \<noteq> []" unfolding rc by (simp add: SQLITE_ROW_def SQLITE_DONE_def)
  show "q \<noteq> Select_balances \<longrightarrow> (rc = SQLITE_DONE \<longleftrightarrow> res = Done)"
    using small_sqlite_done [OF assms(2)] unfolding rc by (cases res) (auto simp: SQLITE_ROW_def SQLITE_DONE_def)
qed

lemma mem_next_step:
  assumes "me_live s p = Some st" and "st_rows st = Some (r # rows)" and "mem_step s (Some p) = (s', rc)"
  shows "me_db s' = me_db s \<and> me_live s' = (me_live s)(p \<mapsto> st\<lparr>st_rows := Some rows\<rparr>) \<and> (rc = SQLITE_ROW \<longleftrightarrow> rows \<noteq> [])"
  using assms by (auto simp: mem_step_def me_live_upd SQLITE_ROW_def SQLITE_DONE_def)

lemma mem_step_laws: "step_laws mem_api engine_view small_sqlite"
  unfolding step_laws_def mem_api_sel
proof (intro conjI, goal_cases)
  case 1
  show ?case by (simp add: mem_step_def)
next
  case 2
  show ?case
  proof (intro allI impI, elim conjE)
    fix s p q db' res s' rc
    assume run: "me_live s p = Some \<lparr>st_text = sql_text q, st_bound = sql_args q, st_rows = None\<rparr>"
      "small_sqlite (me_db s) q = (db', res)" "mem_step s (Some p) = (s', rc)"
    show "me_db s' = db' \<and> outcome_fits q res \<and>
        me_live s' = (me_live s)(p \<mapsto> \<lparr>st_text = sql_text q, st_bound = sql_args q, st_rows = Some (outcome_rows res)\<rparr>) \<and>
        (rc = SQLITE_ROW \<longleftrightarrow> outcome_rows res \<noteq> []) \<and> (q \<noteq> Select_balances \<longrightarrow> (rc = SQLITE_DONE \<longleftrightarrow> res = Done))"
      using mem_first_step [OF run] small_sqlite_fits [OF run(2)] by blast
  qed
next
  case 3
  show ?case using mem_next_step by blast
qed

lemma mem_column_laws: "column_laws mem_api engine_view"
  by (simp add: column_laws_def mem_column_def mem_api_def engine_view_def)

lemma mem_api_laws: "api_laws mem_api engine_view small_sqlite c"
  by (simp add: api_laws_def mem_prepare_laws mem_bind_laws mem_step_laws mem_column_laws)

definition empty_engine :: mem_engine where
  "empty_engine = \<lparr>me_db = empty_db, me_stmts = Map.empty, me_next = 0\<rparr>"

theorem storage_calls_refine_witness:
  "\<exists>s'. save_block_calls mem_api (Some 0) empty_engine sample_a 1 = (s', Inr ()) \<and>
     md_rows (me_db s') = [(1, sample_hash 8, block_serialize sample_a)] \<and> me_live s' = Map.empty"
proof -
  have "storable sample_a"
    by (simp add: storable_def block_serialize_def) (simp add: sample_a_def sample_child_def mk_Block_def Let_def sample_sha_def)
  then have "implements engine_view (\<lambda>s. save_block_calls mem_api (Some 0) s sample_a 1) (\<lambda>db. save_block small_sqlite db sample_a 1)"
    using storage_calls_refine [OF mem_api_laws [of "Some 0"], of 1 "[]" sample_a] by simp
  moreover obtain s' r where run: "save_block_calls mem_api (Some 0) empty_engine sample_a 1 = (s', r)" by fastforce
  ultimately have "save_block small_sqlite (me_db empty_engine) sample_a 1 = (me_db s', r)" and live: "me_live s' = me_live empty_engine"
    by (simp_all add: implements_def)
  then have "me_db s' = \<lparr>md_rows = [(1, sample_hash 8, block_serialize sample_a)], md_saved = None, md_balances = []\<rparr>" "r = Inr ()"
    by (simp_all add: save_block_def exec_done_def small_sqlite_def empty_db_def empty_engine_def)
  moreover have "me_live empty_engine = Map.empty" by (simp add: me_live_def empty_engine_def fun_eq_iff)
  ultimately show ?thesis using run live by simp
qed

end
