(* ===== verification/Spec2Isabelle.thy ===== *)
theory Spec2Isabelle
  imports FC_Starvation FC_Authentic FC_Download FC_Gossip FC_Connections FC_Sqlite
begin

text \<open>
  Verification of forgechain (src/), a proof-of-work blockchain node and a wallet in C++20.

  \<^bold>\<open>The program.\<close> A node keeps a chain of blocks, a ledger of account balances, a mempool of pending
  transactions and a pool of blocks off the main chain; one object, \<open>ChainManager\<close>, owns them together with an
  optional SQLite database. \<open>Node\<close> talks to its peers over TCP: it answers and sends messages, catches up with
  heavier peers, gossips addresses and dials new peers. \<open>Orchestrator\<close> restores the stored chain, starts the node, mines
  and executes the operator's commands. \<open>RpcServer\<close> answers the wallet, a second program that signs payments. The
  development follows the sources from the bottom up, one theory per component, with the names of the sources;
  a record field carries a short prefix of its class (\<open>cm_ledger\<close> is \<open>ledger_\<close> of \<open>ChainManager\<close>).

  \<^bold>\<open>Conventions.\<close> \<open>uint8_t\<close> to \<open>uint64_t\<close> are words and wrap; sizes of containers are natural numbers, with \<open>mod 2 ^ 64\<close>
  where the code adds to them without a bound. A function that may throw returns \<open>exn + 'a\<close>; a method that changes
  its object returns the new state with the value or the exception, so that what an exception leaves behind is
  visible. Undefined behaviour is an exception of its own. An \<open>unordered_map\<close> is an association list; where its
  iteration order is observable the order is a parameter. A loop that need not end is a \<open>partial_function\<close> into
  \<open>option\<close>, with \<open>None\<close> for not returning; no definition uses fuel. Loops that end for a reason the code has (a nonce
  that grows, a depth bound, a shrinking buffer) are \<open>function\<close>s with that reason as their measure.

  \<^bold>\<open>Parameters.\<close> What the code calls but does not contain is an argument of the definitions: OpenSSL (record
  \<open>openssl\<close>: which calls succeed, the digest, points, signatures), the rounded logarithm of the floating-point
  library, hash-map iteration, SQLite (one function that runs a statement; \<open>sqlite_laws\<close> and \<open>accepts_writes\<close> say
  what is relied on; below it the sqlite3 functions, record \<open>sqlite_api\<close>, with \<open>api_laws\<close>), \<open>recv\<close> and \<open>send\<close> (\<open>os\<close>, with \<open>recv_laws\<close> and \<open>send_laws\<close>), the other socket calls and the
  clock (\<open>tcp\<close>), the memory an allocation may have, local time, files, what the random device returns and how a
  uniform distribution uses its generator. Statements about hashes assume a
  set of block images on which the digest does not collide. Each hypothesis is met by a sample instance
  (\<open>sample_openssl\<close>, \<open>mem_sqlite\<close>, \<open>mem_api\<close>, \<open>mem_os\<close>, \<open>sample_tcp\<close>), on which the witnesses evaluate the model.

  \<^bold>\<open>Theories.\<close>
  \<^item> \<open>FC_Prelude\<close>: machine types (CommonTypes.hpp), exceptions, little-endian images, cursors over byte strings, and the
    locale \<open>codec\<close>, the contract of every serializer and its parser.
  \<^item> \<open>FC_Crypto\<close>, \<open>FC_Transaction\<close>, \<open>FC_Block\<close>: hashing, hexadecimal text, addresses, ECDSA calls; transactions and blocks
    with their wire formats. Parsers accept exactly what the serializers write, signed bytes determine every signed
    field, a valid signature is by the sender's key.
  \<^item> \<open>FC_Ledger\<close>: balances and nonces. The ledger refines an account model on unbounded numbers when no sum wraps; the
    locale \<open>reversible\<close> carries rollback and change of branch.
  \<^item> \<open>FC_Consensus\<close>: target test, mining with and without cancellation, difficulty, timestamps, coinbase rule.
  \<^item> \<open>FC_Mempool\<close>, \<open>FC_OrphanPool\<close>, \<open>FC_Blockchain\<close>: the bounded pools, the indexed chain, forks and locators, with
    the locale \<open>hash_chain\<close> on lists linked by hashes.
  \<^item> \<open>FC_Storage\<close>, \<open>FC_Handles\<close>, \<open>FC_Sqlite\<close>: the tables, the classes that own handles (locale \<open>owner\<close>, interpreted for
    sockets, connections and statements), and the same storage operations as sequences of sqlite3 calls through the
    methods of \<open>SqliteStatement\<close>, with a simulation between the two levels.
  \<^item> \<open>FC_ChainManager\<close>, \<open>FC_ChainInv\<close>, \<open>FC_ChainProps\<close>, \<open>FC_LedgerChain\<close>: every method of ChainManager.cpp, its invariant and
    step relation, which blocks are accepted, what is stored, and that the ledger follows the chain.
  \<^item> \<open>FC_Authentic\<close>: who authorized the payments of a chain, what holds in every state the manager reaches, and what a
    malformed key does to the node that checks it. The step relation takes a predicate on restored blocks, since
    \<open>restore_block\<close> does not check them: signatures hold for any, links and hashes for a store that returns the chain.
  \<^item> \<open>FC_Text\<close>, \<open>FC_Wire\<close>, \<open>FC_AddressBook\<close>, \<open>FC_Tcp\<close>, \<open>FC_Node\<close>, \<open>FC_NodeInv\<close>, \<open>FC_Sync\<close>, \<open>FC_Download\<close>,
    \<open>FC_Gossip\<close>, \<open>FC_Connections\<close>: text and numbers, messages over sockets, the address book, TCP, the node with one definition per
    handler and per turn of a thread, its invariant, catching up between two nodes in one round and in many,
    a block passed from one to the other, and node identities with what they decide.
  \<^item> \<open>FC_Rpc\<close>, \<open>FC_App\<close>, \<open>FC_AppProps\<close>, \<open>FC_Starvation\<close>: RPC server, wallet and its prompt, orchestrator and both \<open>main\<close>
    functions, the properties of the running program, and the miner against a clogged mempool.

  \<^bold>\<open>What is shown.\<close> Each property is stated in the text before its theorem. In groups: the program keeps its
  invariants in every interleaving of its threads (C1, C8); it makes progress, catching up in one round or in many,
  mining and passing blocks on (C2, C3, C6, C10); the ledger and the database follow the chain (C4, C7, C9), whose
  payments are signed (C5); what each component computes, against a reference definition where it has one; and what the
  code does not do although it should, as theorems on concrete runs or on all inputs: coins created by wrap-around (in a
  ledger, by an accepted block), by shared payments in a reorganization and by a negative amount, branches adopted
  without work or funds, restored blocks that do not link, nodes that disagree after a refused block or never reconcile
  after a deep fork, payments that are never confirmed, peers and clients that end or block a thread.

  \<^bold>\<open>Atomicity.\<close> Public methods of \<open>ChainManager\<close>, \<open>Mempool\<close> and \<open>AddressBook\<close> run under a mutex and are one step. A
  step of the node is what one thread does between two waits; within it, the code releases and takes its
  mutexes several times, and other threads could run there. The step relations let whole turns interleave in any order.

  \<^bold>\<open>Not modelled.\<close> The lines the node writes to its logger, waiting on condition variables and joining
  threads (destructors are the \<open>stop\<close> they call), the deleters of OpenSSL handles, which only free memory, accessors that
  return a field, formatting of local time, declarations in headers, and the build and test code. Hashing is a total
  function except in \<open>sha256\<close> itself: an EVP call that fails for want of memory would throw from every place that hashes.
\<close>

end
